(* ===== verification/Prelude.thy ===== *)
theory Prelude
  imports Main "HOL-Library.Word" "HOL-Library.Multiset"
begin

text \<open>
  What every theory of the development shares: the collections of rewrite
  rules the component proofs are given, Rust's checked and saturating
  arithmetic, the few operations on lists that stand for operations on
  vectors and slices, and the interface of a work-stack loop.

  A number that cannot reach the end of its range is a \<open>nat\<close>; one whose
  range matters is a \<open>nat\<close> with the bound written out (\<open>sat16\<close>, the checked
  operations), or a word where bits matter.  Subtraction on \<open>nat\<close> stops at 0,
  which is what \<open>saturating_sub\<close> does.
\<close>

named_theorems rect_simps
named_theorems tree_simps
named_theorems codec_intros
named_theorems ring_simps
named_theorems parser_simps

section \<open>Numbers\<close>

definition u16_max :: nat where
  "u16_max = 65535"

definition u32_max :: nat where
  "u32_max = 4294967295"

text \<open>\<open>u16::saturating_add\<close>.\<close>

definition sat16 :: "nat \<Rightarrow> nat \<Rightarrow> nat" where
  "sat16 a b = min (a + b) u16_max"

lemma sat16_le [simp]: "sat16 a b \<le> u16_max"
  by (simp add: sat16_def)

lemma sat16_exact: "a + b \<le> u16_max \<Longrightarrow> sat16 a b = a + b"
  by (simp add: sat16_def)

lemma sat16_commute: "sat16 a b = sat16 b a"
  by (simp add: sat16_def add.commute)

lemma sat16_three: "sat16 (sat16 a 1) b = min (a + 1 + b) u16_max"
  by (auto simp: sat16_def)

lemma sat16_three_Suc: "sat16 (sat16 a (Suc 0)) b = min (Suc (a + b)) u16_max"
  by (auto simp: sat16_def)

lemma foldl_max: "foldl max (a :: nat) xs = Max (set (a # xs))"
proof -
  have "(\<lambda>x s. max s x) = (max :: nat \<Rightarrow> nat \<Rightarrow> nat)" by (intro ext) (rule max.commute)
  then show ?thesis unfolding Max.set_eq_fold by (simp add: foldl_conv_fold)
qed

lemma foldr_max: "foldr max xs (a :: nat) = Max (set (a # xs))"
proof -
  have "foldr max xs a = Max (set (a # rev xs))"
    unfolding Max.set_eq_fold by (simp add: foldr_conv_fold)
  then show ?thesis by simp
qed

text \<open>\<open>abs_diff\<close>, and \<open>Ord::clamp\<close> where the bounds are in order.\<close>

definition abs_diff :: "nat \<Rightarrow> nat \<Rightarrow> nat" where
  "abs_diff a b = (if a < b then b - a else a - b)"

definition clamp_between :: "nat \<Rightarrow> nat \<Rightarrow> nat \<Rightarrow> nat" where
  "clamp_between lo hi n = (if n < lo then lo else if hi < n then hi else n)"

lemma clamp_between_bounds:
  "lo \<le> hi \<Longrightarrow> lo \<le> clamp_between lo hi n \<and> clamp_between lo hi n \<le> hi"
  by (simp add: clamp_between_def)

lemma clamp_between_id: "lo \<le> n \<Longrightarrow> n \<le> hi \<Longrightarrow> clamp_between lo hi n = n"
  by (simp add: clamp_between_def)

text \<open>\<open>u32::checked_add\<close>.\<close>

definition checked_add32 :: "nat \<Rightarrow> nat \<Rightarrow> nat option" where
  "checked_add32 a b = (if a + b \<le> u32_max then Some (a + b) else None)"

section \<open>Lists as vectors and slices\<close>

text \<open>\<open>slice::get\<close>, which is \<open>None\<close> out of range.\<close>

definition get_at :: "'a list \<Rightarrow> nat \<Rightarrow> 'a option" where
  "get_at xs i = (if i < length xs then Some (xs ! i) else None)"

lemma get_at_simps [simp]:
  "get_at [] i = None"
  "get_at (x # xs) 0 = Some x"
  "get_at (x # xs) (Suc i) = get_at xs i"
  by (simp_all add: get_at_def)

lemma get_at_Some_iff: "get_at xs i = Some x \<longleftrightarrow> i < length xs \<and> xs ! i = x"
  by (auto simp: get_at_def)

lemma get_at_None_iff: "get_at xs i = None \<longleftrightarrow> length xs \<le> i"
  by (auto simp: get_at_def)

lemma get_at_append:
  "get_at (xs @ ys) i = (if i < length xs then get_at xs i else get_at ys (i - length xs))"
  by (auto simp: get_at_def nth_append)

lemma get_at_map: "get_at (map f xs) i = map_option f (get_at xs i)"
  by (simp add: get_at_def)

lemma get_at_drop: "x # xs = drop n ys \<Longrightarrow> get_at ys n = Some x \<and> xs = drop (Suc n) ys"
proof (induction n arbitrary: ys)
  case (Suc n)
  then show ?case by (cases ys) auto
qed (auto dest: sym)

text \<open>\<open>Iterator::reduce\<close>.\<close>

fun reduce :: "('a \<Rightarrow> 'a \<Rightarrow> 'a) \<Rightarrow> 'a list \<Rightarrow> 'a option" where
  "reduce f [] = None"
| "reduce f (x # xs) = Some (foldl f x xs)"

text \<open>The first place a predicate holds, as \<open>Iterator::position\<close> gives it.\<close>

fun position :: "('a \<Rightarrow> bool) \<Rightarrow> 'a list \<Rightarrow> nat option" where
  "position p [] = None"
| "position p (x # xs) = (if p x then Some 0 else map_option Suc (position p xs))"

lemma position_Some: "position p xs = Some i \<Longrightarrow> i < length xs \<and> p (xs ! i)"
  by (induction xs arbitrary: i) (auto split: if_splits)

lemma position_None_iff: "position p xs = None \<longleftrightarrow> (\<forall>x \<in> set xs. \<not> p x)"
  by (induction xs) auto

lemma position_first: "position p xs = Some i \<Longrightarrow> j < i \<Longrightarrow> \<not> p (xs ! j)"
  by (induction xs arbitrary: i j) (auto split: if_splits simp: nth_Cons split: nat.splits)

lemma position_append:
  "position p (xs @ ys) =
     (case position p xs of Some n \<Rightarrow> Some n | None \<Rightarrow> map_option (\<lambda>n. length xs + n) (position p ys))"
proof (induction xs)
  case Nil
  then show ?case by (cases "position p ys") auto
next
  case (Cons x xs)
  then show ?case by (cases "position p ys") (auto split: option.splits)
qed

lemma find_Some_in: "List.find P xs = Some y \<Longrightarrow> P y \<and> y \<in> set xs"
  by (induction xs) (auto split: if_splits)

lemma concat_map_upt_split:
  "i < n \<Longrightarrow> concat (map f [i..<n]) = f i @ concat (map f [Suc i..<n])"
  by (simp add: upt_rec)

lemma sum_list_map_rev [simp]:
  "sum_list (map f (rev xs)) = (sum_list (map f xs) :: 'a :: comm_monoid_add)"
  by (metis rev_map sum_list_rev)

lemma sum_list_update_add:
  "i < length xs \<Longrightarrow> sum_list (xs[i := y]) + xs ! i = (sum_list xs + y :: 'a :: comm_monoid_add)"
  by (induction xs arbitrary: i) (auto simp: nth_Cons ac_simps split: nat.splits)

lemma map_unchanged: "(\<And>x. x \<in> set xs \<Longrightarrow> h (g x) = h x) \<Longrightarrow> map (h \<circ> g) xs = map h xs"
  by simp

section \<open>Work-stack loops\<close>

text \<open>
  The layout's trees are as deep as they have panes, so the code walks them
  with a stack of its own.  A loop of that kind takes the top item, carries
  out a step that may change what the loop keeps, and pushes what the item
  leads to.  Where the step's pushes get smaller, the loop is the recursion
  \<open>visit\<close> carried out on each item of the stack in turn.
\<close>

locale worklist =
  fixes step :: "'s \<Rightarrow> 'a \<Rightarrow> 's \<times> 'a list"
    and loop :: "'s \<Rightarrow> 'a list \<Rightarrow> 's"
    and visit :: "'s \<Rightarrow> 'a \<Rightarrow> 's"
    and weight :: "'a \<Rightarrow> nat"
  assumes loop_Nil: "loop s [] = s"
    and loop_Cons: "step s x = (s', ys) \<Longrightarrow> loop s (x # xs) = loop s' (ys @ xs)"
    and visit_step: "step s x = (s', ys) \<Longrightarrow> visit s x = foldl visit s' ys"
    and step_smaller: "step s x = (s', ys) \<Longrightarrow> sum_list (map weight ys) < weight x"
begin

theorem loop_visits: "loop s xs = foldl visit s xs"
proof (induction "sum_list (map weight xs)" arbitrary: s xs rule: less_induct)
  case less
  show ?case
  proof (cases xs)
    case Nil
    then show ?thesis by (simp add: loop_Nil)
  next
    case (Cons x rest)
    obtain s' ys where st: "step s x = (s', ys)" by fastforce
    then have "sum_list (map weight (ys @ rest)) < sum_list (map weight xs)"
      using Cons step_smaller by simp
    then have "loop s' (ys @ rest) = foldl visit s' (ys @ rest)"
      by (rule less)
    then show ?thesis using Cons st by (simp add: loop_Cons visit_step)
  qed
qed

end

end
