(* ===== verification/Layout_Rect.thy ===== *)
theory Layout_Rect
  imports Prelude
begin

text \<open>
  The data of a tab's layout (\<open>fux-wire/src/layout.rs\<close>) apart from its tree:
  axes, sides, what a client is shown of a stack (\<open>shown\<close>), how a split
  divides its room (\<open>shares\<close>), rectangles of cells, separators and the
  placement a tree gets.  A coordinate or length is a u16 of the code: a
  \<open>nat\<close>, its saturating addition \<open>sat16\<close>, its saturating subtraction the
  subtraction of \<open>nat\<close>.
\<close>

type_synonym pane_id = nat
type_synonym client_id = nat

datatype direction = DLeft | DRight | DUp | DDown

datatype axis = Horizontal | Vertical

fun axis_of :: "direction \<Rightarrow> axis" where
  "axis_of DLeft = Horizontal"
| "axis_of DRight = Horizontal"
| "axis_of DUp = Vertical"
| "axis_of DDown = Vertical"

fun other_axis :: "axis \<Rightarrow> axis" where
  "other_axis Horizontal = Vertical"
| "other_axis Vertical = Horizontal"

lemma other_axis_neq [simp]: "other_axis a \<noteq> a" "a \<noteq> other_axis a"
  by (cases a; simp)+

lemma all_axis: "(\<forall>ax. P ax) \<longleftrightarrow> P Horizontal \<and> P Vertical"
  by (metis axis.exhaust)

lemma ex_axis: "(\<exists>ax. P ax) \<longleftrightarrow> P Horizontal \<or> P Vertical"
  by (metis axis.exhaust)

lemma axis_neq_iff: "a \<noteq> b \<longleftrightarrow> a = other_axis b"
  by (cases a; cases b; simp)

datatype side = Before | After

fun side_of :: "direction \<Rightarrow> side" where
  "side_of DLeft = Before"
| "side_of DUp = Before"
| "side_of DRight = After"
| "side_of DDown = After"

fun side_other :: "side \<Rightarrow> side" where
  "side_other Before = After"
| "side_other After = Before"

section \<open>What a client is shown\<close>

record 'i shown =
  current :: 'i
  last_shown :: "'i option"

definition shown_on :: "'i \<Rightarrow> 'i shown" where
  "shown_on i = \<lparr>current = i, last_shown = None\<rparr>"

definition shown_map :: "('i \<Rightarrow> 'j) \<Rightarrow> 'i shown \<Rightarrow> 'j shown" where
  "shown_map f s = \<lparr>current = f (current s), last_shown = map_option f (last_shown s)\<rparr>"

text \<open>\<open>Shown::show\<close>: the new value, and whether it changed.\<close>

definition shown_show :: "'i \<Rightarrow> 'i shown \<Rightarrow> 'i shown \<times> bool" where
  "shown_show i s =
     (let changed = current s \<noteq> i
      in (if changed then \<lparr>current = i, last_shown = Some (current s)\<rparr> else s, changed))"

text \<open>
  \<open>Shown::keep\<close>: \<open>was\<close> the children before a change, \<open>kept\<close> those left,
  \<open>fst_id\<close> the head of them all.  The list is split where the current one
  was; its neighbour is the next one left, else the one before.
\<close>

definition shown_keep :: "'i list \<Rightarrow> ('i \<Rightarrow> bool) \<Rightarrow> 'i option \<Rightarrow> 'i shown \<Rightarrow> 'i shown \<times> bool" where
  "shown_keep was kept fst_id s =
     (let l = (case last_shown s of Some i \<Rightarrow> if kept i then Some i else None | None \<Rightarrow> None);
          s1 = s\<lparr>last_shown := l\<rparr>
      in if kept (current s) then (s1, False)
         else let at = (case position (\<lambda>c. c = current s) was of Some i \<Rightarrow> i | None \<Rightarrow> 0);
                  before = take at was; after = drop at was;
                  nxt = (case l of Some i \<Rightarrow> Some i
                         | None \<Rightarrow> List.find kept (after @ rev before));
                  s2 = s1\<lparr>last_shown := None\<rparr>
              in case (case nxt of Some i \<Rightarrow> Some i | None \<Rightarrow> fst_id) of
                   Some i \<Rightarrow> (s2\<lparr>current := i\<rparr>, True)
                 | None \<Rightarrow> (s2, False))"

lemma shown_map_id [simp]: "shown_map (\<lambda>i. i) s = s"
  by (cases s) (simp add: shown_map_def option.map_ident)

lemma shown_map_comp: "shown_map g (shown_map f s) = shown_map (\<lambda>i. g (f i)) s"
  by (simp add: shown_map_def option.map_comp comp_def)

lemma shown_show_current [simp]: "current (fst (shown_show i s)) = i"
  by (simp add: shown_show_def Let_def)

lemma shown_keep_kept:
  "kept (current s) \<Longrightarrow> current (fst (shown_keep was kept f s)) = current s"
  by (simp add: shown_keep_def Let_def)

lemma shown_keep_current:
  assumes "find_in = was" "x \<in> set was" "kept x"
  shows "kept (current (fst (shown_keep was kept f s)))"
proof (cases "kept (current s)")
  case True
  then show ?thesis by (simp add: shown_keep_kept)
next
  case False
  let ?at = "case position (\<lambda>c. c = current s) was of Some i \<Rightarrow> i | None \<Rightarrow> 0"
  let ?near = "drop ?at was @ rev (take ?at was)"
  have "set ?near = set was"
    by (metis append_take_drop_id set_append set_rev sup_commute)
  with assms obtain y where y: "List.find kept ?near = Some y"
    by (metis find_None_iff option.exhaust)
  then have "kept y" by (auto simp: find_Some_iff)
  with False y show ?thesis
    by (auto simp: shown_keep_def Let_def split: option.splits if_splits)
qed

section \<open>Shares\<close>

datatype shares = Shares nat nat

text \<open>Euclid's loop: \<open>checked_rem\<close> is \<open>None\<close> for a divisor of 0.\<close>

fun gcd32 :: "nat \<Rightarrow> nat \<Rightarrow> nat" where
  "gcd32 a b = (if b = 0 then a else gcd32 b (a mod b))"

declare gcd32.simps [simp del]

lemma gcd32_gcd: "gcd32 a b = gcd a b"
proof (induction a b rule: gcd32.induct)
  case (1 a b)
  show ?case
  proof (cases "b = 0")
    case True
    then show ?thesis by (simp add: gcd32.simps [of a 0])
  next
    case False
    then show ?thesis
      using 1 gcd_red_nat [of a b] by (simp add: gcd32.simps [of a b])
  qed
qed

text \<open>Shares are non-zero (\<open>NonZeroU32\<close>): \<open>least\<close> keeps them so.\<close>

definition shares_least :: "nat \<Rightarrow> nat \<Rightarrow> nat \<Rightarrow> nat" where
  "shares_least a b n =
     (let g = gcd32 a b; q = (if g = 0 then 1 else n div g) in if q = 0 then 1 else q)"

definition shares_new :: "nat \<Rightarrow> nat \<Rightarrow> shares" where
  "shares_new a b = Shares (shares_least a b a) (shares_least a b b)"

definition HALVED :: shares where
  "HALVED = Shares 1 1"

definition shares_of :: "nat \<Rightarrow> nat \<Rightarrow> shares" where
  "shares_of a b = shares_new (if a = 0 then 1 else a) (if b = 0 then 1 else b)"

fun shares_get :: "shares \<Rightarrow> nat \<times> nat" where
  "shares_get (Shares a b) = (a, b)"

fun shares_swapped :: "shares \<Rightarrow> shares" where
  "shares_swapped (Shares a b) = Shares b a"

text \<open>What the type promises of a value: both non-zero u32s.\<close>

fun shares_ok :: "shares \<Rightarrow> bool" where
  "shares_ok (Shares a b) = (0 < a \<and> 0 < b \<and> a \<le> u32_max \<and> b \<le> u32_max)"

lemma shares_new_eq:
  assumes "0 < a" "0 < b"
  shows "shares_new a b = Shares (a div gcd a b) (b div gcd a b)"
proof -
  have "0 < a div gcd a b" "0 < b div gcd a b"
    using assms by (simp_all add: div_greater_zero_iff)
  then show ?thesis
    using assms by (simp add: shares_new_def shares_least_def gcd32_gcd Let_def)
qed

lemma shares_new_ok:
  assumes "0 < a" "0 < b" "a \<le> u32_max" "b \<le> u32_max"
  shows "shares_ok (shares_new a b)"
  using assms
  by (simp add: shares_new_eq div_greater_zero_iff) (meson div_le_dividend le_trans)

lemma shares_of_ok: "a \<le> u16_max \<Longrightarrow> b \<le> u16_max \<Longrightarrow> shares_ok (shares_of a b)"
  by (auto simp: shares_of_def u16_max_def u32_max_def intro!: shares_new_ok)

lemma shares_swapped_ok [simp]: "shares_ok (shares_swapped s) = shares_ok s"
  by (cases s) auto

lemma HALVED_ok [simp]: "shares_ok HALVED"
  by (simp add: HALVED_def u32_max_def)

section \<open>Rectangles\<close>

definition MIN_LEN :: nat where
  "MIN_LEN = 2"

record rect =
  rx :: nat
  ry :: nat
  rw :: nat
  rh :: nat

definition rect_default :: rect where
  "rect_default = \<lparr>rx = 0, ry = 0, rw = 0, rh = 0\<rparr>"

definition rect_screen :: "nat \<Rightarrow> nat \<Rightarrow> rect" where
  "rect_screen rows cols = \<lparr>rx = 0, ry = 0, rw = cols, rh = rows\<rparr>"

definition rect_right :: "rect \<Rightarrow> nat" where
  "rect_right r = sat16 (rx r) (rw r)"

definition rect_bottom :: "rect \<Rightarrow> nat" where
  "rect_bottom r = sat16 (ry r) (rh r)"

definition rect_is_empty :: "rect \<Rightarrow> bool" where
  "rect_is_empty r \<longleftrightarrow> rw r = 0 \<or> rh r = 0"

text \<open>Exact in a u32, so the saturation of the code is never met.\<close>

definition rect_area :: "rect \<Rightarrow> nat" where
  "rect_area r = min (rw r * rh r) u32_max"

definition rect_rows :: "rect \<Rightarrow> nat list" where
  "rect_rows r = [ry r..<rect_bottom r]"

definition rect_cols :: "rect \<Rightarrow> nat list" where
  "rect_cols r = [rx r..<rect_right r]"

definition rect_lines :: "rect \<Rightarrow> rect list" where
  "rect_lines r = map (\<lambda>yy. r\<lparr>ry := yy, rh := 1\<rparr>) (rect_rows r)"

definition rect_at :: "rect \<Rightarrow> nat \<Rightarrow> nat \<Rightarrow> (nat \<times> nat) option" where
  "rect_at r yy xx =
     (if yy < rh r \<and> xx < rw r then Some (sat16 (ry r) yy, sat16 (rx r) xx) else None)"

definition rect_contains :: "rect \<Rightarrow> nat \<Rightarrow> nat \<Rightarrow> bool" where
  "rect_contains r yy xx \<longleftrightarrow>
     ry r \<le> yy \<and> yy < rect_bottom r \<and> rx r \<le> xx \<and> xx < rect_right r"

definition rect_near :: "rect \<Rightarrow> nat \<Rightarrow> nat \<Rightarrow> bool" where
  "rect_near r yy xx \<longleftrightarrow>
     ry r \<le> sat16 yy 1 \<and> yy \<le> rect_bottom r \<and> rx r \<le> sat16 xx 1 \<and> xx \<le> rect_right r"

definition rect_clamp :: "rect \<Rightarrow> nat \<Rightarrow> nat \<Rightarrow> nat \<times> nat" where
  "rect_clamp r yy xx =
     (let inside = (\<lambda>at start len. min (at - start) (len - 1))
      in (inside yy (ry r) (rh r), inside xx (rx r) (rw r)))"

fun rect_len :: "rect \<Rightarrow> axis \<Rightarrow> nat" where
  "rect_len r Horizontal = rw r"
| "rect_len r Vertical = rh r"

fun rect_start :: "rect \<Rightarrow> axis \<Rightarrow> nat" where
  "rect_start r Horizontal = rx r"
| "rect_start r Vertical = ry r"

fun rect_along :: "rect \<Rightarrow> axis \<Rightarrow> nat \<Rightarrow> nat \<Rightarrow> rect" where
  "rect_along r Horizontal start len = r\<lparr>rx := start, rw := len\<rparr>"
| "rect_along r Vertical start len = r\<lparr>ry := start, rh := len\<rparr>"

definition rect_split :: "rect \<Rightarrow> axis \<Rightarrow> nat \<Rightarrow> rect \<times> rect" where
  "rect_split r ax n =
     (let start = rect_start r ax; all = rect_len r ax; len = min n all;
          rest = rect_along r ax (sat16 start len) (all - len)
      in (rect_along r ax start len, rest))"

definition rect_corner :: "rect \<Rightarrow> nat \<Rightarrow> nat \<Rightarrow> rect" where
  "rect_corner r hh ww =
     (let h' = min hh (rh r); w' = min ww (rw r)
      in \<lparr>rx = rect_right r - w', ry = rect_bottom r - h', rw = w', rh = h'\<rparr>)"

definition rect_centre2 :: "rect \<Rightarrow> nat \<times> nat" where
  "rect_centre2 r = (rx r + rect_right r, ry r + rect_bottom r)"

text \<open>The promise of the type: its right and bottom edges are within a u16.\<close>

definition rect_ok :: "rect \<Rightarrow> bool" where
  "rect_ok r \<longleftrightarrow> rx r + rw r \<le> u16_max \<and> ry r + rh r \<le> u16_max"

text \<open>The cells of a rectangle, as positions \<open>(y, x)\<close> on the screen.\<close>

definition cells :: "rect \<Rightarrow> (nat \<times> nat) set" where
  "cells r = {(yy, xx). ry r \<le> yy \<and> yy < ry r + rh r \<and> rx r \<le> xx \<and> xx < rx r + rw r}"

lemma rect_len_along [simp]: "rect_len (rect_along r ax s n) ax = n"
  by (cases ax) simp_all

lemma rect_len_along_other [simp]: "b \<noteq> ax \<Longrightarrow> rect_len (rect_along r ax s n) b = rect_len r b"
  by (cases ax; cases b) simp_all

lemma rect_start_along [simp]: "rect_start (rect_along r ax s n) ax = s"
  by (cases ax) simp_all

lemma rect_start_along_other [simp]:
  "b \<noteq> ax \<Longrightarrow> rect_start (rect_along r ax s n) b = rect_start r b"
  by (cases ax; cases b) simp_all

lemma rect_along_along [simp]: "rect_along (rect_along r ax s n) ax s' n' = rect_along r ax s' n'"
  by (cases ax) simp_all

lemma rect_along_id [simp]: "rect_along r ax (rect_start r ax) (rect_len r ax) = r"
  by (cases ax) simp_all

lemma rect_ok_start_len: "rect_ok r \<longleftrightarrow> (\<forall>ax. rect_start r ax + rect_len r ax \<le> u16_max)"
  by (simp add: rect_ok_def all_axis)

lemma rect_ok_len: "rect_ok r \<Longrightarrow> rect_len r ax \<le> u16_max"
  by (meson add_leD2 rect_ok_start_len)

lemma rect_is_empty_iff: "rect_is_empty r \<longleftrightarrow> (\<exists>ax. rect_len r ax = 0)"
  by (simp add: rect_is_empty_def ex_axis)

lemma rect_is_empty_cells: "rect_is_empty r \<longleftrightarrow> cells r = {}"
proof
  assume "cells r = {}"
  then have "(ry r, rx r) \<notin> cells r" by simp
  then show "rect_is_empty r" by (auto simp: cells_def rect_is_empty_def)
qed (auto simp: cells_def rect_is_empty_def)

lemma rect_split_eq:
  "rect_ok r \<Longrightarrow> n \<le> rect_len r ax \<Longrightarrow>
   rect_split r ax n =
     (rect_along r ax (rect_start r ax) n,
      rect_along r ax (rect_start r ax + n) (rect_len r ax - n))"
  by (simp add: rect_split_def Let_def min_absorb1)
    (metis add_left_mono le_trans rect_ok_start_len sat16_exact)

lemma rect_along_ok:
  "rect_ok r \<Longrightarrow> s + n \<le> u16_max \<Longrightarrow> rect_ok (rect_along r ax s n)"
  by (cases ax) (simp_all add: rect_ok_def)

lemma rect_contains_cells: "rect_ok r \<Longrightarrow> rect_contains r yy xx \<longleftrightarrow> (yy, xx) \<in> cells r"
  by (auto simp: rect_contains_def cells_def rect_right_def rect_bottom_def sat16_def rect_ok_def)

end
