(* ===== verification/Layout_Tree.thy ===== *)
theory Layout_Tree
  imports Layout_Rect
begin

text \<open>
  A tab's layout tree (\<open>Tree\<close>, \<open>Split\<close>, \<open>Stack\<close> and \<open>Walk\<close> of
  \<open>fux-wire/src/layout.rs\<close>): its nodes, the walk over them with a stack of
  its own, the way from the root to a pane, the loops over a work stack
  (\<open>contains\<close>, \<open>clone\<close>), and what each client is shown.  The specifications
  beside them are structural recursions: \<open>preorder\<close> for the walk, \<open>way_to\<close>
  for the way, \<open>leaves\<close> for the panes.
\<close>

datatype tree =
    Pane pane_id
  | Split axis shares tree tree
  | Stack tree "tree list" "client_id \<rightharpoonup> nat shown"

section \<open>Nodes and children\<close>

fun pane_of :: "tree \<Rightarrow> pane_id option" where
  "pane_of (Pane p) = Some p"
| "pane_of (Split _ _ _ _) = None"
| "pane_of (Stack _ _ _) = None"

text \<open>\<open>Stack::shown\<close> and \<open>Stack::current\<close>.\<close>

definition stack_shown :: "client_id \<Rightarrow> (client_id \<rightharpoonup> nat shown) \<Rightarrow> nat shown" where
  "stack_shown c sh = (case sh c of Some s \<Rightarrow> s | None \<Rightarrow> shown_on 0)"

definition stack_current :: "client_id \<Rightarrow> tree \<Rightarrow> tree list \<Rightarrow> (client_id \<rightharpoonup> nat shown) \<Rightarrow> tree" where
  "stack_current c f r sh =
     (case get_at (f # r) (current (stack_shown c sh)) of Some t \<Rightarrow> t | None \<Rightarrow> f)"

text \<open>\<open>Tree::child\<close>: with a client, a stack has one child, the one it is shown.\<close>

fun child :: "tree \<Rightarrow> nat \<Rightarrow> client_id option \<Rightarrow> tree option" where
  "child (Pane _) i _ = None"
| "child (Split _ _ a b) i _ = get_at [a, b] i"
| "child (Stack f r sh) i (Some c) = (if i = 0 then Some (stack_current c f r sh) else None)"
| "child (Stack f r _) i None = (case i of 0 \<Rightarrow> Some f | Suc k \<Rightarrow> get_at r k)"

text \<open>The children in order; \<open>kids\<close> those a walk for a client meets.\<close>

fun children :: "tree \<Rightarrow> tree list" where
  "children (Pane _) = []"
| "children (Split _ _ a b) = [a, b]"
| "children (Stack f r _) = f # r"

fun kids :: "client_id option \<Rightarrow> tree \<Rightarrow> tree list" where
  "kids (Some c) (Stack f r sh) = [stack_current c f r sh]"
| "kids _ t = children t"

lemma kids_None [simp]: "kids None t = children t"
  by (cases t) auto

lemma child_kids: "child t i c = get_at (kids c t) i"
  by (cases t; cases c; cases i) (auto simp: get_at_def)

lemma child_children: "child t i None = get_at (children t) i"
  by (simp add: child_kids)

lemma pane_of_None_iff: "pane_of t = None \<longleftrightarrow> children t \<noteq> []"
  by (cases t) auto

lemma pane_of_Some_iff [simp]: "pane_of t = Some p \<longleftrightarrow> t = Pane p"
  by (cases t) auto

lemma kids_Pane [simp]: "kids c (Pane p) = []"
  by (cases c) auto

lemma kids_Split [simp]: "kids c (Split ax s a b) = [a, b]"
  by (cases c) auto

fun tree_nodes :: "tree \<Rightarrow> nat" where
  "tree_nodes (Pane _) = 1"
| "tree_nodes (Split _ _ a b) = Suc (tree_nodes a + tree_nodes b)"
| "tree_nodes (Stack f r _) = Suc (tree_nodes f + sum_list (map tree_nodes r))"

lemma tree_nodes_eq: "tree_nodes t = Suc (sum_list (map tree_nodes (children t)))"
  by (cases t) auto

lemma tree_nodes_pos [simp]: "0 < tree_nodes t"
  by (cases t) auto

lemma stack_current_in: "stack_current c f r sh \<in> set (f # r)"
proof (cases "get_at (f # r) (current (stack_shown c sh))")
  case (Some t)
  then have "t \<in> set (f # r)" unfolding get_at_Some_iff using nth_mem by blast
  with Some show ?thesis by (simp add: stack_current_def)
next
  case None
  then have "stack_current c f r sh = f" by (simp only: stack_current_def option.case)
  then show ?thesis by simp
qed

lemma kids_subset: "set (kids c t) \<subseteq> set (children t)"
  by (cases t; cases c) (use stack_current_in in auto)

lemma sum_kids_less: "sum_list (map tree_nodes (kids c t)) < tree_nodes t"
proof (cases "\<exists>k f r sh. c = Some k \<and> t = Stack f r sh")
  case True
  then obtain k f r sh where eq: "c = Some k" "t = Stack f r sh" by auto
  have "tree_nodes (stack_current k f r sh) \<le> sum_list (map tree_nodes (f # r))"
    using stack_current_in [of k f r sh] by (intro member_le_sum_list) auto
  then show ?thesis by (simp add: eq)
next
  case False
  then have "kids c t = children t" by (cases t; cases c) auto
  then show ?thesis by (simp add: tree_nodes_eq [of t])
qed

lemma child_nodes_less: "k \<in> set (kids c t) \<Longrightarrow> tree_nodes k < tree_nodes t"
  using sum_kids_less [of c t] member_le_sum_list [of "tree_nodes k" "map tree_nodes (kids c t)"]
  by auto

lemma children_nodes_less: "k \<in> set (children t) \<Longrightarrow> tree_nodes k < tree_nodes t"
  using child_nodes_less [of k None t] by simp

lemma tree_children_induct [case_names node]:
  assumes "\<And>t. (\<And>k. k \<in> set (children t) \<Longrightarrow> P k) \<Longrightarrow> P t"
  shows "P t"
  by (induction "tree_nodes t" arbitrary: t rule: less_induct)
    (blast intro: assms children_nodes_less)

section \<open>The walk\<close>

text \<open>
  \<open>Walk\<close>: the root until it is met, then each node with children from the
  last met up to the root (the top of the code's vector first), with how
  many of its children have been met.
\<close>

record walk =
  root :: "tree option"
  down :: "(tree \<times> nat) list"
  client :: "client_id option"

fun descend :: "(tree \<times> nat) list \<Rightarrow> client_id option \<Rightarrow> (tree \<times> (tree \<times> nat) list) option" where
  "descend [] c = None"
| "descend ((t, met) # dn) c =
     (case child t met c of
        Some k \<Rightarrow> Some (k, (t, Suc met) # dn)
      | None \<Rightarrow> descend dn c)"

definition meet :: "tree \<Rightarrow> (tree \<times> nat) list \<Rightarrow> (tree \<times> nat) list" where
  "meet t dn = (if pane_of t = None then (t, 0) # dn else dn)"

definition walk_next :: "walk \<Rightarrow> (tree \<times> walk) option" where
  "walk_next w =
     (case root w of
        Some t \<Rightarrow> Some (t, w\<lparr>root := None, down := meet t (down w)\<rparr>)
      | None \<Rightarrow>
          (case descend (down w) (client w) of
             None \<Rightarrow> None
           | Some (k, dn) \<Rightarrow> Some (k, w\<lparr>down := meet k dn\<rparr>)))"

definition walk_of :: "tree \<Rightarrow> client_id option \<Rightarrow> walk" where
  "walk_of t c = \<lparr>root = Some t, down = [], client = c\<rparr>"

text \<open>What is still to be met, counted: it gets smaller at each step.\<close>

fun down_left :: "client_id option \<Rightarrow> (tree \<times> nat) list \<Rightarrow> nat" where
  "down_left c [] = 0"
| "down_left c ((t, met) # dn) =
     sum_list (map tree_nodes (drop met (kids c t))) + down_left c dn"

definition walk_left :: "walk \<Rightarrow> nat" where
  "walk_left w =
     (case root w of Some t \<Rightarrow> tree_nodes t | None \<Rightarrow> 0) + down_left (client w) (down w)"

lemma drop_child: "child t i c = Some k \<Longrightarrow> drop i (kids c t) = k # drop (Suc i) (kids c t)"
  by (auto simp: child_kids get_at_Some_iff Cons_nth_drop_Suc)

lemma descend_left:
  "descend dn c = Some (k, dn') \<Longrightarrow> down_left c dn' + tree_nodes k = down_left c dn"
  by (induction dn c rule: descend.induct)
    (auto simp: drop_child child_kids get_at_None_iff split: option.splits)

lemma meet_left: "down_left c (meet t dn) < tree_nodes t + down_left c dn"
proof (cases "pane_of t")
  case None
  then show ?thesis using sum_kids_less [of c t] by (simp add: meet_def)
qed (simp add: meet_def)

lemma walk_next_left: "walk_next w = Some (t, w') \<Longrightarrow> walk_left w' < walk_left w"
  using meet_left [of "client w" t "down w"]
  by (auto simp: walk_next_def walk_left_def dest!: descend_left split: option.splits)
    (metis add.commute meet_left)

function walk_run :: "walk \<Rightarrow> (tree \<times> walk) list" where
  "walk_run w = (case walk_next w of None \<Rightarrow> [] | Some (t, w') \<Rightarrow> (t, w') # walk_run w')"
  by pat_completeness auto
termination
  by (relation "measure walk_left") (auto simp: walk_next_left)

declare walk_run.simps [simp del]

definition walk_items :: "client_id option \<Rightarrow> tree \<Rightarrow> tree list" where
  "walk_items c t = map fst (walk_run (walk_of t c))"

text \<open>The specification: a structural preorder.\<close>

function preorder :: "client_id option \<Rightarrow> tree \<Rightarrow> tree list" where
  "preorder c t = t # concat (map (preorder c) (kids c t))"
  by pat_completeness auto
termination
  by (relation "measure (\<lambda>(c, t). tree_nodes t)") (auto simp: child_nodes_less)

declare preorder.simps [simp del]

text \<open>
  Each node with the stack the walk has after meeting it, and all that a
  stack leads to.
\<close>

function visits :: "client_id option \<Rightarrow> (tree \<times> nat) list \<Rightarrow> tree \<Rightarrow> (tree \<times> (tree \<times> nat) list) list" where
  "visits c dn t =
     (t, meet t dn) # concat (map (\<lambda>(i, k). visits c ((t, Suc i) # dn) k) (enumerate 0 (kids c t)))"
  by pat_completeness auto
termination
  by (relation "measure (\<lambda>(c, dn, t). tree_nodes t)")
    (auto simp: in_set_enumerate_eq intro: child_nodes_less [OF nth_mem])

declare visits.simps [simp del]

fun visits_down :: "client_id option \<Rightarrow> (tree \<times> nat) list \<Rightarrow> (tree \<times> (tree \<times> nat) list) list" where
  "visits_down c [] = []"
| "visits_down c ((t, met) # dn) =
     concat (map (\<lambda>(i, k). visits c ((t, Suc i) # dn) k) (drop met (enumerate 0 (kids c t))))
     @ visits_down c dn"

lemma drop_enumerate: "drop m (enumerate n xs) = enumerate (n + m) (drop m xs)"
  by (induction xs arbitrary: m n) (auto simp: drop_Cons split: nat.splits)

lemma visits_meet: "visits c dn t @ visits_down c dn = (t, meet t dn) # visits_down c (meet t dn)"
proof (cases "pane_of t")
  case None
  then show ?thesis by (simp add: visits.simps [of c dn t] meet_def)
next
  case (Some p)
  then show ?thesis by (simp add: visits.simps [of c dn "Pane p"] meet_def)
qed

lemma descend_visits:
  "(case descend dn c of None \<Rightarrow> [] | Some (k, dn') \<Rightarrow> visits c dn' k @ visits_down c dn')
   = visits_down c dn"
  by (induction dn c rule: descend.induct)
    (auto simp: drop_child child_kids drop_enumerate get_at_None_iff split: option.splits)

lemma walk_run_visits:
  "map (\<lambda>(t, w'). (t, down w')) (walk_run w) =
     (case root w of Some t \<Rightarrow> visits (client w) (down w) t | None \<Rightarrow> [])
     @ visits_down (client w) (down w)"
proof (induction w rule: walk_run.induct)
  case (1 w)
  show ?case
  proof (cases "walk_next w")
    case None
    then show ?thesis
      using descend_visits [where dn = "down w" and c = "client w"]
      by (auto simp: walk_run.simps [of w] walk_next_def split: option.splits)
  next
    case (Some p)
    obtain t w' where p: "p = (t, w')" by (cases p)
    have IH: "map (\<lambda>(t, w'). (t, down w')) (walk_run w') = visits_down (client w') (down w')"
      using 1 [OF Some p [symmetric]] Some p by (auto simp: walk_next_def split: option.splits)
    show ?thesis
      using Some p IH descend_visits [where dn = "down w" and c = "client w"]
      by (auto simp: walk_run.simps [of w] walk_next_def visits_meet split: option.splits)
  qed
qed

lemma visits_fst: "map fst (visits c dn t) = preorder c t"
proof (induction c dn t rule: visits.induct)
  case (1 c dn t)
  then have "map (\<lambda>(i, k). map fst (visits c ((t, Suc i) # dn) k)) (enumerate 0 (kids c t))
      = map (\<lambda>(i, k). preorder c k) (enumerate 0 (kids c t))"
    by (intro map_cong) auto
  also have "\<dots> = map (preorder c) (map snd (enumerate 0 (kids c t)))"
    by (simp only: map_map comp_def case_prod_unfold)
  also have "\<dots> = map (preorder c) (kids c t)" by simp
  finally show ?case
    by (simp add: visits.simps [of c dn t] preorder.simps [of c t] map_concat comp_def
        case_prod_unfold)
qed

text \<open>The walk with its own stack meets the nodes of the structural preorder.\<close>

lemma walk_items_preorder: "walk_items c t = preorder c t"
proof -
  have "walk_items c t = map fst (map (\<lambda>(t, w'). (t, down w')) (walk_run (walk_of t c)))"
    by (simp add: walk_items_def comp_def case_prod_unfold)
  also have "\<dots> = map fst (visits c [] t)"
    by (simp only: walk_run_visits) (simp add: walk_of_def)
  finally show ?thesis by (simp add: visits_fst)
qed

section \<open>Panes, and the way to one\<close>

definition panes :: "tree \<Rightarrow> pane_id list" where
  "panes t = List.map_filter pane_of (walk_items None t)"

definition shown_panes :: "client_id \<Rightarrow> tree \<Rightarrow> pane_id list" where
  "shown_panes c t = List.map_filter pane_of (walk_items (Some c) t)"

text \<open>
  \<open>Tree::down_to\<close>: the walk to the first leaf that is the pane, then the
  nodes it went through from the root, each with the child it went into.
\<close>

definition down_to :: "tree \<Rightarrow> pane_id \<Rightarrow> (tree \<times> nat) list option" where
  "down_to t p =
     map_option (\<lambda>(_, w). map (\<lambda>(k, met). (k, met - 1)) (rev (down w)))
       (List.find (\<lambda>(k, _). pane_of k = Some p) (walk_run (walk_of t None)))"

definition way :: "tree \<Rightarrow> pane_id \<Rightarrow> nat list option" where
  "way t p = map_option (map snd) (down_to t p)"

text \<open>The panes as a structural recursion.\<close>

fun leaves :: "tree \<Rightarrow> pane_id list" where
  "leaves (Pane p) = [p]"
| "leaves (Split _ _ a b) = leaves a @ leaves b"
| "leaves (Stack f r _) = leaves f @ concat (map leaves r)"

function shown_leaves :: "client_id option \<Rightarrow> tree \<Rightarrow> pane_id list" where
  "shown_leaves c t =
     (case pane_of t of Some p \<Rightarrow> [p] | None \<Rightarrow> concat (map (shown_leaves c) (kids c t)))"
  by pat_completeness auto
termination
  by (relation "measure (\<lambda>(c, t). tree_nodes t)") (auto simp: child_nodes_less)

declare shown_leaves.simps [simp del]

lemma leaves_children: "leaves t = (case pane_of t of Some p \<Rightarrow> [p] | None \<Rightarrow> concat (map leaves (children t)))"
  by (cases t) auto

lemma leaves_nonempty [simp]: "leaves t \<noteq> []"
  by (induction t) auto

lemma map_filter_concat:
  "List.map_filter f (concat xss) = concat (map (List.map_filter f) xss)"
  by (induction xss) (auto simp: List.map_filter_def)

lemma map_filter_Cons:
  "List.map_filter f (x # xs) = (case f x of Some y \<Rightarrow> [y] | None \<Rightarrow> []) @ List.map_filter f xs"
  by (auto simp: List.map_filter_def split: option.splits)

lemma preorder_shown_leaves: "List.map_filter pane_of (preorder c t) = shown_leaves c t"
proof (induction c t rule: preorder.induct)
  case (1 c t)
  then have eq: "map (\<lambda>k. List.map_filter pane_of (preorder c k)) (kids c t) = map (shown_leaves c) (kids c t)"
    by (intro map_cong) auto
  have "List.map_filter pane_of (preorder c t)
      = (case pane_of t of Some p \<Rightarrow> [p] | None \<Rightarrow> [])
        @ concat (map (\<lambda>k. List.map_filter pane_of (preorder c k)) (kids c t))"
    by (simp add: preorder.simps [of c t] map_filter_Cons map_filter_concat comp_def split: option.splits)
  also have "\<dots> = shown_leaves c t"
  proof (cases "pane_of t")
    case None
    then show ?thesis by (simp only: eq shown_leaves.simps [of c t] option.case append_Nil)
  next
    case (Some p)
    then show ?thesis by (simp add: shown_leaves.simps [of c "Pane p"])
  qed
  finally show ?case .
qed

lemma shown_leaves_all: "shown_leaves None t = leaves t"
proof (induction t rule: tree_children_induct)
  case (node t)
  then have "map (shown_leaves None) (children t) = map leaves (children t)"
    by (intro map_cong) auto
  then show ?case
    by (simp only: shown_leaves.simps [of None t] leaves_children [of t] kids_None)
qed

lemma panes_leaves [simp]: "panes t = leaves t"
  by (simp add: panes_def walk_items_preorder preorder_shown_leaves shown_leaves_all)

lemma shown_panes_leaves: "shown_panes c t = shown_leaves (Some c) t"
  by (simp add: shown_panes_def walk_items_preorder preorder_shown_leaves)

text \<open>The way as a structural recursion: the first child that holds the pane.\<close>

fun first_way :: "nat \<Rightarrow> nat list option list \<Rightarrow> nat list option" where
  "first_way i [] = None"
| "first_way i (Some w # _) = Some (i # w)"
| "first_way i (None # ws) = first_way (Suc i) ws"

fun way_to :: "pane_id \<Rightarrow> tree \<Rightarrow> nat list option" where
  "way_to p (Pane q) = (if q = p then Some [] else None)"
| "way_to p (Split _ _ a b) = first_way 0 [way_to p a, way_to p b]"
| "way_to p (Stack f r _) = first_way 0 (way_to p f # map (way_to p) r)"

lemma way_to_children:
  "way_to p t = (if t = Pane p then Some [] else first_way 0 (map (way_to p) (children t)))"
  by (cases t) auto

lemma first_way_find:
  "first_way n (map g xs) =
     map_option (\<lambda>(i, k). i # the (g k)) (List.find (\<lambda>(i, k). g k \<noteq> None) (enumerate n xs))"
  by (induction xs arbitrary: n) (auto split: option.splits)

lemma find_append:
  "List.find P (xs @ ys) = (case List.find P xs of Some x \<Rightarrow> Some x | None \<Rightarrow> List.find P ys)"
  by (induction xs) auto

text \<open>
  The stack a walk has when it meets the pane has the nodes gone into on the
  way to it: each one's count of children met is one past the child gone into.
\<close>

definition gone :: "(tree \<times> nat) list \<Rightarrow> (tree \<times> nat) list" where
  "gone dn = map (\<lambda>(k, met). (k, met - 1)) (rev dn)"

fun nodes_along :: "tree \<Rightarrow> nat list \<Rightarrow> (tree \<times> nat) list" where
  "nodes_along t [] = []"
| "nodes_along t (i # w) =
     (t, i) # (case get_at (children t) i of None \<Rightarrow> [] | Some k \<Rightarrow> nodes_along k w)"

lemma gone_Nil [simp]: "gone [] = []"
  by (simp add: gone_def)

lemma find_visits:
  "map_option (\<lambda>(_, d). gone d) (List.find (\<lambda>(k, _). pane_of k = Some p) (visits None dn t)) =
   map_option (\<lambda>w. gone dn @ nodes_along t w) (way_to p t)"
proof (induction t arbitrary: dn rule: tree_children_induct)
  case (node t)
  let ?find = "List.find (\<lambda>(k, _). pane_of k = Some p)"
  let ?sp = "map_option (\<lambda>(_, d). gone d)"
  show ?case
  proof (cases "t = Pane p")
    case True
    then show ?thesis by (simp add: visits.simps [of None dn "Pane p"] meet_def)
  next
    case False
    have "?sp (?find (concat (map (\<lambda>(i, k). visits None ((t, Suc i) # dn) k) (enumerate n ks))))
        = map_option (\<lambda>w. gone dn @ nodes_along t w) (first_way n (map (way_to p) ks))"
      if "ks = drop n (children t)" for n ks
      using that
    proof (induction ks arbitrary: n)
      case Nil
      then show ?case by simp
    next
      case (Cons k ks)
      then have n: "get_at (children t) n = Some k" "ks = drop (Suc n) (children t)"
        using get_at_drop [of k ks n "children t"] by auto
      then have mem: "k \<in> set (children t)" by (auto simp: get_at_Some_iff)
      have k: "?sp (?find (visits None ((t, Suc n) # dn) k))
          = map_option (\<lambda>w. gone dn @ nodes_along t (n # w)) (way_to p k)"
        using node [OF mem, of "(t, Suc n) # dn"] n(1) by (simp add: gone_def)
      show ?case
        using k Cons.IH [OF n(2)]
        by (cases "way_to p k"; cases "?find (visits None ((t, Suc n) # dn) k)")
          (auto simp add: find_append)
    qed
    from this [of "children t" 0] show ?thesis
      using False by (simp add: visits.simps [of None dn t] way_to_children [of p t])
  qed
qed

lemma find_map_conv:
  "List.find P (map g xs) = map_option g (List.find (\<lambda>x. P (g x)) xs)"
  by (induction xs) auto

lemma down_to_along: "down_to t p = map_option (nodes_along t) (way_to p t)"
proof -
  have "map (\<lambda>(t, w'). (t, down w')) (walk_run (walk_of t None)) = visits None [] t"
    by (simp only: walk_run_visits) (simp add: walk_of_def)
  then have "List.find (\<lambda>(k, _). pane_of k = Some p) (visits None [] t)
      = map_option (\<lambda>(k, w). (k, down w))
        (List.find (\<lambda>(k, _). pane_of k = Some p) (walk_run (walk_of t None)))"
    by (simp add: find_map_conv case_prod_unfold
        flip: \<open>map (\<lambda>(t, w'). (t, down w')) _ = _\<close>)
  then have "down_to t p = map_option (\<lambda>(_, d). gone d)
      (List.find (\<lambda>(k, _). pane_of k = Some p) (visits None [] t))"
    by (simp add: down_to_def option.map_comp comp_def gone_def case_prod_unfold)
  then show ?thesis by (simp only: find_visits gone_Nil append_Nil)
qed

lemma first_way_Some:
  "first_way n ws = Some w \<longleftrightarrow>
   (\<exists>i v. w = (n + i) # v \<and> i < length ws \<and> ws ! i = Some v \<and> (\<forall>j < i. ws ! j = None))"
proof (induction n ws arbitrary: w rule: first_way.induct)
  case (1 n)
  then show ?case by simp
next
  case (2 n v ws)
  show ?case by (auto simp: nth_Cons' split: if_splits)
next
  case (3 n ws)
  have "(\<exists>i v. w = (n + i) # v \<and> i < length (None # ws) \<and> (None # ws) ! i = Some v \<and> (\<forall>j<i. (None # ws) ! j = None))
      \<longleftrightarrow> (\<exists>i v. w = (n + Suc i) # v \<and> i < length ws \<and> ws ! i = Some v \<and> (\<forall>j<i. ws ! j = None))"
    (is "(\<exists>i. ?P i) \<longleftrightarrow> (\<exists>i. ?Q i)")
  proof
    assume "\<exists>i. ?P i"
    then obtain i where "?P i" by blast
    then show "\<exists>i. ?Q i"
      by (cases i) (auto simp: All_less_Suc2)
  next
    assume "\<exists>i. ?Q i"
    then obtain i where "?Q i" by blast
    then have "?P (Suc i)" by (auto simp: nth_Cons split: nat.splits)
    then show "\<exists>i. ?P i" by blast
  qed
  then show ?case using 3 by simp
qed

lemma way_to_down: "way_to p t = Some w \<Longrightarrow> map snd (nodes_along t w) = w"
proof (induction w arbitrary: t)
  case (Cons i w)
  then have "t \<noteq> Pane p" by auto
  with Cons.prems have "i < length (children t)" "way_to p (children t ! i) = Some w"
    by (auto simp: way_to_children [of p t] first_way_Some)
  then show ?case using Cons.IH by (simp add: get_at_def)
qed simp

lemma way_way_to: "way t p = way_to p t"
  by (cases "way_to p t") (simp_all add: way_def down_to_along way_to_down)

end
