(* ===== verification/Layout_Edit.thy ===== *)
theory Layout_Edit
  imports Layout_Tree
begin

text \<open>
  What is asked of a layout tree and done to it (\<open>fux-wire/src/layout.rs\<close>):
  whether it holds a pane, its first pane, the node a way ends at, the copy
  made node by node; a pane put beside another or in a stack with it, a pane
  taken out, two swapped, and a client's choices at the stacks.  A change
  through \<open>&mut\<close> is the tree with the node at the end of a way replaced.
\<close>

section \<open>What a tree holds\<close>

text \<open>\<open>Tree::contains\<close>: the vector's end, its top, is the list's head.\<close>

function contains_loop :: "pane_id \<Rightarrow> tree list \<Rightarrow> bool" where
  "contains_loop p [] = False"
| "contains_loop p (Pane q # left) = (if q = p then True else contains_loop p left)"
| "contains_loop p (Split ax s a b # left) = contains_loop p (b # a # left)"
| "contains_loop p (Stack f r sh # left) = contains_loop p (rev (f # r) @ left)"
  by pat_completeness auto
termination
  by (relation "measure (\<lambda>(p, ts). sum_list (map tree_nodes ts))")
    (auto simp: rev_map sum_list_rev)

definition contains :: "tree \<Rightarrow> pane_id \<Rightarrow> bool" where
  "contains t p = contains_loop p [t]"

lemma contains_loop_leaves: "contains_loop p ts \<longleftrightarrow> (\<exists>t \<in> set ts. p \<in> set (leaves t))"
  by (induction p ts rule: contains_loop.induct) auto

lemma contains_leaves [simp]: "contains t p \<longleftrightarrow> p \<in> set (leaves t)"
  by (simp add: contains_def contains_loop_leaves)

definition same_panes :: "tree \<Rightarrow> tree \<Rightarrow> bool" where
  "same_panes t u \<longleftrightarrow> sort (panes t) = sort (panes u)"

lemma same_panes_mset: "same_panes t u \<longleftrightarrow> mset (leaves t) = mset (leaves u)"
  by (auto simp: same_panes_def) (metis mset_sort, metis properties_for_sort mset_sort sorted_sort)

text \<open>\<open>Tree::first\<close>: down the first children, with a client those it is shown.\<close>

function first_down :: "client_id option \<Rightarrow> tree \<Rightarrow> pane_id" where
  "first_down c (Pane p) = p"
| "first_down c (Split ax s a b) = first_down c a"
| "first_down None (Stack f r sh) = first_down None f"
| "first_down (Some c) (Stack f r sh) = first_down (Some c) (stack_current c f r sh)"
  by pat_completeness auto
termination
  by (relation "measure (\<lambda>(c, t). tree_nodes t)")
    (auto simp: child_nodes_less [of "stack_current c f r sh" "Some c" "Stack f r sh" for c f r sh, simplified])

definition first_pane :: "tree \<Rightarrow> pane_id" where
  "first_pane t = first_down None t"

definition first_shown :: "client_id \<Rightarrow> tree \<Rightarrow> pane_id" where
  "first_shown c t = first_down (Some c) t"

lemma first_down_shown: "first_down c t = hd (shown_leaves c t) \<and> shown_leaves c t \<noteq> []"
proof (induction c t rule: first_down.induct)
  case (1 c p)
  then show ?case by (simp add: shown_leaves.simps [of c "Pane p"])
next
  case (2 c ax s a b)
  then show ?case by (simp add: shown_leaves.simps [of c "Split ax s a b"])
next
  case (3 f r sh)
  then show ?case by (simp add: shown_leaves.simps [of None "Stack f r sh"])
next
  case (4 c f r sh)
  then show ?case by (simp add: shown_leaves.simps [of "Some c" "Stack f r sh"])
qed

lemma first_pane_hd: "first_pane t = hd (panes t)"
  by (simp add: first_pane_def first_down_shown shown_leaves_all)

lemma first_shown_hd: "first_shown c t = hd (shown_panes c t)"
  by (simp add: first_shown_def first_down_shown shown_panes_leaves)

section \<open>The node at the end of a way\<close>

fun set_child :: "tree \<Rightarrow> nat \<Rightarrow> tree \<Rightarrow> tree" where
  "set_child (Pane p) i k = Pane p"
| "set_child (Split ax s a b) i k =
     (if i = 0 then Split ax s k b else if i = 1 then Split ax s a k else Split ax s a b)"
| "set_child (Stack f r sh) 0 k = Stack k r sh"
| "set_child (Stack f r sh) (Suc i) k = Stack f (r[i := k]) sh"

fun at_way :: "tree \<Rightarrow> nat list \<Rightarrow> tree option" where
  "at_way t [] = Some t"
| "at_way t (i # w) = (case get_at (children t) i of None \<Rightarrow> None | Some k \<Rightarrow> at_way k w)"

text \<open>The tree after \<open>*self.at_mut(way)? = u\<close>: unchanged where the way ends early.\<close>

fun put_way :: "tree \<Rightarrow> nat list \<Rightarrow> tree \<Rightarrow> tree" where
  "put_way t [] u = u"
| "put_way t (i # w) u =
     (case get_at (children t) i of None \<Rightarrow> t | Some k \<Rightarrow> set_child t i (put_way k w u))"

lemma children_set_child: "children (set_child t i k) = (children t)[i := k]"
  by (cases t; cases i) (auto simp: numeral_eq_Suc split: nat.splits)

lemma set_child_id: "get_at (children t) i = Some k \<Longrightarrow> set_child t i k = t"
  by (cases t; cases i) (auto simp: get_at_def less_Suc_eq split: if_splits)

lemma set_child_twice: "set_child (set_child t i k) i k' = set_child t i k'"
  by (cases t; cases i) auto

lemma at_put_way: "at_way t w = Some v \<Longrightarrow> at_way (put_way t w u) w = Some u"
  by (induction w arbitrary: t)
    (auto simp: children_set_child get_at_def split: option.splits if_splits)

lemma put_way_id: "at_way t w = Some v \<Longrightarrow> put_way t w v = t"
  by (induction w arbitrary: t) (auto simp: set_child_id split: option.splits)

lemma put_way_twice: "put_way (put_way t w u) w u' = put_way t w u'"
  by (induction w arbitrary: t)
    (auto simp: children_set_child get_at_def set_child_twice split: option.splits if_splits)

lemma first_way_None: "first_way n ws = None \<longleftrightarrow> (\<forall>w \<in> set ws. w = None)"
  by (induction n ws rule: first_way.induct) auto

lemma way_to_at: "way_to p t = Some w \<Longrightarrow> at_way t w = Some (Pane p)"
proof (induction t arbitrary: w rule: tree_children_induct)
  case (node t)
  show ?case
  proof (cases "t = Pane p")
    case True
    with node.prems show ?thesis by simp
  next
    case False
    with node.prems obtain i v where w: "w = i # v" "i < length (children t)"
      "way_to p (children t ! i) = Some v"
      by (auto simp: way_to_children [of p t] first_way_Some)
    then have "at_way (children t ! i) v = Some (Pane p)" by (intro node.IH) simp_all
    with w show ?thesis by (simp add: get_at_def)
  qed
qed

lemma way_to_None: "way_to p t = None \<longleftrightarrow> p \<notin> set (leaves t)"
proof (induction t rule: tree_children_induct)
  case (node t)
  then show ?case
    by (cases "t = Pane p"; cases "pane_of t")
      (auto simp: way_to_children [of p t] first_way_None leaves_children [of t])
qed

lemma way_to_Some: "(\<exists>w. way_to p t = Some w) \<longleftrightarrow> p \<in> set (leaves t)"
  using way_to_None [of p t] by auto

text \<open>
  A way splits the panes into those before its end, those under it and those
  after; putting another node there changes the middle alone.
\<close>

lemma leaves_inner: "pane_of t = None \<Longrightarrow> leaves t = concat (map leaves (children t))"
  by (simp add: leaves_children)

lemma leaves_set_child:
  assumes "get_at (children t) i = Some k"
  shows "leaves (set_child t i u)
      = concat (map leaves (take i (children t))) @ leaves u @ concat (map leaves (drop (Suc i) (children t)))"
proof -
  from assms have i: "i < length (children t)" by (simp add: get_at_Some_iff)
  then have "pane_of (set_child t i u) = None"
    by (auto simp: pane_of_None_iff children_set_child)
  then show ?thesis
    using i by (simp add: leaves_inner children_set_child upd_conv_take_nth_drop)
qed

lemma way_to_split:
  assumes "way_to p t = Some (w1 @ w2)"
  shows "\<exists>v pre post. at_way t w1 = Some v \<and> way_to p v = Some w2 \<and> p \<notin> set pre
      \<and> (\<forall>u. leaves (put_way t w1 u) = pre @ leaves u @ post)"
  using assms
proof (induction w1 arbitrary: t)
  case Nil
  then show ?case by (intro exI [of _ t] exI [of _ "[]"]) simp
next
  case (Cons i w1)
  then have "t \<noteq> Pane p" by auto
  with Cons.prems obtain k where i: "i < length (children t)" "children t ! i = k"
      "way_to p k = Some (w1 @ w2)" "\<forall>j < i. way_to p (children t ! j) = None"
    by (auto simp: way_to_children [of p t] first_way_Some)
  obtain v pre post where v: "at_way k w1 = Some v" "way_to p v = Some w2" "p \<notin> set pre"
      "\<forall>u. leaves (put_way k w1 u) = pre @ leaves u @ post"
    using Cons.IH [OF i(3)] by blast
  let ?before = "concat (map leaves (take i (children t)))"
  have k: "get_at (children t) i = Some k" using i by (simp add: get_at_def)
  have "p \<notin> set ?before"
    using i by (simp add: way_to_None) (metis in_set_conv_nth length_take less_le_trans min.cobounded1
        min.strict_boundedE nth_take)
  moreover have "\<forall>u. leaves (put_way t (i # w1) u)
      = (?before @ pre) @ leaves u @ (post @ concat (map leaves (drop (Suc i) (children t))))"
    using v(4) k by (simp add: leaves_set_child [OF k])
  ultimately show ?case
    using v k by (intro exI [of _ v] exI [of _ "?before @ pre"]
        exI [of _ "post @ concat (map leaves (drop (Suc i) (children t)))"]) simp
qed

lemma put_way_leaves_self:
  "at_way t w = Some v \<Longrightarrow> \<forall>u. leaves (put_way t w u) = pre @ leaves u @ post \<Longrightarrow>
   leaves t = pre @ leaves v @ post"
  by (metis put_way_id)

lemma way_to_below:
  "at_way t w = Some v \<Longrightarrow> p \<notin> set (leaves t) \<Longrightarrow>
   way_to p (put_way t w u) = map_option (\<lambda>w'. w @ w') (way_to p u)"
proof (induction w arbitrary: t)
  case Nil
  then show ?case by (simp add: option.map_ident)
next
  case (Cons i w)
  then obtain k where k: "get_at (children t) i = Some k" "at_way k w = Some v"
    by (auto split: option.splits)
  then have i: "i < length (children t)" "children t ! i = k" by (auto simp: get_at_Some_iff)
  then have inner: "pane_of t = None" by (auto simp: pane_of_None_iff)
  have none: "way_to p (children t ! j) = None" if "j < length (children t)" for j
    using Cons.prems(2) that by (auto simp: leaves_inner [OF inner] way_to_None)
  then have IH: "way_to p (put_way k w u) = map_option (\<lambda>w'. w @ w') (way_to p u)"
    using Cons.IH [OF k(2)] i by (auto simp: way_to_None)
  have notp: "set_child t i (put_way k w u) \<noteq> Pane p"
    using i by (metis children.simps(1) children_set_child length_list_update list.size(3) not_less0)
  show ?case
  proof (cases "way_to p u")
    case None
    then have "\<forall>x \<in> set ((children t)[i := put_way k w u]). way_to p x = None"
      using IH none set_update_subset_insert [of "children t" i "put_way k w u"]
      by (auto simp: in_set_conv_nth [of _ "children t"] dest!: subsetD)
    then show ?thesis
      using None k notp
      by (simp add: way_to_children [of p "set_child t i (put_way k w u)"] first_way_None children_set_child)
  next
    case (Some w')
    then have "first_way 0 (map (way_to p) ((children t)[i := put_way k w u])) = Some (i # w @ w')"
      using IH none i by (auto simp: first_way_Some nth_list_update)
    then show ?thesis
      using Some k notp
      by (simp add: way_to_children [of p "set_child t i (put_way k w u)"] children_set_child)
  qed
qed

lemma at_way_append: "at_way t (w1 @ w2) = (case at_way t w1 of None \<Rightarrow> None | Some v \<Rightarrow> at_way v w2)"
  by (induction w1 arbitrary: t) (auto split: option.splits)

lemma put_way_append:
  "at_way t w1 = Some v \<Longrightarrow> put_way t (w1 @ w2) u = put_way t w1 (put_way v w2 u)"
  by (induction w1 arbitrary: t) (auto split: option.splits)

section \<open>Changes\<close>

text \<open>\<open>NoPane\<close>: the pane a change names is not in the tree, which is as it was.\<close>

datatype no_pane = NoPane

definition tree_split ::
    "pane_id \<times> pane_id \<Rightarrow> axis \<times> side \<Rightarrow> shares \<Rightarrow> tree \<Rightarrow> no_pane + tree" where
  "tree_split tn ax_side sh t =
     (case tn of (target, new) \<Rightarrow> case ax_side of (ax, sd) \<Rightarrow>
      case way t target of
        None \<Rightarrow> Inl NoPane
      | Some w \<Rightarrow>
          (case at_way t w of
             None \<Rightarrow> Inl NoPane
           | Some _ \<Rightarrow>
               Inr (put_way t w
                 (case sd of
                    After \<Rightarrow> Split ax sh (Pane target) (Pane new)
                  | Before \<Rightarrow> Split ax (shares_swapped sh) (Pane new) (Pane target)))))"

text \<open>
  \<open>Stack::insert\<close> and \<open>Stack::remove\<close>, on a stack's first child, the rest and
  the choices.  An insertion's place is clamped to 1 and the stack's length.
\<close>

definition stack_insert :: "nat \<Rightarrow> tree \<Rightarrow> tree list \<Rightarrow> (client_id \<rightharpoonup> nat shown) \<Rightarrow>
    tree list \<times> (client_id \<rightharpoonup> nat shown)" where
  "stack_insert at0 k r sh =
     (let at = clamp_between 1 (Suc (length r)) at0
      in (take (at - 1) r @ [k] @ drop (at - 1) r,
          \<lambda>c. map_option (shown_map (\<lambda>i. if at \<le> i then Suc i else i)) (sh c)))"

definition drop_nth :: "nat \<Rightarrow> 'a list \<Rightarrow> 'a list" where
  "drop_nth i xs = map snd (filter (\<lambda>(j, _). j \<noteq> i) (enumerate 0 xs))"

definition stack_choices_without :: "nat \<Rightarrow> nat \<Rightarrow> nat shown \<Rightarrow> nat shown" where
  "stack_choices_without n at s =
     shown_map (\<lambda>i. if at < i then i - 1 else i)
       (fst (shown_keep [0..<n] (\<lambda>i. i \<noteq> at) (Some 0) s))"

text \<open>\<open>Inl\<close> the one child left, else \<open>Inr\<close> what is left of the stack.\<close>

definition stack_remove :: "nat \<Rightarrow> pane_id \<Rightarrow> tree \<Rightarrow> tree list \<Rightarrow> (client_id \<rightharpoonup> nat shown) \<Rightarrow> tree + tree" where
  "stack_remove at leaf f r sh =
     (let sh' = (\<lambda>c. map_option (stack_choices_without (Suc (length r)) at) (sh c))
      in case drop_nth at (f # r) of
           [] \<Rightarrow> Inr (Stack (Pane leaf) [] sh')
         | [only] \<Rightarrow> Inl only
         | f' # r' \<Rightarrow> Inr (Stack f' r' sh'))"

definition tree_stack :: "pane_id \<times> pane_id \<Rightarrow> tree \<Rightarrow> no_pane + tree" where
  "tree_stack tn t =
     (case tn of (target, new) \<Rightarrow>
      case way t target of
        None \<Rightarrow> Inl NoPane
      | Some w \<Rightarrow>
          (let leaf = (case at_way t w of
                         None \<Rightarrow> Inl NoPane
                       | Some _ \<Rightarrow> Inr (put_way t w (Stack (Pane target) [Pane new] Map.empty)))
           in if w = [] then leaf
              else (case at_way t (butlast w) of
                      Some (Stack f r sh) \<Rightarrow>
                        (case stack_insert (Suc (last w)) (Pane new) r sh of
                           (r', sh') \<Rightarrow> Inr (put_way t (butlast w) (Stack f r' sh')))
                    | _ \<Rightarrow> leaf)))"

datatype removed = Absent | Left tree | Emptied

definition tree_remove :: "tree \<Rightarrow> pane_id \<Rightarrow> removed" where
  "tree_remove t p =
     (case way t p of
        None \<Rightarrow> Absent
      | Some w \<Rightarrow>
          if w = [] then Emptied
          else (case at_way t (butlast w) of
                  None \<Rightarrow> Absent
                | Some (Pane _) \<Rightarrow> Absent
                | Some (Split _ _ a b) \<Rightarrow>
                    Left (put_way t (butlast w) (if last w = 0 then b else a))
                | Some (Stack f r sh) \<Rightarrow>
                    (case stack_remove (last w) p f r sh of
                       Inl only \<Rightarrow> Left (put_way t (butlast w) only)
                     | Inr stack \<Rightarrow> Left (put_way t (butlast w) stack))))"

definition tree_append :: "pane_id \<Rightarrow> tree \<Rightarrow> tree" where
  "tree_append p t = Split Horizontal HALVED t (Pane p)"

text \<open>
  \<open>Tree::each_mut\<close> calls its argument on each node, parents first.  Its two
  callers change a pane's number alone (\<open>swap\<close>) and a stack's choices alone
  (\<open>forget\<close>), so it is a recursion given those two changes.
\<close>

fun each_mut :: "(pane_id \<Rightarrow> pane_id) \<Rightarrow> ((client_id \<rightharpoonup> nat shown) \<Rightarrow> (client_id \<rightharpoonup> nat shown)) \<Rightarrow> tree \<Rightarrow> tree" where
  "each_mut f g (Pane p) = Pane (f p)"
| "each_mut f g (Split ax s a b) = Split ax s (each_mut f g a) (each_mut f g b)"
| "each_mut f g (Stack k r sh) = Stack (each_mut f g k) (map (each_mut f g) r) (g sh)"

definition swap_pane :: "pane_id \<Rightarrow> pane_id \<Rightarrow> pane_id \<Rightarrow> pane_id" where
  "swap_pane a b p = (if p = a then b else if p = b then a else p)"

definition tree_swap :: "pane_id \<Rightarrow> pane_id \<Rightarrow> tree \<Rightarrow> tree" where
  "tree_swap a b t = each_mut (swap_pane a b) (\<lambda>sh. sh) t"

definition tree_forget :: "client_id \<Rightarrow> tree \<Rightarrow> tree" where
  "tree_forget c t = each_mut (\<lambda>p. p) (\<lambda>sh. sh(c := None)) t"

text \<open>\<open>Tree::reveal\<close>: along the way, each stack shows the child gone into.\<close>

fun reveal_along :: "client_id \<Rightarrow> nat list \<Rightarrow> tree \<Rightarrow> tree \<times> bool" where
  "reveal_along c [] t = (t, False)"
| "reveal_along c (i # w) t =
     (let (t1, ch) =
        (case t of
           Stack f r sh \<Rightarrow>
             (case shown_show i (stack_shown c sh) of (s, ch) \<Rightarrow> (Stack f r (sh(c \<mapsto> s)), ch))
         | _ \<Rightarrow> (t, False))
      in case get_at (children t1) i of
           None \<Rightarrow> (t1, ch)
         | Some k \<Rightarrow> (case reveal_along c w k of (k', ch') \<Rightarrow> (set_child t1 i k', ch \<or> ch')))"

definition tree_reveal :: "client_id \<Rightarrow> pane_id \<Rightarrow> tree \<Rightarrow> tree \<times> bool" where
  "tree_reveal c p t = (case way t p of None \<Rightarrow> (t, False) | Some w \<Rightarrow> reveal_along c w t)"

text \<open>\<open>Tree::stack_of\<close>: the stack nearest the pane on the way down to it.\<close>

definition stack_of :: "tree \<Rightarrow> pane_id \<Rightarrow> tree option" where
  "stack_of t p =
     (case down_to t p of
        None \<Rightarrow> None
      | Some dn \<Rightarrow>
          map_option fst (List.find (\<lambda>(k, _). case k of Stack _ _ _ \<Rightarrow> True | _ \<Rightarrow> False) (rev dn)))"

text \<open>The index of the child a client is shown of a stack of \<open>n\<close>.\<close>

definition shown_index :: "client_id \<Rightarrow> nat \<Rightarrow> (client_id \<rightharpoonup> nat shown) \<Rightarrow> nat" where
  "shown_index c n sh = (let j = current (stack_shown c sh) in if j < n then j else 0)"

lemma stack_current_index: "stack_current c f r sh = (f # r) ! shown_index c (Suc (length r)) sh"
  by (simp add: stack_current_def shown_index_def get_at_def Let_def del: nth_Cons)

section \<open>What the changes keep\<close>

text \<open>
  A tree as the code makes them: shares that are non-zero u32s, stacks of two
  or more, and each client's choices children of its stack, the one before
  not the current one.
\<close>

definition shown_ok :: "nat \<Rightarrow> nat shown \<Rightarrow> bool" where
  "shown_ok n s \<longleftrightarrow> current s < n \<and>
     (case last_shown s of None \<Rightarrow> True | Some l \<Rightarrow> l < n \<and> l \<noteq> current s)"

definition choices_ok :: "nat \<Rightarrow> (client_id \<rightharpoonup> nat shown) \<Rightarrow> bool" where
  "choices_ok n sh \<longleftrightarrow> (\<forall>c s. sh c = Some s \<longrightarrow> shown_ok n s)"

fun node_ok :: "tree \<Rightarrow> bool" where
  "node_ok (Pane _) = True"
| "node_ok (Split _ s _ _) = shares_ok s"
| "node_ok (Stack f r sh) = (r \<noteq> [] \<and> choices_ok (Suc (length r)) sh)"

fun tree_ok :: "tree \<Rightarrow> bool" where
  "tree_ok (Pane p) = True"
| "tree_ok (Split ax s a b) = (shares_ok s \<and> tree_ok a \<and> tree_ok b)"
| "tree_ok (Stack f r sh) =
     (r \<noteq> [] \<and> choices_ok (Suc (length r)) sh \<and> tree_ok f \<and> list_all tree_ok r)"

lemma tree_ok_children: "tree_ok t \<longleftrightarrow> node_ok t \<and> (\<forall>k \<in> set (children t). tree_ok k)"
  by (cases t) (auto simp: list_all_iff)

lemma node_ok_set_child [simp]: "node_ok (set_child t i k) = node_ok t"
  by (cases t; cases i) auto

lemma tree_ok_at_way: "tree_ok t \<Longrightarrow> at_way t w = Some v \<Longrightarrow> tree_ok v"
proof (induction w arbitrary: t)
  case (Cons i w)
  then obtain k where "get_at (children t) i = Some k" "at_way k w = Some v"
    by (auto split: option.splits)
  then show ?case
    using Cons tree_ok_children [of t] nth_mem [of i "children t"] by (auto simp: get_at_Some_iff)
qed simp

lemma tree_ok_put_way: "tree_ok t \<Longrightarrow> tree_ok u \<Longrightarrow> tree_ok (put_way t w u)"
proof (induction w arbitrary: t)
  case (Cons i w)
  show ?case
  proof (cases "get_at (children t) i")
    case (Some k)
    then have "k \<in> set (children t)" by (auto simp: get_at_Some_iff)
    with Cons have "tree_ok (put_way k w u)" using tree_ok_children [of t] by blast
    then show ?thesis
      using Cons.prems Some set_update_subset_insert [of "children t" i "put_way k w u"]
        tree_ok_children [of t] tree_ok_children [of "set_child t i (put_way k w u)"]
      by (auto simp: children_set_child)
  qed (use Cons in simp)
qed simp

lemma choices_ok_empty [simp]: "choices_ok n Map.empty"
  by (simp add: choices_ok_def)

lemma shown_ok_on [simp]: "0 < n \<Longrightarrow> shown_ok n (shown_on 0)"
  by (simp add: shown_ok_def shown_on_def)

lemma shown_ok_map:
  assumes "shown_ok n s" "\<And>i. i < n \<Longrightarrow> f i < m" "inj_on f {..<n}"
  shows "shown_ok m (shown_map f s)"
  using assms
  by (auto simp: shown_ok_def shown_map_def inj_on_eq_iff split: option.splits)

lemma shown_ok_stack_shown: "choices_ok n sh \<Longrightarrow> 0 < n \<Longrightarrow> shown_ok n (stack_shown c sh)"
  by (auto simp: stack_shown_def choices_ok_def split: option.splits)

lemma shown_ok_show: "shown_ok n s \<Longrightarrow> i < n \<Longrightarrow> shown_ok n (fst (shown_show i s))"
  by (auto simp: shown_ok_def shown_show_def Let_def split: option.splits)

end
