(* ===== verification/Layout_Edit_Laws.thy ===== *)
theory Layout_Edit_Laws
  imports Layout_Edit
begin

text \<open>
  The laws of the changes of a layout tree: what each does to the panes in
  tree order, that a split or a stacking is undone by taking the new pane
  out, that each keeps a tree as the code makes them (\<open>tree_ok\<close>, panes
  distinct), and what a client is shown after \<open>reveal\<close>.
\<close>

section \<open>Taking a pane out\<close>

lemma drop_nth_general:
  "map snd (filter (\<lambda>(j, _). j \<noteq> n + i) (enumerate n xs)) = take i xs @ drop (Suc i) xs"
proof (induction xs arbitrary: n i)
  case (Cons x xs)
  show ?case
  proof (cases i)
    case 0
    have "filter (\<lambda>(j, _). j \<noteq> n) (enumerate (Suc n) xs) = enumerate (Suc n) xs"
      by (auto simp: filter_id_conv in_set_enumerate_eq)
    then show ?thesis using 0 by simp
  next
    case (Suc k)
    then show ?thesis using Cons.IH [of "Suc n" k] by simp
  qed
qed simp

lemma drop_nth_eq: "drop_nth i xs = take i xs @ drop (Suc i) xs"
  using drop_nth_general [of 0 i xs] by (simp add: drop_nth_def)

lemma way_to_single:
  assumes "way_to p v = Some [i]"
  shows "get_at (children v) i = Some (Pane p)"
    and "p \<notin> set (concat (map leaves (take i (children v))))"
proof -
  have "v \<noteq> Pane p" using assms by auto
  with assms have i: "i < length (children v)" "way_to p (children v ! i) = Some []"
      "\<forall>j < i. way_to p (children v ! j) = None"
    by (auto simp: way_to_children [of p v] first_way_Some)
  have "children v ! i = Pane p" using way_to_at [OF i(2)] by simp
  with i show "get_at (children v) i = Some (Pane p)" by (simp add: get_at_def)
  show "p \<notin> set (concat (map leaves (take i (children v))))"
  proof
    assume "p \<in> set (concat (map leaves (take i (children v))))"
    then obtain k where k: "k \<in> set (take i (children v))" "p \<in> set (leaves k)" by auto
    then obtain j where "j < i" "children v ! j = k"
      by (metis in_set_conv_nth length_take min_less_iff_conj nth_take)
    with i(3) k(2) show False using way_to_None [of p k] by auto
  qed
qed

lemma leaves_without:
  assumes "way_to p v = Some [i]"
  shows "remove1 p (leaves v) = concat (map leaves (drop_nth i (children v)))"
proof -
  note w = way_to_single [OF assms]
  have inner: "pane_of v = None" using w(1) by (auto simp: pane_of_None_iff)
  have "children v = take i (children v) @ Pane p # drop (Suc i) (children v)"
    using w(1) id_take_nth_drop [of i "children v"] by (auto simp: get_at_Some_iff)
  then have "leaves v = concat (map leaves (take i (children v))) @ p # concat (map leaves (drop (Suc i) (children v)))"
    unfolding leaves_inner [OF inner] by (metis append_Cons append_Nil concat.simps(2) concat_append leaves.simps(1) list.map(2) map_append)
  then show ?thesis
    using w(2) by (simp add: remove1_append drop_nth_eq)
qed

text \<open>What stands in the parent's place once its child is taken out.\<close>

definition without_child :: "nat \<Rightarrow> pane_id \<Rightarrow> tree \<Rightarrow> tree option" where
  "without_child i p v =
     (case v of
        Pane _ \<Rightarrow> None
      | Split _ _ a b \<Rightarrow> Some (if i = 0 then b else a)
      | Stack f r sh \<Rightarrow>
          (case stack_remove i p f r sh of Inl only \<Rightarrow> Some only | Inr st \<Rightarrow> Some st))"

lemma tree_remove_eq:
  "tree_remove t p =
     (case way_to p t of
        None \<Rightarrow> Absent
      | Some w \<Rightarrow>
          if w = [] then Emptied
          else (case at_way t (butlast w) of
                  None \<Rightarrow> Absent
                | Some v \<Rightarrow>
                    (case without_child (last w) p v of
                       None \<Rightarrow> Absent
                     | Some u \<Rightarrow> Left (put_way t (butlast w) u))))"
  by (auto simp: tree_remove_def way_way_to without_child_def split: option.splits tree.splits sum.splits)

lemma without_child_leaves:
  assumes "way_to p v = Some [i]" "node_ok v"
  shows "\<exists>u. without_child i p v = Some u \<and> leaves u = remove1 p (leaves v)"
proof (cases v)
  case (Pane q)
  then show ?thesis using assms by (auto split: if_splits)
next
  case (Split ax s a b)
  have "i = 0 \<or> i = 1"
    using way_to_single(1) [OF assms(1)] Split by (auto simp: get_at_Some_iff less_Suc_eq)
  then show ?thesis
    using Split leaves_without [OF assms(1)] by (auto simp: without_child_def drop_nth_eq)
next
  case (Stack f r sh)
  have "length (drop_nth i (f # r)) = length r"
    using way_to_single(1) [OF assms(1)] Stack by (simp add: get_at_Some_iff drop_nth_eq)
  then have "drop_nth i (f # r) \<noteq> []" using Stack assms(2) by auto
  then obtain k ks where "drop_nth i (f # r) = k # ks" by (meson neq_Nil_conv)
  then show ?thesis
    using Stack leaves_without [OF assms(1)]
    by (cases ks) (auto simp: without_child_def stack_remove_def Let_def)
qed

lemma shown_keep_range:
  assumes s: "shown_ok m s" and was: "set was = {..<m}" and x: "x < m" "kept x"
  shows "let k = fst (shown_keep was kept g s)
         in current k < m \<and> kept (current k)
            \<and> (\<forall>l. last_shown k = Some l \<longrightarrow> l < m \<and> kept l \<and> l \<noteq> current k)"
proof (cases "kept (current s)")
  case True
  then show ?thesis
    using s by (auto simp: shown_keep_def shown_ok_def Let_def split: option.splits if_splits)
next
  case False
  define j where "j = (case position (\<lambda>c. c = current s) was of Some i \<Rightarrow> i | None \<Rightarrow> 0)"
  have set: "set (drop j was @ rev (take j was)) = {..<m}"
    by (metis append_take_drop_id set_append set_rev sup_commute was)
  then obtain y where y: "List.find kept (drop j was @ rev (take j was)) = Some y"
    using x by (metis find_None_iff lessThan_iff option.exhaust)
  then have ky: "kept y" "y < m" using set find_Some_in [OF y] by auto
  show ?thesis
  proof (cases "\<exists>l. last_shown s = Some l \<and> kept l")
    case True
    then show ?thesis
      using s False by (auto simp: shown_keep_def shown_ok_def Let_def)
  next
    case nolast: False
    then have "(case last_shown s of None \<Rightarrow> None | Some i \<Rightarrow> if kept i then Some i else None) = None"
      by (auto split: option.splits)
    then show ?thesis
      using False y ky by (simp add: shown_keep_def Let_def j_def)
  qed
qed

lemma shown_ok_closed_up:
  assumes "current k < Suc n" "current k \<noteq> at" "at \<le> n"
    and "\<forall>l. last_shown k = Some l \<longrightarrow> l < Suc n \<and> l \<noteq> at \<and> l \<noteq> current k"
  shows "shown_ok n (shown_map (\<lambda>i. if at < i then i - 1 else i) k)"
  using assms by (cases "last_shown k") (auto simp: shown_map_def shown_ok_def)

lemma shown_ok_without:
  assumes s: "shown_ok (Suc n) s" and at: "at \<le> n" and n: "0 < n"
  shows "shown_ok n (stack_choices_without (Suc n) at s)"
proof -
  have was: "set [0..<Suc n] = {..<Suc n}" by auto
  define x where "x = (if at = 0 then 1 else 0 :: nat)"
  have x: "x < Suc n" "x \<noteq> at" using n by (auto simp: x_def)
  note range = shown_keep_range [OF s was, of x "\<lambda>i. i \<noteq> at" "Some 0", OF x, unfolded Let_def]
  show ?thesis
    unfolding stack_choices_without_def
    by (rule shown_ok_closed_up) (use range at in blast)+
qed

lemma without_child_ok:
  assumes "tree_ok v" "i < length (children v)" "without_child i p v = Some u"
  shows "tree_ok u"
proof (cases v)
  case (Stack f r sh)
  then have sh: "choices_ok (Suc (length r)) sh" and r: "r \<noteq> []" using assms(1) by auto
  have ok: "\<forall>k \<in> set (drop_nth i (f # r)). tree_ok k"
    using assms(1) Stack set_take_subset [of i "f # r"] set_drop_subset [of i r]
    by (auto simp: drop_nth_eq list_all_iff)
  have len: "length (drop_nth i (f # r)) = length r"
    using assms(2) Stack by (simp add: drop_nth_eq)
  have "choices_ok (length r) (\<lambda>c. map_option (stack_choices_without (Suc (length r)) i) (sh c))"
    using sh r assms(2) Stack by (auto simp: choices_ok_def intro!: shown_ok_without)
  then show ?thesis
    using assms(3) Stack ok len r
    by (auto simp: without_child_def stack_remove_def Let_def list_all_iff split: list.splits)
qed (use assms in \<open>auto simp: without_child_def split: if_splits\<close>)

lemma tree_remove_spec:
  assumes ok: "tree_ok t"
  shows "case tree_remove t p of
     Absent \<Rightarrow> p \<notin> set (panes t)
   | Emptied \<Rightarrow> t = Pane p
   | Left u \<Rightarrow> p \<in> set (panes t) \<and> panes u = remove1 p (panes t) \<and> tree_ok u"
proof (cases "way_to p t")
  case None
  then show ?thesis using way_to_None [of p t] by (simp add: tree_remove_eq)
next
  case (Some w)
  then have mem: "p \<in> set (leaves t)" using way_to_Some by blast
  show ?thesis
  proof (cases "w = []")
    case True
    then show ?thesis using Some way_to_at [OF Some] by (simp add: tree_remove_eq)
  next
    case False
    then have w: "way_to p t = Some (butlast w @ [last w])" using Some by simp
    obtain v pre post where v: "at_way t (butlast w) = Some v" "way_to p v = Some [last w]"
        "p \<notin> set pre" "\<forall>u. leaves (put_way t (butlast w) u) = pre @ leaves u @ post"
      using way_to_split [OF w] by blast
    have okv: "tree_ok v" by (rule tree_ok_at_way [OF ok v(1)])
    then have "node_ok v" using tree_ok_children [of v] by blast
    then obtain u where u: "without_child (last w) p v = Some u" "leaves u = remove1 p (leaves v)"
      using without_child_leaves [OF v(2)] by blast
    have "p \<in> set (leaves v)" using v(2) way_to_Some by blast
    then have "pre @ leaves u @ post = remove1 p (leaves t)"
      using put_way_leaves_self [OF v(1,4)] v(3) u(2) by (simp add: remove1_append)
    moreover have "tree_ok (put_way t (butlast w) u)"
      using without_child_ok [OF okv _ u(1)] way_to_single(1) [OF v(2)]
      by (auto simp: get_at_Some_iff intro: tree_ok_put_way [OF ok])
    ultimately show ?thesis
      using False Some v(1,4) u(1) mem by (simp add: tree_remove_eq)
  qed
qed

text \<open>
  C9: Taking a pane out of a tree the code makes (\<open>Tree::remove\<close>): a pane not
  in the tree is \<open>Absent\<close>; a tree that is that pane alone is \<open>Emptied\<close>; else
  what is left has the other panes in the order they had, and is again a tree
  as the code makes them (stacks of two or more, every client's choice a child
  of its stack, the one before it another).
\<close>

theorem remove_panes:
  assumes ok: "tree_ok t"
  shows "case tree_remove t p of
     Absent \<Rightarrow> p \<notin> set (panes t)
   | Emptied \<Rightarrow> t = Pane p
   | Left u \<Rightarrow> p \<in> set (panes t) \<and> panes u = remove1 p (panes t) \<and> tree_ok u"
  using tree_remove_spec [OF ok] .


theorem remove_panes_witness:
  "tree_ok (Stack (Pane 1) [Pane 2] [9 \<mapsto> shown_on 1])
   \<and> (\<exists>u. tree_remove (Stack (Pane 1) [Pane 2] [9 \<mapsto> shown_on 1]) 2 = Left u \<and> panes u = [1])"
proof -
  let ?t = "Stack (Pane 1) [Pane 2] [9 \<mapsto> shown_on 1]"
  have ok: "tree_ok ?t"
    by (auto simp: choices_ok_def shown_ok_def shown_on_def split: if_splits)
  have "\<exists>u. tree_remove ?t 2 = Left u"
    by (simp add: tree_remove_eq without_child_def stack_remove_def drop_nth_eq)
  with ok remove_panes [OF ok, of 2] show ?thesis by auto
qed

section \<open>Putting a pane in\<close>

lemma way_cases:
  obtains "way_to p t = None" "p \<notin> set (leaves t)"
  | w where "way_to p t = Some w" "at_way t w = Some (Pane p)" "p \<in> set (leaves t)"
  using way_to_None [of p t] way_to_at [of p t] by (cases "way_to p t") auto

definition beside :: "pane_id \<Rightarrow> pane_id \<Rightarrow> side \<Rightarrow> pane_id list" where
  "beside target new sd = (case sd of After \<Rightarrow> [target, new] | Before \<Rightarrow> [new, target])"

lemma put_leaf_panes:
  assumes "way_to p t = Some w"
  shows "\<exists>pre post. leaves t = pre @ p # post \<and> p \<notin> set pre
     \<and> (\<forall>u. leaves (put_way t w u) = pre @ leaves u @ post)"
proof -
  from assms have "way_to p t = Some (w @ [])" by simp
  from way_to_split [OF this] obtain v pre post where v: "at_way t w = Some v"
      "way_to p v = Some []" "p \<notin> set pre" "\<forall>u. leaves (put_way t w u) = pre @ leaves u @ post"
    by blast
  have "v = Pane p" using way_to_at [OF v(2)] by simp
  then show ?thesis using put_way_leaves_self [OF v(1,4)] v(3,4) by auto
qed

lemma leaves_put_way_ex:
  assumes "at_way t w = Some v"
  shows "\<exists>pre post. \<forall>u. leaves (put_way t w u) = pre @ leaves u @ post"
  using assms
proof (induction w arbitrary: t)
  case Nil
  then show ?case by (intro exI [of _ "[]"]) simp
next
  case (Cons i w)
  then obtain k where k: "get_at (children t) i = Some k" "at_way k w = Some v"
    by (auto split: option.splits)
  from Cons.IH [OF k(2)] obtain pre post where p: "\<forall>u. leaves (put_way k w u) = pre @ leaves u @ post"
    by blast
  then have "\<forall>u. leaves (put_way t (i # w) u)
      = (concat (map leaves (take i (children t))) @ pre) @ leaves u
        @ (post @ concat (map leaves (drop (Suc i) (children t))))"
    by (simp add: k(1) leaves_set_child [OF k(1)])
  then show ?case by blast
qed

lemma tree_split_spec:
  "case tree_split (target, new) (ax, sd) sh t of
     Inl NoPane \<Rightarrow> target \<notin> set (panes t)
   | Inr u \<Rightarrow> (\<exists>pre post. panes t = pre @ target # post \<and> target \<notin> set pre
                 \<and> panes u = pre @ beside target new sd @ post)
             \<and> (tree_ok t \<and> shares_ok sh \<longrightarrow> tree_ok u)"
proof (rule way_cases [of target t])
  assume "way_to target t = None" "target \<notin> set (leaves t)"
  then show ?thesis by (simp add: tree_split_def way_way_to)
next
  fix w assume w: "way_to target t = Some w" "at_way t w = Some (Pane target)"
  then show ?thesis
    using put_leaf_panes [OF w(1)]
    by (cases sd) (auto simp: tree_split_def way_way_to beside_def intro!: tree_ok_put_way, force+)
qed

text \<open>
  C21: \<open>Tree::split\<close> puts the new pane right beside the target in tree order,
  after it or before it as asked, every other pane where it was; it refuses a
  target the tree does not hold (\<open>NoPane\<close>) and no other; and it keeps a tree
  as the code makes them.
\<close>

theorem split_panes:
  "case tree_split (target, new) (ax, sd) sh t of
     Inl NoPane \<Rightarrow> target \<notin> set (panes t)
   | Inr u \<Rightarrow> (\<exists>pre post. panes t = pre @ target # post \<and> target \<notin> set pre
                 \<and> panes u = pre @ beside target new sd @ post)
             \<and> (tree_ok t \<and> shares_ok sh \<longrightarrow> tree_ok u)"
  by (rule tree_split_spec)


theorem split_panes_witness:
  "(tree_ok (Pane 1) \<and> shares_ok HALVED)
   \<and> (\<exists>u. tree_split (1, 2) (Horizontal, Before) HALVED (Pane 1) = Inr u
        \<and> tree_ok u \<and> panes u = [2, 1])"
proof -
  have "\<exists>u. tree_split (1, 2) (Horizontal, Before) HALVED (Pane 1) = Inr u"
    by (simp add: tree_split_def way_way_to)
  then show ?thesis
    using split_panes [where target = 1 and new = 2 and ax = Horizontal and sd = Before
        and sh = HALVED and t = "Pane 1"]
    by (auto simp: beside_def Cons_eq_append_conv)
qed

text \<open>
  A split is undone by taking the new pane out again: \<open>Tree::remove\<close> of the
  pane \<open>Tree::split\<close> put in gives back the very tree it was put in, shares and
  choices included.
\<close>

lemma split_then_remove:
  assumes "new \<notin> set (panes t)" and "tree_split (target, new) (ax, sd) sh t = Inr u"
  shows "tree_remove u new = Left t"
proof (rule way_cases [of target t])
  assume "way_to target t = None"
  then show ?thesis using assms(2) by (simp add: tree_split_def way_way_to)
next
  fix w assume w: "way_to target t = Some w" "at_way t w = Some (Pane target)"
    and mem: "target \<in> set (leaves t)"
  have new: "new \<notin> set (leaves t)" "target \<noteq> new" using assms(1) mem by auto
  define s where "s = (case sd of After \<Rightarrow> Split ax sh (Pane target) (Pane new)
                  | Before \<Rightarrow> Split ax (shares_swapped sh) (Pane new) (Pane target))"
  have u: "u = put_way t w s"
    using assms(2) w by (simp add: tree_split_def way_way_to s_def split: side.splits)
  define i :: nat where "i = (case sd of After \<Rightarrow> 1 | Before \<Rightarrow> 0)"
  have "way_to new s = Some [i]" using new(2) by (auto simp: s_def i_def split: side.splits)
  then have "way_to new u = Some (w @ [i])"
    using way_to_below [OF w(2) new(1), of s] by (simp add: u)
  moreover have "at_way u w = Some s" using at_put_way [OF w(2)] by (simp add: u)
  moreover have "without_child i new s = Some (Pane target)"
    by (auto simp: s_def i_def without_child_def split: side.splits)
  ultimately show ?thesis
    by (simp add: tree_remove_eq u put_way_twice put_way_id [OF w(2)])
qed

lemma split_then_remove_witness:
  "\<exists>u. 2 \<notin> set (panes (Pane 1)) \<and> tree_split (1, 2) (Vertical, After) HALVED (Pane 1) = Inr u
       \<and> tree_remove u 2 = Left (Pane 1)"
proof -
  obtain u where u: "tree_split (1, 2) (Vertical, After) HALVED (Pane 1) = Inr u"
    by (simp add: tree_split_def way_way_to)
  have n: "(2 :: nat) \<notin> set (panes (Pane 1))" by simp
  from split_then_remove [OF n u] u n show ?thesis by blast
qed

text \<open>A choice moved for a child put in comes back when the child is taken out.\<close>

lemma shown_keep_id:
  "kept (current s) \<Longrightarrow> \<forall>l. last_shown s = Some l \<longrightarrow> kept l \<Longrightarrow> fst (shown_keep was kept g s) = s"
  by (cases "last_shown s") (simp_all add: shown_keep_def Let_def)

lemma choices_insert_without:
  "stack_choices_without n at (shown_map (\<lambda>i. if at \<le> i then Suc i else i) s) = s"
proof -
  let ?s = "shown_map (\<lambda>i. if at \<le> i then Suc i else i) s"
  have "fst (shown_keep [0..<n] (\<lambda>i. i \<noteq> at) (Some 0) ?s) = ?s"
    by (rule shown_keep_id) (auto simp: shown_map_def)
  moreover have "(\<lambda>i. if at < (if at \<le> i then Suc i else i) then (if at \<le> i then Suc i else i) - 1
      else if at \<le> i then Suc i else i) = (\<lambda>i. i)"
    by (rule ext) auto
  ultimately show ?thesis by (simp add: stack_choices_without_def shown_map_comp)
qed

lemma tree_stack_cases:
  assumes w: "way_to target t = Some w"
  obtains (fresh) "tree_stack (target, new) t = Inr (put_way t w (Stack (Pane target) [Pane new] Map.empty))"
  | (inside) w' i f r sh where "w = w' @ [i]" "at_way t w' = Some (Stack f r sh)" "i \<le> length r"
      "(f # r) ! i = Pane target"
      "tree_stack (target, new) t = Inr (put_way t w' (Stack f (take i r @ Pane new # drop i r)
         (\<lambda>c. map_option (shown_map (\<lambda>j. if Suc i \<le> j then Suc j else j)) (sh c))))"
proof (cases "\<exists>f r sh. w \<noteq> [] \<and> at_way t (butlast w) = Some (Stack f r sh)")
  case True
  then obtain f r sh where b: "w \<noteq> []" "at_way t (butlast w) = Some (Stack f r sh)" by blast
  define w' i where "w' = butlast w" and "i = last w"
  have ws: "w = w' @ [i]" using b(1) by (simp add: w'_def i_def)
  have "at_way (Stack f r sh) [i] = Some (Pane target)"
    using way_to_at [OF w] b(2) ws by (simp add: at_way_append flip: w'_def)
  then have i: "get_at (f # r) i = Some (Pane target)" by (auto split: option.splits)
  then have le: "i \<le> length r" "(f # r) ! i = Pane target" by (auto simp: get_at_Some_iff)
  have "clamp_between 1 (Suc (length r)) (Suc i) = Suc i"
    using le by (simp add: clamp_between_def)
  then have "stack_insert (Suc i) (Pane new) r sh = (take i r @ Pane new # drop i r,
         \<lambda>c. map_option (shown_map (\<lambda>j. if Suc i \<le> j then Suc j else j)) (sh c))"
    by (simp add: stack_insert_def Let_def)
  then have "tree_stack (target, new) t = Inr (put_way t w' (Stack f (take i r @ Pane new # drop i r)
         (\<lambda>c. map_option (shown_map (\<lambda>j. if Suc i \<le> j then Suc j else j)) (sh c))))"
    using w b by (simp add: tree_stack_def way_way_to flip: i_def w'_def)
  with ws b(2) le show ?thesis by (intro inside) (simp_all flip: w'_def)
next
  case False
  then have "tree_stack (target, new) t = Inr (put_way t w (Stack (Pane target) [Pane new] Map.empty))"
    using w way_to_at [OF w]
    by (cases "at_way t (butlast w)")
      (auto simp: tree_stack_def way_way_to Let_def split: tree.splits)
  then show ?thesis by (rule fresh)
qed

text \<open>
  C22: \<open>Tree::stack\<close> puts the new pane right after the target in tree order, in
  the stack that holds the target as a child, else in a new one of the two;
  it refuses a target the tree does not hold and no other; and it keeps a
  tree as the code makes them: each client's choice still a child of its stack.
\<close>

theorem stack_panes:
  "case tree_stack (target, new) t of
     Inl NoPane \<Rightarrow> target \<notin> set (panes t)
   | Inr u \<Rightarrow> (\<exists>pre post. panes t = pre @ target # post \<and> target \<notin> set pre
                 \<and> panes u = pre @ target # new # post)
             \<and> (tree_ok t \<longrightarrow> tree_ok u)"
proof (rule way_cases [of target t])
  assume "way_to target t = None" "target \<notin> set (leaves t)"
  then show ?thesis by (simp add: tree_stack_def way_way_to)
next
  fix w assume w: "way_to target t = Some w" "at_way t w = Some (Pane target)"
  show ?thesis
  proof (rule tree_stack_cases [OF w(1), of new])
    assume "tree_stack (target, new) t = Inr (put_way t w (Stack (Pane target) [Pane new] Map.empty))"
    then show ?thesis
      using put_leaf_panes [OF w(1)] by (auto intro!: tree_ok_put_way) force
  next
    fix w' i f r sh
    assume ws: "w = w' @ [i]" and at: "at_way t w' = Some (Stack f r sh)" and i: "i \<le> length r"
      and fi: "(f # r) ! i = Pane target"
      and u: "tree_stack (target, new) t = Inr (put_way t w' (Stack f (take i r @ Pane new # drop i r)
         (\<lambda>c. map_option (shown_map (\<lambda>j. if Suc i \<le> j then Suc j else j)) (sh c))))"
        (is "_ = Inr (put_way t w' ?s)")
    obtain pre post where v: "way_to target (Stack f r sh) = Some [i]" "target \<notin> set pre"
        "\<forall>u. leaves (put_way t w' u) = pre @ leaves u @ post"
      using way_to_split [of target t w' "[i]"] w(1) ws at by auto
    define a where "a = concat (map leaves (take i (f # r)))"
    define b where "b = concat (map leaves (drop (Suc i) (f # r)))"
    have a: "target \<notin> set a" using way_to_single(2) [OF v(1)] by (simp add: a_def)
    have "f # r = take i (f # r) @ Pane target # drop (Suc i) (f # r)"
      using id_take_nth_drop [of i "f # r"] i fi by simp
    then have l: "leaves (Stack f r sh) = a @ target # b"
      unfolding a_def b_def
      by (metis append_Cons append_Nil concat.simps(2) concat_append leaves.simps(1) leaves.simps(3)
          list.map(2) map_append)
    have "f # take i r = take i (f # r) @ [Pane target]"
      using i fi take_Suc_conv_app_nth [of i "f # r"] by simp
    then have "concat (map leaves (f # take i r)) = a @ [target]"
      unfolding a_def by (simp only: map_append concat_append) simp
    then have "concat (map leaves (f # take i r @ Pane new # drop i r)) = a @ target # new # b"
      by (simp add: b_def)
    then have l': "leaves ?s = a @ target # new # b" by simp
    have "leaves t = (pre @ a) @ target # (b @ post)"
      using put_way_leaves_self [OF at v(3)] l by simp
    moreover have "leaves (put_way t w' ?s) = (pre @ a) @ target # new # (b @ post)"
      using v(3) l' by (simp del: leaves.simps)
    moreover have "tree_ok (put_way t w' ?s)" if ok: "tree_ok t"
    proof (rule tree_ok_put_way [OF ok])
      have okv: "tree_ok (Stack f r sh)" by (rule tree_ok_at_way [OF ok at])
      have "choices_ok (Suc (Suc (length r)))
          (\<lambda>c. map_option (shown_map (\<lambda>j. if Suc i \<le> j then Suc j else j)) (sh c))"
        using okv by (auto simp: choices_ok_def inj_on_def intro!: shown_ok_map)
      then show "tree_ok ?s"
        using okv i by (auto simp: list_all_iff dest: in_set_takeD in_set_dropD)
    qed
    ultimately show ?thesis
      using u v(2) a by (simp del: leaves.simps) (metis Un_iff append.assoc set_append)
  qed
qed

theorem stack_panes_witness:
  "tree_ok (Pane 4) \<and> (\<exists>u. tree_stack (4, 6) (Pane 4) = Inr u \<and> tree_ok u \<and> panes u = [4, 6])"
proof -
  have "\<exists>u. tree_stack (4, 6) (Pane 4) = Inr u"
    by (simp add: tree_stack_def way_way_to)
  then show ?thesis
    using stack_panes [where target = 4 and new = 6 and t = "Pane 4"]
    by (auto simp: Cons_eq_append_conv)
qed

text \<open>
  C18: A stacking is undone by taking the new pane out again: \<open>Tree::remove\<close> of
  the pane \<open>Tree::stack\<close> put in gives back the very tree it was put in, every
  client's choices (moved for the new child, and moved back) included.
\<close>

theorem stack_then_remove:
  assumes ok: "tree_ok t" and new: "new \<notin> set (panes t)" and u: "tree_stack (target, new) t = Inr u"
  shows "tree_remove u new = Left t"
proof (rule way_cases [of target t])
  assume "way_to target t = None"
  then show ?thesis using u by (simp add: tree_stack_def way_way_to)
next
  fix w assume w: "way_to target t = Some w" "at_way t w = Some (Pane target)"
    and mem: "target \<in> set (leaves t)"
  have new': "new \<notin> set (leaves t)" "target \<noteq> new" using new mem by auto
  have undo: "tree_remove (put_way t w' s) new = Left t"
    if at: "at_way t w' = Some v" and s: "way_to new s = Some [i]" "without_child i new s = Some v" for w' s v i
    using way_to_below [OF at new'(1), of s] at_put_way [OF at] s
    by (simp add: tree_remove_eq put_way_twice put_way_id [OF at])
  show ?thesis
  proof (rule tree_stack_cases [OF w(1), of new])
    assume "tree_stack (target, new) t = Inr (put_way t w (Stack (Pane target) [Pane new] Map.empty))"
    then show ?thesis
      using u new'(2) by (auto intro!: undo [OF w(2)] simp: without_child_def stack_remove_def drop_nth_eq)
  next
    fix w' i f r sh
    assume at: "at_way t w' = Some (Stack f r sh)" and i: "i \<le> length r"
      and uu: "tree_stack (target, new) t = Inr (put_way t w' (Stack f (take i r @ Pane new # drop i r)
         (\<lambda>c. map_option (shown_map (\<lambda>j. if Suc i \<le> j then Suc j else j)) (sh c))))"
        (is "_ = Inr (put_way t w' ?s)")
    obtain pre post where pp: "leaves t = pre @ leaves (Stack f r sh) @ post"
      using leaves_put_way_ex [OF at] put_way_leaves_self [OF at] by blast
    have nn: "\<forall>k \<in> set (f # r). new \<notin> set (leaves k)" using new'(1) pp by auto
    have "way_to new ?s = Some [Suc i]"
    proof -
      have "first_way 0 (map (way_to new) (f # take i r @ Pane new # drop i r)) = Some [Suc i]"
        using nn i way_to_None [of new] nth_mem [of _ r]
        by (auto simp: first_way_Some nth_append nth_Cons split: nat.splits)
      then show ?thesis by simp
    qed
    moreover have "without_child (Suc i) new ?s = Some (Stack f r sh)"
    proof -
      have r: "r \<noteq> []" using tree_ok_at_way [OF ok at] by simp
      then obtain k ks where "r = k # ks" by (meson neq_Nil_conv)
      moreover have "drop_nth (Suc i) (f # take i r @ Pane new # drop i r) = f # r"
        using i by (simp add: drop_nth_eq)
      ultimately show ?thesis
        by (simp add: without_child_def stack_remove_def Let_def option.map_comp comp_def
            choices_insert_without option.map_ident)
    qed
    ultimately show ?thesis using uu u undo [OF at] by auto
  qed
qed

theorem stack_then_remove_witness:
  "\<exists>u. tree_ok (Pane 1) \<and> 2 \<notin> set (panes (Pane 1)) \<and> tree_stack (1, 2) (Pane 1) = Inr u
       \<and> tree_remove u 2 = Left (Pane 1)"
proof -
  obtain u where u: "tree_stack (1, 2) (Pane 1) = Inr u"
    by (simp add: tree_stack_def way_way_to)
  have n: "(2 :: nat) \<notin> set (panes (Pane 1))" and ok: "tree_ok (Pane 1)" by simp_all
  from stack_then_remove [OF ok n u] u n ok show ?thesis by blast
qed

section \<open>Appending, swapping and forgetting\<close>

lemma append_panes: "panes (tree_append p t) = panes t @ [p]"
  by (simp add: tree_append_def)

lemma append_ok: "tree_ok t \<Longrightarrow> tree_ok (tree_append p t)"
  by (simp add: tree_append_def)

lemma swap_pane_invol [simp]: "swap_pane a b (swap_pane a b p) = p"
  by (simp add: swap_pane_def)

lemma each_mut_each_mut: "each_mut f g (each_mut f' g' t) = each_mut (\<lambda>p. f (f' p)) (\<lambda>s. g (g' s)) t"
  by (induction t) auto

lemma each_mut_id: "each_mut (\<lambda>p. p) (\<lambda>s. s) t = t"
  by (induction t) (auto simp: map_idI)

lemma leaves_each_mut: "leaves (each_mut f g t) = map f (leaves t)"
proof (induction t)
  case (Stack k r sh)
  then have "map (leaves \<circ> each_mut f g) r = map (map f \<circ> leaves) r" by simp
  then show ?case using Stack by (simp only: each_mut.simps leaves.simps map_append map_concat map_map)
qed auto

lemma tree_ok_swap: "tree_ok (tree_swap a b t) = tree_ok t"
  unfolding tree_swap_def by (induction t) (auto simp: list_all_iff)


lemma tree_ok_forget: "tree_ok t \<Longrightarrow> tree_ok (tree_forget c t)"
  unfolding tree_forget_def
  by (induction t) (auto simp: list_all_iff choices_ok_def split: if_splits)

lemma forget_panes: "panes (tree_forget c t) = panes t"
  by (simp add: tree_forget_def leaves_each_mut)

section \<open>What a client is shown\<close>

lemma shown_leaves_inner:
  "pane_of t = None \<Longrightarrow> shown_leaves c t = concat (map (shown_leaves c) (kids c t))"
  by (simp add: shown_leaves.simps [of c t])

lemma shown_leaves_set_child:
  assumes "get_at (children t) i = Some k" "shown_leaves c k' = shown_leaves c k"
  shows "shown_leaves c (set_child t i k') = shown_leaves c t"
proof (cases t)
  case (Pane p)
  then show ?thesis using assms by simp
next
  case (Split ax s a b)
  then show ?thesis
    using assms by (auto simp: get_at_Some_iff less_Suc_eq shown_leaves_inner)
next
  case (Stack f r sh)
  have upd: "map (shown_leaves c) ((f # r)[i := k']) = map (shown_leaves c) (f # r)"
    using assms Stack list_update_same_conv [of i "map (shown_leaves c) (f # r)" "shown_leaves c k"]
    by (simp add: get_at_Some_iff map_update del: list_update.simps list.map)
  obtain f' r' where fr: "(f # r)[i := k'] = f' # r'" by (cases i) auto
  then have st: "set_child t i k' = Stack f' r' sh" and len: "length r' = length r"
    using Stack by (cases i; auto)+
  show ?thesis
  proof (cases c)
    case None
    then show ?thesis using Stack st upd fr by (simp add: shown_leaves_inner)
  next
    case (Some d)
    let ?j = "shown_index d (Suc (length r)) sh"
    have "?j < length (f # r)" by (simp add: shown_index_def Let_def)
    then have "shown_leaves c ((f' # r') ! ?j) = shown_leaves c ((f # r) ! ?j)"
      by (metis fr length_list_update nth_map upd)
    then show ?thesis
      using Some Stack st len by (simp add: shown_leaves_inner stack_current_index)
  qed
qed

text \<open>At one stack, a client's new choice is seen by no one else.\<close>

lemma shown_leaves_choice:
  "c \<noteq> Some d \<Longrightarrow> shown_leaves c (Stack f r (sh(d \<mapsto> s))) = shown_leaves c (Stack f r sh)"
  by (cases c) (auto simp: shown_leaves_inner stack_current_index shown_index_def stack_shown_def)

lemma shown_leaves_same_choice:
  "current s = current (stack_shown d sh) \<Longrightarrow>
   shown_leaves c (Stack f r (sh(d \<mapsto> s))) = shown_leaves c (Stack f r sh)"
proof (cases "c = Some d")
  case False
  then show ?thesis by (rule shown_leaves_choice)
qed (simp add: shown_leaves_inner stack_current_index shown_index_def stack_shown_def)

definition reveal_here :: "client_id \<Rightarrow> nat \<Rightarrow> tree \<Rightarrow> tree \<times> bool" where
  "reveal_here c i t =
     (case t of
        Stack f r sh \<Rightarrow>
          (case shown_show i (stack_shown c sh) of (s, ch) \<Rightarrow> (Stack f r (sh(c \<mapsto> s)), ch))
      | _ \<Rightarrow> (t, False))"

lemma reveal_along_Cons:
  assumes "get_at (children t) i = Some k" "reveal_here c i t = (t1, ch)" "reveal_along c w k = (k', ch')"
  shows "reveal_along c (i # w) t = (set_child t1 i k', ch \<or> ch')" and "children t1 = children t"
  using assms by (auto simp: reveal_here_def split: tree.splits prod.splits)

lemma reveal_here_others:
  "reveal_here d i t = (t1, ch) \<Longrightarrow> c \<noteq> Some d \<or> \<not> ch \<Longrightarrow> shown_leaves c t1 = shown_leaves c t"
  by (auto simp: reveal_here_def shown_leaves_choice shown_show_def Let_def
      intro: shown_leaves_same_choice split: tree.splits prod.splits if_splits)

lemma reveal_along_others:
  "at_way t w = Some v \<Longrightarrow> reveal_along d w t = (u, ch) \<Longrightarrow> c \<noteq> Some d \<or> \<not> ch \<Longrightarrow>
   shown_leaves c u = shown_leaves c t"
proof (induction w arbitrary: t u ch)
  case (Cons i w)
  then obtain k where k: "get_at (children t) i = Some k" "at_way k w = Some v"
    by (auto split: option.splits)
  obtain t1 ch1 where h: "reveal_here d i t = (t1, ch1)" by fastforce
  obtain k' ch2 where r: "reveal_along d w k = (k', ch2)" by fastforce
  note eq = reveal_along_Cons [OF k(1) h r]
  then have ch: "u = set_child t1 i k'" "ch = (ch1 \<or> ch2)" using Cons.prems(2) by auto
  have "shown_leaves c k' = shown_leaves c k"
    using Cons.IH [OF k(2) r] Cons.prems(3) ch by auto
  then have "shown_leaves c u = shown_leaves c t1"
    using shown_leaves_set_child [of t1 i k] k(1) eq(2) ch by simp
  also have "\<dots> = shown_leaves c t"
    using reveal_here_others [OF h] Cons.prems(3) ch by auto
  finally show ?case .
qed simp

lemma reveal_along_shows:
  "at_way t w = Some (Pane p) \<Longrightarrow> p \<in> set (shown_leaves (Some c) (fst (reveal_along c w t)))"
proof (induction w arbitrary: t)
  case Nil
  then show ?case by (simp add: shown_leaves.simps [of "Some c" "Pane p"])
next
  case (Cons i w)
  then obtain k where k: "get_at (children t) i = Some k" "at_way k w = Some (Pane p)"
    by (auto split: option.splits)
  obtain t1 ch1 where h: "reveal_here c i t = (t1, ch1)" by fastforce
  obtain k' ch2 where r: "reveal_along c w k = (k', ch2)" by fastforce
  note eq = reveal_along_Cons [OF k(1) h r]
  have mem: "p \<in> set (shown_leaves (Some c) k')" using Cons.IH [OF k(2)] r by simp
  have i: "i < length (children t1)" using k(1) eq(2) by (simp add: get_at_Some_iff)
  have "k' \<in> set (kids (Some c) (set_child t1 i k'))"
  proof (cases t)
    case (Stack f r' sh)
    then obtain s where t1: "t1 = Stack f r' (sh(c \<mapsto> s))" "current s = i"
      using h by (auto simp: reveal_here_def split: prod.splits dest: arg_cong [where f = "\<lambda>x. current (fst x)"])
    obtain f2 r2 where fr: "(f # r')[i := k'] = f2 # r2" by (cases i) auto
    then have "set_child t1 i k' = Stack f2 r2 (sh(c \<mapsto> s))" and len: "length r2 = length r'"
      using t1 by (cases i; auto)+
    moreover have "(f2 # r2) ! i = k'"
      using i t1 nth_list_update_eq [of i "f # r'" k'] unfolding fr by simp
    ultimately show ?thesis
      using t1 i by (simp add: stack_current_index shown_index_def stack_shown_def)
  qed (use h i in \<open>auto simp: reveal_here_def less_Suc_eq\<close>)
  moreover have "pane_of (set_child t1 i k') = None"
    using i by (auto simp: pane_of_None_iff children_set_child)
  ultimately show ?case using mem eq(1) by (auto simp: shown_leaves_inner)
qed

text \<open>
  After \<open>Tree::reveal\<close> the client is shown the pane, if the tree holds it;
  the tree's panes and what every other client is shown are as they were; and
  where it says nothing changed, what the client is shown is as it was too.
\<close>

lemma reveal_shows:
  assumes "tree_reveal c p t = (u, changed)"
  shows "(p \<in> set (panes t) \<longrightarrow> p \<in> set (shown_panes c u))
    \<and> panes u = panes t
    \<and> (\<forall>d. d \<noteq> c \<or> \<not> changed \<longrightarrow> shown_panes d u = shown_panes d t)"
proof (rule way_cases [of p t])
  assume "way_to p t = None" "p \<notin> set (leaves t)"
  then show ?thesis using assms by (simp add: tree_reveal_def way_way_to)
next
  fix w assume w: "way_to p t = Some w" "at_way t w = Some (Pane p)"
  then have r: "reveal_along c w t = (u, changed)"
    using assms by (simp add: tree_reveal_def way_way_to)
  have "shown_leaves None u = shown_leaves None t"
    using reveal_along_others [OF w(2) r] by simp
  moreover have "p \<in> set (shown_leaves (Some c) u)"
    using reveal_along_shows [OF w(2), of c] r by simp
  ultimately show ?thesis
    using reveal_along_others [OF w(2) r] by (auto simp: shown_panes_leaves shown_leaves_all)
qed

lemma reveal_shows_witness:
  "tree_reveal 9 2 (Stack (Pane 1) [Pane 2] Map.empty)
     = (Stack (Pane 1) [Pane 2] [9 \<mapsto> \<lparr>current = 1, last_shown = Some 0\<rparr>], True)
   \<and> 2 \<in> set (shown_panes 9 (Stack (Pane 1) [Pane 2] [9 \<mapsto> \<lparr>current = 1, last_shown = Some 0\<rparr>]))"
proof -
  have r: "tree_reveal 9 2 (Stack (Pane 1) [Pane 2] Map.empty)
     = (Stack (Pane 1) [Pane 2] [9 \<mapsto> \<lparr>current = 1, last_shown = Some 0\<rparr>], True)"
    by (simp add: tree_reveal_def way_way_to shown_show_def stack_shown_def shown_on_def Let_def)
  from reveal_shows [OF r] r show ?thesis by simp
qed

end
