(* ===== verification/Layout_Place.thy ===== *)
theory Layout_Place
  imports Layout_Edit_Laws
begin

text \<open>
  Where a layout tree puts its panes (\<open>fux-wire/src/layout.rs\<close>): the least
  length of each node, worked out from the leaves up with a stack of its own
  (\<open>least\<close>), how a split divides its room (\<open>split_lengths\<close>, \<open>split_parts\<close>),
  and the loop that places every node (\<open>place_loop\<close>).  The specifications are
  structural: \<open>min_of\<close>, \<open>splits_of\<close> and \<open>placed\<close>.
\<close>

section \<open>The least lengths\<close>

fun splits_along :: "axis \<Rightarrow> tree \<Rightarrow> bool" where
  "splits_along ax (Split a _ _ _) = (a = ax)"
| "splits_along ax (Pane _) = False"
| "splits_along ax (Stack _ _ _) = False"

text \<open>
  One node of \<open>Tree::least\<close>, met after all under it: \<open>dn\<close> holds the least of
  each subtree done whose parent is not yet, the last done first; \<open>sp\<close> those
  of the children of each split along the axis.  The children's least are the
  top of \<open>dn\<close>, in the order of the code's vector the last child's first.
\<close>

definition least_step :: "axis \<Rightarrow> nat list \<times> (nat \<times> nat) list \<Rightarrow> tree \<Rightarrow> nat list \<times> (nat \<times> nat) list" where
  "least_step ax st t =
     (case st of (dn, sp) \<Rightarrow>
      let n = length (children t);
          ks = rev (take n dn);
          along = splits_along ax t;
          sp' = (case (along, ks) of (True, [second, first]) \<Rightarrow> (first, second) # sp | _ \<Rightarrow> sp);
          m = reduce (\<lambda>a b. if along then sat16 (sat16 a 1) b else max a b) ks
      in ((case m of Some k \<Rightarrow> k | None \<Rightarrow> MIN_LEN) # drop n dn, sp'))"

definition least :: "axis \<Rightarrow> tree \<Rightarrow> nat \<times> (nat \<times> nat) list" where
  "least ax t =
     (case foldl (least_step ax) ([], []) (rev (walk_items None t)) of
        (dn, sp) \<Rightarrow> ((case dn of m # _ \<Rightarrow> m | [] \<Rightarrow> MIN_LEN), sp))"

definition min_len :: "tree \<Rightarrow> axis \<Rightarrow> nat" where
  "min_len t ax = fst (least ax t)"

text \<open>The specification: a split along the axis needs both children and a separator.\<close>

fun min_of :: "axis \<Rightarrow> tree \<Rightarrow> nat" where
  "min_of ax (Pane _) = MIN_LEN"
| "min_of ax (Split a _ x y) =
     (if a = ax then min (min_of ax x + 1 + min_of ax y) u16_max else max (min_of ax x) (min_of ax y))"
| "min_of ax (Stack f r _) = foldr max (map (min_of ax) r) (min_of ax f)"

fun splits_of :: "axis \<Rightarrow> tree \<Rightarrow> (nat \<times> nat) list" where
  "splits_of ax (Pane _) = []"
| "splits_of ax (Split a _ x y) =
     (if a = ax then [(min_of ax x, min_of ax y)] else []) @ splits_of ax x @ splits_of ax y"
| "splits_of ax (Stack f r _) = splits_of ax f @ concat (map (splits_of ax) r)"

lemma reduce_max_rev: "reduce max (rev (x # xs)) = Some (foldr max xs (x :: nat))"
proof (cases "rev xs")
  case Nil
  then show ?thesis by simp
next
  case (Cons y ys)
  have "set xs = insert y (set ys)" by (metis Cons list.simps(15) set_rev)
  then have "foldl max y (ys @ [x]) = foldr max xs x"
    unfolding foldl_max foldr_max by (simp add: insert_commute)
  then show ?thesis using Cons by simp
qed

lemma least_step_at:
  "least_step ax (map (min_of ax) (children t) @ dn, concat (map (splits_of ax) (children t)) @ sp) t
   = (min_of ax t # dn, splits_of ax t @ sp)"
proof (cases t)
  case (Stack f r sh)
  have "reduce (\<lambda>a b. max a b) (rev (map (min_of ax) (f # r))) = Some (min_of ax t)"
    using reduce_max_rev [of "min_of ax f" "map (min_of ax) r"] Stack by simp
  then show ?thesis
    using Stack by (simp add: least_step_def Let_def split: list.splits)
qed (auto simp: least_step_def Let_def sat16_three_Suc max.commute add.commute)

lemma least_fold:
  "foldl (least_step ax) (dn, sp) (rev (preorder None t)) = (min_of ax t # dn, splits_of ax t @ sp)"
proof (induction t arbitrary: dn sp rule: tree_children_induct)
  case (node t)
  have "foldl (least_step ax) (dn, sp) (rev (concat (map (preorder None) ks)))
      = (map (min_of ax) ks @ dn, concat (map (splits_of ax) ks) @ sp)"
    if "set ks \<subseteq> set (children t)" for ks
    using that by (induction ks) (auto simp: node)
  then show ?case
    by (simp add: preorder.simps [of None t] least_step_at)
qed

lemma least_eq: "least ax t = (min_of ax t, splits_of ax t)"
  by (simp add: least_def walk_items_preorder least_fold)

lemma min_len_eq [simp]: "min_len t ax = min_of ax t"
  by (simp add: min_len_def least_eq)

lemma min_of_ge: "MIN_LEN \<le> min_of ax t"
proof (induction t)
  case (Stack f r sh)
  then show ?case by (auto simp: foldr_max intro: Max_ge_iff [THEN iffD2])
qed (auto simp: MIN_LEN_def u16_max_def)

lemma min_of_le: "min_of ax t \<le> u16_max"
  by (induction t) (auto simp: MIN_LEN_def u16_max_def foldr_max)

lemma min_of_child: "k \<in> set (children t) \<Longrightarrow> min_of ax k \<le> min_of ax t"
  using min_of_le [of ax k] by (cases t) (auto simp: foldr_max)

section \<open>How a split divides its room\<close>

text \<open>The first child's share of the room, rounded half up; exact in the code's u64.\<close>

fun divided :: "shares \<Rightarrow> nat \<Rightarrow> nat" where
  "divided (Shares a b) room = (let whole = a + b in (room * a * 2 + whole) div (whole * 2))"

definition split_lengths :: "shares \<Rightarrow> nat \<Rightarrow> nat \<times> nat \<Rightarrow> nat \<times> nat" where
  "split_lengths sh len mins =
     (case mins of (min1, min2) \<Rightarrow>
      if 1 \<le> len \<and> sat16 min1 min2 \<le> len - 1
      then (let room = len - 1;
                first = divided sh room;
                most = room - min2;
                first' = clamp_between min1 most (if first \<le> u16_max then first else most)
            in (first', room - first'))
      else if min1 \<le> len then (len, 0) else (0, 0))"

definition split_parts :: "axis \<Rightarrow> shares \<Rightarrow> rect \<Rightarrow> nat \<times> nat \<Rightarrow> rect \<times> rect \<times> rect" where
  "split_parts ax sh area mins =
     (let (a, b) = split_lengths sh (rect_len area ax) mins;
          (first, rest) = rect_split area ax a;
          (line, rest) = rect_split rest ax (if 0 < b then 1 else 0);
          (second, _) = rect_split rest ax b
      in (first, line, second))"

text \<open>\<open>Split::least\<close>.\<close>

definition split_least :: "axis \<Rightarrow> tree \<Rightarrow> tree \<Rightarrow> nat \<times> nat" where
  "split_least ax a b = (min_len a ax, min_len b ax)"

lemma split_lengths_room:
  assumes "min1 + 1 + min2 \<le> len" "len \<le> u16_max"
  shows "case split_lengths sh len (min1, min2) of
           (l1, l2) \<Rightarrow> min1 \<le> l1 \<and> min2 \<le> l2 \<and> l1 + 1 + l2 = len"
proof -
  let ?most = "len - 1 - min2"
  let ?g = "if divided sh (len - 1) \<le> u16_max then divided sh (len - 1) else ?most"
  have s: "sat16 min1 min2 = min1 + min2" using assms by (auto intro: sat16_exact)
  define f where "f = clamp_between min1 ?most ?g"
  have "min1 \<le> ?most" using assms by simp
  from clamp_between_bounds [OF this, of ?g] have f: "min1 \<le> f" "f \<le> ?most"
    by (simp_all add: f_def)
  have "split_lengths sh len (min1, min2) = (f, len - 1 - f)"
    using assms(1) s unfolding split_lengths_def f_def Let_def
    by (simp only: prod.case s if_True) auto
  then show ?thesis using f assms by simp
qed

lemma split_lengths_short:
  assumes "len < min1 + 1 + min2" "len \<le> u16_max"
  shows "split_lengths sh len (min1, min2) = (if min1 \<le> len then (len, 0) else (0, 0))"
  using assms by (auto simp: split_lengths_def sat16_def)

lemma split_lengths_le: "len \<le> u16_max \<Longrightarrow> case split_lengths sh len m of (l1, l2) \<Rightarrow> l1 \<le> len \<and> l2 \<le> len"
  by (cases m; cases "fst m + 1 + snd m \<le> len")
    (use split_lengths_room [of "fst m" "snd m" len sh] split_lengths_short [of len "fst m" "snd m" sh]
     in auto)

text \<open>
  How \<open>Split::lengths\<close> divides a length with room for both children's least
  and the separator: each child has its least, and the two and the separator
  have exactly the whole.
\<close>

lemma lengths_share_exactly:
  assumes "min1 + 1 + min2 \<le> len" "len \<le> u16_max"
  shows "case split_lengths sh len (min1, min2) of
           (l1, l2) \<Rightarrow> min1 \<le> l1 \<and> min2 \<le> l2 \<and> l1 + 1 + l2 = len"
  using split_lengths_room [OF assms] .

lemma lengths_share_exactly_witness:
  "(2 :: nat) + 1 + 2 \<le> 80 \<and> (80 :: nat) \<le> u16_max
   \<and> (case split_lengths HALVED 80 (2, 2) of (l1, l2) \<Rightarrow> l1 + 1 + l2 = 80 \<and> l1 = 40 \<and> l2 = 39)"
proof -
  have h: "(2 :: nat) + 1 + 2 \<le> 80" "(80 :: nat) \<le> u16_max" by (simp_all add: u16_max_def)
  have "split_lengths HALVED 80 (2, 2) = (40, 39)"
    by (simp add: split_lengths_def HALVED_def sat16_def u16_max_def clamp_between_def Let_def)
  with lengths_share_exactly [OF h, of HALVED] h show ?thesis by simp
qed

text \<open>The shares a border's move sets give back, in the same length, the cells they were set from.\<close>

lemma shares_of_lengths:
  assumes "1 \<le> n1" "1 \<le> n2" "min1 \<le> n1" "min2 \<le> n2" "n1 + 1 + n2 \<le> u16_max"
  shows "split_lengths (shares_of n1 n2) (n1 + 1 + n2) (min1, min2) = (n1, n2)"
proof -
  define g where "g = gcd n1 n2"
  have g: "0 < g" using assms by (simp add: g_def)
  define a b where "a = n1 div g" and "b = n2 div g"
  have ab: "n1 = g * a" "n2 = g * b" by (simp_all add: a_def b_def g_def)
  have sh: "shares_of n1 n2 = Shares a b"
    using assms by (simp add: shares_of_def shares_new_eq a_def b_def g_def)
  have pos: "0 < a + b" using ab assms by (metis add_gr_0 gr0I mult_is_0 not_one_le_zero)
  define w where "w = a + b"
  have "(n1 + n2) * a * 2 + w = w + n1 * (w * 2)"
    by (simp add: ab w_def algebra_simps)
  then have "divided (Shares a b) (n1 + n2) = (w + n1 * (w * 2)) div (w * 2)"
    unfolding divided.simps Let_def w_def [symmetric] by (simp only:)
  also have "\<dots> = n1"
    using pos [folded w_def] div_mult_self1 [of "w * 2" w n1] by simp
  finally have "divided (Shares a b) (n1 + n2) = n1" .
  moreover have "sat16 min1 min2 \<le> n1 + n2" using assms by (simp add: sat16_def)
  moreover have "clamp_between min1 (n1 + n2 - min2) n1 = n1"
    using assms by (intro clamp_between_id) auto
  ultimately show ?thesis
    using assms by (simp add: split_lengths_def sh Let_def)
qed

section \<open>Placing a tree\<close>

record separator =
  sep_axis :: axis
  sep_rect :: rect

record placement =
  placed_panes :: "(pane_id \<times> rect) list"
  separators :: "separator list"

definition placement_empty :: placement where
  "placement_empty = \<lparr>placed_panes = [], separators = []\<rparr>"

text \<open>\<open>Placement::rect\<close>.\<close>

definition placement_rect :: "placement \<Rightarrow> pane_id \<Rightarrow> rect option" where
  "placement_rect pl p = map_option snd (List.find (\<lambda>(q, _). q = p) (placed_panes pl))"

datatype next_item = Place tree rect | Line separator

text \<open>What the loop keeps: the least of the splits still to be met along each axis, and what is placed.\<close>

record place_state =
  wide :: "(nat \<times> nat) list"
  tall :: "(nat \<times> nat) list"
  out :: placement

definition out_pane :: "pane_id \<Rightarrow> rect \<Rightarrow> place_state \<Rightarrow> place_state" where
  "out_pane p r s = s\<lparr>out := (out s)\<lparr>placed_panes := placed_panes (out s) @ [(p, r)]\<rparr>\<rparr>"

definition out_line :: "separator \<Rightarrow> place_state \<Rightarrow> place_state" where
  "out_line l s = s\<lparr>out := (out s)\<lparr>separators := separators (out s) @ [l]\<rparr>\<rparr>"

definition pop_least :: "axis \<Rightarrow> place_state \<Rightarrow> (nat \<times> nat) \<times> place_state" where
  "pop_least ax s =
     (let xs = (case ax of Horizontal \<Rightarrow> wide s | Vertical \<Rightarrow> tall s);
          mins = (case xs of [] \<Rightarrow> (MIN_LEN, MIN_LEN) | m # _ \<Rightarrow> m)
      in (mins, case ax of Horizontal \<Rightarrow> s\<lparr>wide := tl xs\<rparr> | Vertical \<Rightarrow> s\<lparr>tall := tl xs\<rparr>))"

text \<open>
  The area each child of a stack is placed on: the whole for every child, or,
  for a client, for the one it is shown alone, the others on an empty
  rectangle (the code compares addresses, which here are indices).
\<close>

definition stack_areas :: "client_id option \<Rightarrow> rect \<Rightarrow> tree \<Rightarrow> tree list \<Rightarrow> (client_id \<rightharpoonup> nat shown) \<Rightarrow> next_item list" where
  "stack_areas c area f r sh =
     map (\<lambda>(i, k). Place k
            (case c of None \<Rightarrow> area
             | Some d \<Rightarrow> if i = shown_index d (Suc (length r)) sh then area else rect_default))
       (enumerate 0 (f # r))"

fun place_step :: "client_id option \<Rightarrow> place_state \<Rightarrow> next_item \<Rightarrow> place_state \<times> next_item list" where
  "place_step c s (Line l) = (out_line l s, [])"
| "place_step c s (Place (Pane p) area) =
     (if rect_is_empty area then (s, []) else (out_pane p area s, []))"
| "place_step c s (Place (Split ax sh a b) area) =
     (let (mins, s') = pop_least ax s;
          (first, line, second) = split_parts ax sh area mins
      in (s', [Place a first]
              @ (if rect_is_empty line then [] else [Line \<lparr>sep_axis = ax, sep_rect = line\<rparr>])
              @ [Place b second]))"
| "place_step c s (Place (Stack f r sh) area) = (s, stack_areas c area f r sh)"

fun item_weight :: "next_item \<Rightarrow> nat" where
  "item_weight (Line _) = 1"
| "item_weight (Place t _) = 2 * tree_nodes t"

lemma stack_areas_weight:
  "sum_list (map item_weight (stack_areas c area f r sh)) = 2 * sum_list (map tree_nodes (f # r))"
proof -
  have "map item_weight (map (\<lambda>(i, k). Place k (g i)) (enumerate n ks)) = map (\<lambda>k. 2 * tree_nodes k) ks"
    for g n ks by (induction ks arbitrary: n) auto
  then show ?thesis by (simp only: stack_areas_def sum_list_const_mult)
qed

lemma place_step_smaller:
  "place_step c s x = (s', ys) \<Longrightarrow> sum_list (map item_weight ys) < item_weight x"
  by (cases "(c, s, x)" rule: place_step.cases)
    (auto simp: Let_def stack_areas_weight split: prod.splits if_splits)

function place_loop :: "client_id option \<Rightarrow> place_state \<Rightarrow> next_item list \<Rightarrow> place_state" where
  "place_loop c s [] = s"
| "place_loop c s (x # left) = (case place_step c s x of (s', ys) \<Rightarrow> place_loop c s' (ys @ left))"
  by pat_completeness auto
termination
  by (relation "measure (\<lambda>(c, s, xs). sum_list (map item_weight xs))")
    (auto dest: place_step_smaller [OF sym])

text \<open>\<open>place_tree\<close> into an empty placement, and its two callers.\<close>

definition place_into :: "tree \<Rightarrow> rect \<Rightarrow> client_id option \<Rightarrow> placement" where
  "place_into t area c =
     out (place_loop c
       \<lparr>wide = snd (least Horizontal t), tall = snd (least Vertical t), out = placement_empty\<rparr>
       [Place t area])"

definition place :: "tree \<Rightarrow> rect \<Rightarrow> placement" where
  "place t area = place_into t area None"

definition shows_all :: "tree \<Rightarrow> rect \<Rightarrow> bool" where
  "shows_all t area \<longleftrightarrow>
     (let placed = place t area in \<forall>p \<in> set (panes t). placement_rect placed p \<noteq> None)"

text \<open>The same visit as a recursion on each item pushed.\<close>

lemma place_step_item:
  "place_step c s x = (s', ys) \<Longrightarrow> y \<in> set ys \<Longrightarrow> item_weight y < item_weight x"
  using place_step_smaller [of c s x s' ys] member_le_sum_list [of "item_weight y" "map item_weight ys"]
  by force

function place_visit :: "client_id option \<Rightarrow> place_state \<Rightarrow> next_item \<Rightarrow> place_state" where
  "place_visit c s x = (case place_step c s x of (s', ys) \<Rightarrow> foldl (place_visit c) s' ys)"
  by pat_completeness auto
termination
  by (relation "measure (\<lambda>(c, s, x). item_weight x)") (auto dest: place_step_item [OF sym])

declare place_visit.simps [simp del]

interpretation placing: worklist "place_step c" "place_loop c" "place_visit c" item_weight
  by unfold_locales (auto simp: place_visit.simps dest: place_step_smaller)

section \<open>The specification of a placement\<close>

text \<open>Structurally: a stack's children each on the whole rectangle, or a client's alone.\<close>

fun placed :: "client_id option \<Rightarrow> tree \<Rightarrow> rect \<Rightarrow> (pane_id \<times> rect) list" where
  "placed c (Pane p) area = (if rect_is_empty area then [] else [(p, area)])"
| "placed c (Split ax sh a b) area =
     (case split_parts ax sh area (min_of ax a, min_of ax b) of
        (first, _, second) \<Rightarrow> placed c a first @ placed c b second)"
| "placed c (Stack f r sh) area =
     (case c of
        None \<Rightarrow> placed c f area @ concat (map (\<lambda>k. placed c k area) r)
      | Some d \<Rightarrow> (placed c f area # map (\<lambda>k. placed c k area) r) ! shown_index d (Suc (length r)) sh)"

fun lines :: "client_id option \<Rightarrow> tree \<Rightarrow> rect \<Rightarrow> separator list" where
  "lines c (Pane p) area = []"
| "lines c (Split ax sh a b) area =
     (case split_parts ax sh area (min_of ax a, min_of ax b) of
        (first, line, second) \<Rightarrow>
          lines c a first
          @ (if rect_is_empty line then [] else [\<lparr>sep_axis = ax, sep_rect = line\<rparr>])
          @ lines c b second)"
| "lines c (Stack f r sh) area =
     (case c of
        None \<Rightarrow> lines c f area @ concat (map (\<lambda>k. lines c k area) r)
      | Some d \<Rightarrow> (lines c f area # map (\<lambda>k. lines c k area) r) ! shown_index d (Suc (length r)) sh)"

end
