(* ===== verification/Layout_Place_Laws.thy ===== *)
theory Layout_Place_Laws
  imports Layout_Place
begin

text \<open>
  What a placement is: the placing loop is its structural specification; the
  panes a client is shown and the separators tile the area, none over another
  and no cell left, wherever the area has the tree's least lengths; and every
  pane is then shown, in its least at the least.
\<close>

section \<open>The parts of a split\<close>

lemma parts_across:
  assumes "split_parts ax sh area m = (first, line, second)" "b \<noteq> ax"
  shows "rect_len first b = rect_len area b" "rect_len line b = rect_len area b"
    "rect_len second b = rect_len area b"
  using assms by (auto simp: split_parts_def rect_split_def Let_def split: prod.splits)

lemma parts_along_le:
  assumes "split_parts ax sh area m = (first, line, second)"
  shows "rect_len first ax \<le> rect_len area ax" "rect_len line ax \<le> rect_len area ax"
    "rect_len second ax \<le> rect_len area ax"
  using assms
  by (auto simp: split_parts_def rect_split_def Let_def min.coboundedI2 split: prod.splits)

lemma parts_empty:
  assumes "rect_is_empty area" "split_parts ax sh area m = (first, line, second)"
  shows "rect_is_empty first" "rect_is_empty line" "rect_is_empty second"
proof -
  from assms(1) obtain b where b: "rect_len area b = 0" by (auto simp: rect_is_empty_iff)
  have "rect_len first b = 0 \<and> rect_len line b = 0 \<and> rect_len second b = 0"
    using parts_across [OF assms(2), of b] parts_along_le [OF assms(2)] b by (cases "b = ax") auto
  then show "rect_is_empty first" "rect_is_empty line" "rect_is_empty second"
    by (auto simp: rect_is_empty_iff)
qed

lemma placed_empty: "rect_is_empty area \<Longrightarrow> placed c t area = [] \<and> lines c t area = []"
proof (induction t arbitrary: area)
  case (Split ax sh a b)
  obtain first line second where p: "split_parts ax sh area (min_of ax a, min_of ax b) = (first, line, second)"
    by (metis prod_cases3)
  then show ?case using Split.IH parts_empty [OF Split.prems p] by simp
next
  case (Stack f r sh)
  have "(placed c f area # map (\<lambda>k. placed c k area) r) ! j = [] \<and> (lines c f area # map (\<lambda>k. lines c k area) r) ! j = []"
    if "j < Suc (length r)" for j
    using that Stack by (cases j) auto
  moreover have "shown_index d (Suc (length r)) sh < Suc (length r)" for d
    by (simp add: shown_index_def Let_def)
  ultimately show ?case using Stack by (auto split: option.splits)
qed simp

section \<open>The loop is the specification\<close>

definition mk_state :: "(nat \<times> nat) list \<Rightarrow> (nat \<times> nat) list \<Rightarrow> (pane_id \<times> rect) list \<Rightarrow> separator list \<Rightarrow> place_state" where
  "mk_state w v ps ls = \<lparr>wide = w, tall = v, out = \<lparr>placed_panes = ps, separators = ls\<rparr>\<rparr>"

lemma mk_state_ops:
  "out_pane p r (mk_state w v ps ls) = mk_state w v (ps @ [(p, r)]) ls"
  "out_line l (mk_state w v ps ls) = mk_state w v ps (ls @ [l])"
  "pop_least Horizontal (mk_state (m # w) v ps ls) = (m, mk_state w v ps ls)"
  "pop_least Vertical (mk_state w (m # v) ps ls) = (m, mk_state w v ps ls)"
  by (simp_all add: mk_state_def out_pane_def out_line_def pop_least_def Let_def)

lemma pop_least_split:
  "pop_least ax (mk_state (splits_of Horizontal (Split ax sh a b) @ w) (splits_of Vertical (Split ax sh a b) @ v) ps ls)
   = ((min_of ax a, min_of ax b),
      mk_state (splits_of Horizontal a @ splits_of Horizontal b @ w) (splits_of Vertical a @ splits_of Vertical b @ v) ps ls)"
  by (cases ax) (simp_all add: mk_state_ops)

lemma visit_line: "place_visit c s (Line l) = out_line l s"
  by (simp add: place_visit.simps [of c s "Line l"])

lemma concat_one:
  "concat (map (\<lambda>(i, k). if i = n + j then g k else []) (enumerate n ks)) = (if j < length ks then g (ks ! j) else [])"
proof (induction ks arbitrary: n j)
  case (Cons k ks)
  show ?case
  proof (cases j)
    case 0
    have "map (\<lambda>(i, k). if i = n then g k else []) (enumerate (Suc n) ks) = map (\<lambda>_. []) (enumerate (Suc n) ks)"
      by (rule map_cong) (auto simp: in_set_enumerate_eq)
    then show ?thesis using 0 by (simp add: concat_eq_Nil_conv)
  next
    case (Suc j')
    then show ?thesis using Cons.IH [of "Suc n" j'] by simp
  qed
qed simp

lemma visit_tree:
  "place_visit c (mk_state (splits_of Horizontal t @ w) (splits_of Vertical t @ v) ps ls) (Place t area)
   = mk_state w v (ps @ placed c t area) (ls @ lines c t area)"
proof (induction t arbitrary: w v ps ls area)
  case (Pane p)
  then show ?case by (simp add: place_visit.simps [of c _ "Place (Pane p) area"] mk_state_ops)
next
  case (Split ax sh a b)
  obtain first line second where p: "split_parts ax sh area (min_of ax a, min_of ax b) = (first, line, second)"
    by (metis prod_cases3)
  show ?case
    using p by (simp add: place_visit.simps [of c _ "Place (Split ax sh a b) area"] pop_least_split
        Split.IH visit_line mk_state_ops del: splits_of.simps)
next
  case (Stack f r sh)
  have many: "foldl (place_visit c)
        (mk_state (concat (map (splits_of Horizontal) ks) @ w) (concat (map (splits_of Vertical) ks) @ v) ps ls)
        (map (\<lambda>(i, k). Place k (g i)) (enumerate n ks))
      = mk_state w v (ps @ concat (map (\<lambda>(i, k). placed c k (g i)) (enumerate n ks)))
          (ls @ concat (map (\<lambda>(i, k). lines c k (g i)) (enumerate n ks)))"
    if "set ks \<subseteq> set (f # r)" for ks g n ps ls w v
    using that
  proof (induction ks arbitrary: n ps ls)
    case (Cons k ks)
    have "place_visit c (mk_state (splits_of Horizontal k @ w') (splits_of Vertical k @ v') ps ls) (Place k (g n))
        = mk_state w' v' (ps @ placed c k (g n)) (ls @ lines c k (g n))" for w' v'
      using Stack.IH Cons.prems by auto
    then show ?case using Cons by simp
  qed simp
  let ?j = "\<lambda>d. shown_index d (Suc (length r)) sh"
  have j: "?j d < length (f # r)" for d by (simp add: shown_index_def Let_def)
  have pick: "concat (map (\<lambda>(i, k). G k (if i = ?j d then area else rect_default)) (enumerate 0 (f # r)))
      = G ((f # r) ! ?j d) area" if "\<And>k. G k rect_default = []" for d and G :: "tree \<Rightarrow> rect \<Rightarrow> 'x list"
  proof -
    have "(\<lambda>(i, k). G k (if i = ?j d then area else rect_default)) = (\<lambda>(i, k). if i = 0 + ?j d then G k area else [])"
      using that by auto
    then show ?thesis using concat_one [of 0 "?j d" "\<lambda>k. G k area" "f # r"] j [of d] by simp
  qed
  have all: "concat (map (\<lambda>(i, k). G k area) (enumerate 0 ks)) = concat (map (\<lambda>k. G k area) ks)"
    for ks and G :: "tree \<Rightarrow> rect \<Rightarrow> 'x list"
    by (simp add: case_prod_unfold flip: map_map [of "\<lambda>k. G k area" snd, unfolded comp_def])
  have empty: "rect_is_empty rect_default" by (simp add: rect_is_empty_def rect_default_def)
  have nth: "(h f # map h r) ! ?j d = h ((f # r) ! ?j d)" for h :: "tree \<Rightarrow> 'y" and d
    using nth_map [OF j, of h d] by simp
  show ?case
  proof (cases c)
    case None
    then show ?thesis
      using many [of "f # r" w v ps ls "\<lambda>_. area" 0]
      by (simp add: place_visit.simps [of _ _ "Place (Stack f r sh) area"] stack_areas_def
          del: enumerate_simps)
        (simp add: all del: enumerate_simps)
  next
    case (Some d)
    have "placed c k rect_default = []" "lines c k rect_default = []" for k
      using placed_empty [OF empty, of c k] by simp_all
    then show ?thesis
      using Some many [of "f # r" w v ps ls "\<lambda>i. if i = ?j d then area else rect_default" 0]
        pick [of "placed c" d] pick [of "lines c" d]
        nth [of "\<lambda>k. placed (Some d) k area" d] nth [of "\<lambda>k. lines (Some d) k area" d]
      by (simp add: place_visit.simps [of _ _ "Place (Stack f r sh) area"] stack_areas_def
          del: enumerate_simps)
  qed
qed

lemma placing_eq:
  "placed_panes (place_into t area c) = placed c t area" "separators (place_into t area c) = lines c t area"
proof -
  have "place_loop c (mk_state (splits_of Horizontal t @ []) (splits_of Vertical t @ []) [] []) [Place t area]
      = mk_state [] [] (placed c t area) (lines c t area)"
    by (simp only: placing.loop_visits foldl.simps visit_tree append_Nil)
  then show "placed_panes (place_into t area c) = placed c t area" "separators (place_into t area c) = lines c t area"
    by (simp_all add: place_into_def least_eq mk_state_def placement_empty_def)
qed

text \<open>
  C12: The placing loop, with its own stack of what is left and the least of
  each split taken from two lists worked out beforehand, places exactly what
  the structural reading of the tree does: every split's parts placed in turn,
  every child of a stack on its whole rectangle, or, for a client, the one it
  is shown alone.
\<close>

theorem place_into_placed:
  "place_into t area c = \<lparr>placed_panes = placed c t area, separators = lines c t area\<rparr>"
  by (simp add: placing_eq placement.equality)

section \<open>Cells\<close>

fun coord :: "axis \<Rightarrow> nat \<times> nat \<Rightarrow> nat" where
  "coord Horizontal p = snd p"
| "coord Vertical p = fst p"

lemma cells_coord:
  "p \<in> cells r \<longleftrightarrow> (\<forall>ax. rect_start r ax \<le> coord ax p \<and> coord ax p < rect_start r ax + rect_len r ax)"
  by (cases p) (auto simp: cells_def all_axis)

text \<open>The cells of a part along an axis.\<close>

lemma cells_along:
  "p \<in> cells (rect_along r ax s n) \<longleftrightarrow>
   (s \<le> coord ax p \<and> coord ax p < s + n)
   \<and> (rect_start r (other_axis ax) \<le> coord (other_axis ax) p
      \<and> coord (other_axis ax) p < rect_start r (other_axis ax) + rect_len r (other_axis ax))"
  by (cases ax) (auto simp: cells_coord all_axis)

lemma cells_self:
  "p \<in> cells r \<longleftrightarrow>
   (rect_start r ax \<le> coord ax p \<and> coord ax p < rect_start r ax + rect_len r ax)
   \<and> (rect_start r (other_axis ax) \<le> coord (other_axis ax) p
      \<and> coord (other_axis ax) p < rect_start r (other_axis ax) + rect_len r (other_axis ax))"
  using cells_along [of p r ax "rect_start r ax" "rect_len r ax"] by simp

lemma parts_eq:
  assumes ok: "rect_ok area" and m: "MIN_LEN \<le> m1" "MIN_LEN \<le> m2"
  obtains l1 l2 u where "split_lengths sh (rect_len area ax) (m1, m2) = (l1, l2)"
    "split_parts ax sh area (m1, m2) =
       (rect_along area ax (rect_start area ax) l1,
        rect_along area ax (rect_start area ax + l1) u,
        rect_along area ax (rect_start area ax + l1 + u) l2)"
    "l1 + u + l2 \<le> rect_len area ax" "u = (if 0 < l2 then 1 else 0)"
    "m1 + 1 + m2 \<le> rect_len area ax \<Longrightarrow> l1 + u + l2 = rect_len area ax \<and> m1 \<le> l1 \<and> m2 \<le> l2"
proof -
  let ?len = "rect_len area ax" and ?s = "rect_start area ax"
  obtain l1 l2 where l: "split_lengths sh ?len (m1, m2) = (l1, l2)" by fastforce
  define u :: nat where "u = (if 0 < l2 then 1 else 0)"
  have len: "?len \<le> u16_max" by (rule rect_ok_len [OF ok])
  have room: "m1 + 1 + m2 \<le> ?len \<Longrightarrow> l1 + u + l2 = ?len \<and> m1 \<le> l1 \<and> m2 \<le> l2"
    using split_lengths_room [of m1 m2 ?len sh] l len m by (auto simp: u_def MIN_LEN_def)
  have sum: "l1 + u + l2 \<le> ?len"
  proof (cases "m1 + 1 + m2 \<le> ?len")
    case False
    then show ?thesis
      using split_lengths_short [of ?len m1 m2 sh] l len by (auto simp: u_def split: if_splits)
  qed (use room in simp)
  have sl: "?s + ?len \<le> u16_max" using ok by (simp add: rect_ok_start_len)
  have r1: "rect_split area ax l1 = (rect_along area ax ?s l1, rect_along area ax (?s + l1) (?len - l1))"
    using sum by (intro rect_split_eq [OF ok]) simp
  let ?r = "rect_along area ax (?s + l1) (?len - l1)"
  have ok1: "rect_ok ?r" using sum sl by (intro rect_along_ok [OF ok]) simp
  have r2: "rect_split ?r ax u = (rect_along area ax (?s + l1) u, rect_along area ax (?s + l1 + u) (?len - l1 - u))"
    using rect_split_eq [OF ok1, of u ax] sum by simp
  let ?r' = "rect_along area ax (?s + l1 + u) (?len - l1 - u)"
  have ok2: "rect_ok ?r'" using sum sl by (intro rect_along_ok [OF ok]) simp
  have r3: "fst (rect_split ?r' ax l2) = rect_along area ax (?s + l1 + u) l2"
    using rect_split_eq [OF ok2, of l2 ax] sum by simp
  have "split_parts ax sh area (m1, m2) =
       (rect_along area ax ?s l1, rect_along area ax (?s + l1) u, rect_along area ax (?s + l1 + u) l2)"
    using l r1 r2 r3 by (simp add: split_parts_def u_def case_prod_unfold Let_def)
  with l sum room show ?thesis by (intro that [of l1 l2 u]) (simp_all add: u_def)
qed

lemma parts_ok:
  assumes "rect_ok area" "MIN_LEN \<le> m1" "MIN_LEN \<le> m2"
    and p: "split_parts ax sh area (m1, m2) = (first, line, second)"
  shows "rect_ok first" "rect_ok line" "rect_ok second"
proof -
  obtain l1 l2 u where eq: "split_parts ax sh area (m1, m2) =
       (rect_along area ax (rect_start area ax) l1,
        rect_along area ax (rect_start area ax + l1) u,
        rect_along area ax (rect_start area ax + l1 + u) l2)" and sum: "l1 + u + l2 \<le> rect_len area ax"
    using parts_eq [OF assms(1-3), of sh ax] by metis
  have "rect_start area ax + rect_len area ax \<le> u16_max" using assms(1) by (simp add: rect_ok_start_len)
  then show "rect_ok first" "rect_ok line" "rect_ok second"
    using eq sum p by (auto intro!: rect_along_ok [OF assms(1)])
qed

lemma parts_cells:
  assumes "rect_ok area" "MIN_LEN \<le> m1" "MIN_LEN \<le> m2"
    and p: "split_parts ax sh area (m1, m2) = (first, line, second)"
  shows "cells first \<union> cells line \<union> cells second \<subseteq> cells area"
    and "cells first \<inter> cells line = {}" "cells first \<inter> cells second = {}" "cells line \<inter> cells second = {}"
    and "m1 + 1 + m2 \<le> rect_len area ax \<Longrightarrow> cells first \<union> cells line \<union> cells second = cells area"
proof -
  obtain l1 l2 u where eq: "split_parts ax sh area (m1, m2) =
       (rect_along area ax (rect_start area ax) l1,
        rect_along area ax (rect_start area ax + l1) u,
        rect_along area ax (rect_start area ax + l1 + u) l2)" and sum: "l1 + u + l2 \<le> rect_len area ax"
    and room: "m1 + 1 + m2 \<le> rect_len area ax \<Longrightarrow> l1 + u + l2 = rect_len area ax"
    using parts_eq [OF assms(1-3), of sh ax] by metis
  note c = cells_self [of _ area ax] cells_along
  have f: "first = rect_along area ax (rect_start area ax) l1"
    "line = rect_along area ax (rect_start area ax + l1) u"
    "second = rect_along area ax (rect_start area ax + l1 + u) l2" using eq p by auto
  show "cells first \<union> cells line \<union> cells second \<subseteq> cells area"
    using sum by (auto simp: f c)
  show "cells first \<inter> cells line = {}" "cells first \<inter> cells second = {}" "cells line \<inter> cells second = {}"
    by (auto simp: f c)
  show "cells first \<union> cells line \<union> cells second = cells area" if "m1 + 1 + m2 \<le> rect_len area ax"
    using room [OF that] by (auto simp: f c)
qed

section \<open>Tiling\<close>

definition regions :: "client_id option \<Rightarrow> tree \<Rightarrow> rect \<Rightarrow> rect list" where
  "regions c t area = map snd (placed c t area) @ map sep_rect (lines c t area)"

definition apart :: "rect \<Rightarrow> rect \<Rightarrow> bool" where
  "apart r s \<longleftrightarrow> cells r \<inter> cells s = {}"

definition covered :: "client_id option \<Rightarrow> tree \<Rightarrow> rect \<Rightarrow> (nat \<times> nat) set" where
  "covered c t area = (\<Union>r \<in> set (regions c t area). cells r)"

lemma regions_Split:
  assumes "split_parts ax sh area (min_of ax a, min_of ax b) = (first, line, second)"
  shows "set (regions c (Split ax sh a b) area)
     = set (regions c a first) \<union> (if rect_is_empty line then {} else {line}) \<union> set (regions c b second)"
  using assms by (auto simp: regions_def)

lemma shown_child:
  obtains k where "k \<in> set (f # r)"
    "\<And>area. placed (Some d) (Stack f r sh) area = placed (Some d) k area"
    "\<And>area. lines (Some d) (Stack f r sh) area = lines (Some d) k area"
    "shown_leaves (Some d) (Stack f r sh) = shown_leaves (Some d) k"
proof -
  let ?j = "shown_index d (Suc (length r)) sh"
  have j: "?j < length (f # r)" by (simp add: shown_index_def Let_def)
  have nth: "(h f # map h r) ! ?j = h ((f # r) ! ?j)" for h :: "tree \<Rightarrow> 'y"
    using nth_map [OF j, of h] by simp
  show ?thesis
  proof (rule that [of "(f # r) ! ?j"])
    show "(f # r) ! ?j \<in> set (f # r)" using j by (rule nth_mem)
    show "placed (Some d) (Stack f r sh) area = placed (Some d) ((f # r) ! ?j) area" for area
      using nth [of "\<lambda>k. placed (Some d) k area"] by simp
    show "lines (Some d) (Stack f r sh) area = lines (Some d) ((f # r) ! ?j) area" for area
      using nth [of "\<lambda>k. lines (Some d) k area"] by simp
    show "shown_leaves (Some d) (Stack f r sh) = shown_leaves (Some d) ((f # r) ! ?j)"
      by (simp add: shown_leaves_inner stack_current_index)
  qed
qed

lemma regions_within:
  "rect_ok area \<Longrightarrow> r \<in> set (regions c t area) \<Longrightarrow> rect_ok r \<and> cells r \<noteq> {} \<and> cells r \<subseteq> cells area"
proof (induction t arbitrary: area)
  case (Pane p)
  then show ?case by (auto simp: regions_def rect_is_empty_cells split: if_splits)
next
  case (Split ax sh a b)
  obtain first line second where p: "split_parts ax sh area (min_of ax a, min_of ax b) = (first, line, second)"
    by (metis prod_cases3)
  note parts = parts_ok [OF Split.prems(1) min_of_ge min_of_ge p] parts_cells(1) [OF Split.prems(1) min_of_ge min_of_ge p]
  consider "r \<in> set (regions c a first)" | "r = line" "\<not> rect_is_empty line" | "r \<in> set (regions c b second)"
    using Split.prems(2) by (auto simp: regions_Split [OF p] split: if_splits)
  then show ?case
    using Split.IH(1) [OF parts(1)] Split.IH(2) [OF parts(3)] parts
    by cases (simp_all add: rect_is_empty_cells, blast+)
next
  case (Stack f r' sh)
  show ?case
  proof (cases c)
    case None
    then obtain k where "k \<in> set (f # r')" "r \<in> set (regions c k area)"
      using Stack.prems(2) by (auto simp: regions_def)
    then show ?thesis using Stack by auto
  next
    case (Some d)
    obtain k where k: "k \<in> set (f # r')" "regions (Some d) (Stack f r' sh) area = regions (Some d) k area"
      using shown_child [of f r' d sh] unfolding regions_def by metis
    then show ?thesis using Stack Some by auto
  qed
qed

lemma sorted_wrt_apart_append:
  "sorted_wrt apart (xs @ ys) \<longleftrightarrow>
   sorted_wrt apart xs \<and> sorted_wrt apart ys \<and> (\<forall>x \<in> set xs. \<forall>y \<in> set ys. apart x y)"
  by (simp add: sorted_wrt_append)

lemma apart_sym: "apart r s \<Longrightarrow> apart s r"
  by (auto simp: apart_def)

lemma apart_within: "cells r \<subseteq> A \<Longrightarrow> cells s \<subseteq> B \<Longrightarrow> A \<inter> B = {} \<Longrightarrow> apart r s"
  by (auto simp: apart_def)

lemma apart_interleave:
  assumes "sorted_wrt apart (a1 @ a2)" "sorted_wrt apart (b1 @ b2)" "sorted_wrt apart l"
    and "\<And>r s. r \<in> set (a1 @ a2) \<Longrightarrow> s \<in> set (b1 @ b2) \<Longrightarrow> apart r s"
    and "\<And>r x. r \<in> set (a1 @ a2) \<Longrightarrow> x \<in> set l \<Longrightarrow> apart r x"
    and "\<And>x s. x \<in> set l \<Longrightarrow> s \<in> set (b1 @ b2) \<Longrightarrow> apart x s"
  shows "sorted_wrt apart (a1 @ b1 @ a2 @ l @ b2)"
proof -
  have "apart s r" if "r \<in> set (a1 @ a2)" "s \<in> set (b1 @ b2)" for r s
    using apart_sym [OF assms(4) [OF that]] .
  moreover have "apart s x" if "x \<in> set l" "s \<in> set (b1 @ b2)" for x s
    using apart_sym [OF assms(6) [OF that]] .
  ultimately show ?thesis
    using assms unfolding sorted_wrt_append set_append by (intro conjI ballI) blast+
qed

text \<open>What one client is shown of a tree never overlaps.\<close>

lemma regions_apart: "rect_ok area \<Longrightarrow> sorted_wrt apart (regions (Some d) t area)"
proof (induction t arbitrary: area)
  case (Pane p)
  then show ?case by (simp add: regions_def)
next
  case (Split ax sh a b)
  obtain first line second where p: "split_parts ax sh area (min_of ax a, min_of ax b) = (first, line, second)"
    by (metis prod_cases3)
  note ok = parts_ok [OF Split.prems min_of_ge min_of_ge p]
  note cells = parts_cells [OF Split.prems min_of_ge min_of_ge p]
  let ?l = "if rect_is_empty line then [] else [\<lparr>sep_axis = ax, sep_rect = line\<rparr>]"
  have w1: "r \<in> set (regions (Some d) a first) \<Longrightarrow> cells r \<subseteq> cells first" for r
    using regions_within [OF ok(1)] by blast
  have w2: "r \<in> set (regions (Some d) b second) \<Longrightarrow> cells r \<subseteq> cells second" for r
    using regions_within [OF ok(3)] by blast
  have ab: "apart r s" if "r \<in> set (regions (Some d) a first)" "s \<in> set (regions (Some d) b second)" for r s
    using apart_within [OF w1 [OF that(1)] w2 [OF that(2)]] cells(3) by blast
  have al: "apart r line" if "r \<in> set (regions (Some d) a first)" for r
    using apart_within [OF w1 [OF that] subset_refl] cells(2) by blast
  have lb: "apart line s" if "s \<in> set (regions (Some d) b second)" for s
    using apart_within [OF subset_refl w2 [OF that]] cells(4) by blast
  have "sorted_wrt apart (map snd (placed (Some d) a first) @ map snd (placed (Some d) b second)
      @ map sep_rect (lines (Some d) a first) @ map sep_rect ?l @ map sep_rect (lines (Some d) b second))"
  proof (rule apart_interleave)
    show "sorted_wrt apart (map snd (placed (Some d) a first) @ map sep_rect (lines (Some d) a first))"
      "sorted_wrt apart (map snd (placed (Some d) b second) @ map sep_rect (lines (Some d) b second))"
      using Split.IH(1) [OF ok(1)] Split.IH(2) [OF ok(3)] by (simp_all only: regions_def)
  qed (use ab al lb in \<open>simp_all only: regions_def, auto split: if_splits\<close>)
  then show ?case by (simp add: regions_def p)
next
  case (Stack f r sh)
  obtain k where k: "k \<in> set (f # r)" "regions (Some d) (Stack f r sh) area = regions (Some d) k area"
    using shown_child [of f r d sh] unfolding regions_def by metis
  have "sorted_wrt apart (regions (Some d) k area)"
    using Stack.IH Stack.prems k(1) by auto
  then show ?case by (simp only: k(2))
qed

text \<open>
  An area with room for a tree: its least along each axis.  A least at the
  end of a u16 may be one cut off there (\<open>saturating_add\<close>), so it is excluded.
\<close>

definition fits :: "tree \<Rightarrow> rect \<Rightarrow> bool" where
  "fits t area \<longleftrightarrow> (\<forall>ax. min_of ax t \<le> rect_len area ax \<and> min_of ax t < u16_max)"

lemma fits_child: "fits t area \<Longrightarrow> k \<in> set (children t) \<Longrightarrow> fits k area"
  unfolding fits_def by (meson min_of_child le_less_trans order_trans)

lemma fits_Split:
  assumes "rect_ok area" "fits (Split ax sh a b) area"
    and p: "split_parts ax sh area (min_of ax a, min_of ax b) = (first, line, second)"
  shows "min_of ax a + 1 + min_of ax b \<le> rect_len area ax" "fits a first" "fits b second"
    "rect_len first ax + 1 + rect_len second ax = rect_len area ax" "rect_len line ax = 1"
proof -
  have "min (min_of ax a + 1 + min_of ax b) u16_max \<le> rect_len area ax"
    "min (min_of ax a + 1 + min_of ax b) u16_max < u16_max"
    using assms(2) by (auto simp: fits_def dest: spec [of _ ax])
  then show room: "min_of ax a + 1 + min_of ax b \<le> rect_len area ax" by linarith
  obtain l1 l2 u where eq: "split_parts ax sh area (min_of ax a, min_of ax b) =
       (rect_along area ax (rect_start area ax) l1,
        rect_along area ax (rect_start area ax + l1) u,
        rect_along area ax (rect_start area ax + l1 + u) l2)"
    and l: "l1 + u + l2 = rect_len area ax" "min_of ax a \<le> l1" "min_of ax b \<le> l2" "u = (if 0 < l2 then 1 else 0)"
    using parts_eq [OF assms(1) min_of_ge min_of_ge, of sh ax ax a ax b] room by metis
  have "0 < l2" using l(3) min_of_ge [of ax b] by (simp add: MIN_LEN_def)
  then have u: "u = 1" using l(4) by simp
  have fa: "fits a area" "fits b area" using fits_child [OF assms(2)] by auto
  have f: "first = rect_along area ax (rect_start area ax) l1"
    "line = rect_along area ax (rect_start area ax + l1) u"
    "second = rect_along area ax (rect_start area ax + l1 + u) l2" using eq p by auto
  show "rect_len first ax + 1 + rect_len second ax = rect_len area ax" "rect_len line ax = 1"
    using l u by (simp_all add: f)
  show "fits a first" "fits b second"
    using fa l(2,3) unfolding fits_def f by (metis rect_len_along rect_len_along_other)+
qed

lemma fits_not_empty: "fits t area \<Longrightarrow> \<not> rect_is_empty area"
  using min_of_ge [of _ t] unfolding fits_def rect_is_empty_iff MIN_LEN_def
  by (metis le_0_eq le_trans zero_neq_numeral)

lemma regions_cover: "rect_ok area \<Longrightarrow> fits t area \<Longrightarrow> covered c t area = cells area"
proof (induction t arbitrary: area)
  case (Pane p)
  then show ?case using fits_not_empty [OF Pane.prems(2)] by (simp add: covered_def regions_def)
next
  case (Split ax sh a b)
  obtain first line second where p: "split_parts ax sh area (min_of ax a, min_of ax b) = (first, line, second)"
    by (metis prod_cases3)
  note ok = parts_ok [OF Split.prems(1) min_of_ge min_of_ge p]
  note f = fits_Split [OF Split.prems p]
  have "covered c (Split ax sh a b) area = covered c a first \<union> cells line \<union> covered c b second"
    by (auto simp: covered_def regions_Split [OF p] rect_is_empty_cells)
  also have "\<dots> = cells first \<union> cells line \<union> cells second"
    using Split.IH(1) [OF ok(1) f(2)] Split.IH(2) [OF ok(3) f(3)] by simp
  also have "\<dots> = cells area"
    by (rule parts_cells(5) [OF Split.prems(1) min_of_ge min_of_ge p f(1)])
  finally show ?case .
next
  case (Stack f r sh)
  have ks: "covered c k area = cells area" if "k \<in> set (f # r)" for k
    using Stack fits_child [OF Stack.prems(2), of k] that by auto
  show ?case
  proof (cases c)
    case None
    have "covered c (Stack f r sh) area = (\<Union>k \<in> set (f # r). covered c k area)"
      using None by (auto simp: covered_def regions_def)
    then show ?thesis using ks by auto
  next
    case (Some d)
    obtain k where k: "k \<in> set (f # r)" "regions (Some d) (Stack f r sh) area = regions (Some d) k area"
      using shown_child [of f r d sh] unfolding regions_def by metis
    then show ?thesis using ks [OF k(1)] Some unfolding covered_def by metis
  qed
qed

lemma placed_fits:
  "rect_ok area \<Longrightarrow> fits t area \<Longrightarrow>
   map fst (placed c t area) = shown_leaves c t
   \<and> (\<forall>(p, r) \<in> set (placed c t area). \<forall>ax. MIN_LEN \<le> rect_len r ax)"
proof (induction t arbitrary: area)
  case (Pane p)
  have "\<forall>ax. MIN_LEN \<le> rect_len area ax" using Pane.prems(2) by (simp add: fits_def)
  then show ?case
    using fits_not_empty [OF Pane.prems(2)] by (simp add: shown_leaves.simps [of c "Pane p"])
next
  case (Split ax sh a b)
  obtain first line second where p: "split_parts ax sh area (min_of ax a, min_of ax b) = (first, line, second)"
    by (metis prod_cases3)
  note ok = parts_ok [OF Split.prems(1) min_of_ge min_of_ge p]
  note f = fits_Split [OF Split.prems p]
  show ?case
    using Split.IH(1) [OF ok(1) f(2)] Split.IH(2) [OF ok(3) f(3)] p
    by (auto simp: shown_leaves_inner)
next
  case (Stack f r sh)
  have ks: "map fst (placed c k area) = shown_leaves c k
   \<and> (\<forall>(p, r) \<in> set (placed c k area). \<forall>ax. MIN_LEN \<le> rect_len r ax)" if "k \<in> set (f # r)" for k
  proof -
    have "fits k area" using fits_child [OF Stack.prems(2), of k] that by simp
    moreover have "k = f \<or> k \<in> set r" using that by simp
    ultimately show ?thesis using Stack.IH Stack.prems(1) by blast
  qed
  show ?case
  proof (cases c)
    case None
    have "map fst (placed c (Stack f r sh) area) = concat (map (\<lambda>k. map fst (placed c k area)) (f # r))"
      using None by (simp add: map_concat comp_def)
    also have "map (\<lambda>k. map fst (placed c k area)) (f # r) = map (shown_leaves c) (f # r)"
      using ks by (intro map_cong) blast+
    finally have "map fst (placed c (Stack f r sh) area) = shown_leaves c (Stack f r sh)"
      using None by (simp add: shown_leaves_inner)
    moreover have "set (placed c (Stack f r sh) area) = (\<Union>k \<in> set (f # r). set (placed c k area))"
      using None by simp
    ultimately show ?thesis using ks by blast
  next
    case (Some d)
    obtain k where k: "k \<in> set (f # r)" "placed (Some d) (Stack f r sh) area = placed (Some d) k area"
      "shown_leaves (Some d) (Stack f r sh) = shown_leaves (Some d) k"
      using shown_child [of f r d sh] by metis
    then show ?thesis using ks [OF k(1)] Some by simp
  qed
qed

text \<open>
  C1: Placing a tree for a client on an area with room for it tiles the area:
  no two of the panes' rectangles and separators share a cell, together they
  have every cell of the area and no other, and the panes placed are exactly
  the ones the client is shown, in layout order.
\<close>

theorem shown_tile:
  assumes "rect_ok area" "fits t area"
  shows "let pl = place_into t area (Some d);
             rs = map snd (placed_panes pl) @ map sep_rect (separators pl)
         in sorted_wrt apart rs \<and> (\<Union>r \<in> set rs. cells r) = cells area
            \<and> map fst (placed_panes pl) = shown_panes d t"
  using regions_apart [OF assms(1)] regions_cover [OF assms] placed_fits [OF assms, of "Some d"]
  by (simp add: placing_eq Let_def regions_def covered_def shown_panes_leaves)

lemma fits_shows_all:
  assumes "rect_ok area" "fits t area"
  shows "shows_all t area \<and> map fst (placed_panes (place t area)) = panes t
    \<and> (\<forall>(p, r) \<in> set (placed_panes (place t area)). \<forall>ax. MIN_LEN \<le> rect_len r ax)"
proof -
  have eq: "placed_panes (place t area) = placed None t area" by (simp add: place_def placing_eq)
  have "map fst (placed None t area) = panes t"
    "\<forall>(p, r) \<in> set (placed None t area). \<forall>ax. MIN_LEN \<le> rect_len r ax"
    using placed_fits [OF assms, of None] by (simp_all add: shown_leaves_all)
  moreover from this(1) have "\<forall>p \<in> set (panes t). \<exists>r. (p, r) \<in> set (placed None t area)"
    by (metis imageE list.set_map prod.collapse)
  ultimately show ?thesis
    by (auto simp: shows_all_def Let_def placement_rect_def eq find_None_iff)
qed

text \<open>
  C24: On an area with room for the tree, placing every child of its stacks
  shows every pane: \<open>shows_all\<close> holds, and no pane is shorter than the least
  length along either axis.
\<close>

theorem place_shows_all:
  assumes "rect_ok area" "fits t area"
  shows "shows_all t area \<and> map fst (placed_panes (place t area)) = panes t
    \<and> (\<forall>(p, r) \<in> set (placed_panes (place t area)). \<forall>ax. MIN_LEN \<le> rect_len r ax)"
  using fits_shows_all [OF assms] .

definition demo_tree :: tree where
  "demo_tree = Split Horizontal HALVED (Pane 1) (Split Vertical HALVED (Pane 2) (Stack (Pane 3) [Pane 4] (\<lambda>_. None)))"

definition demo_area :: rect where
  "demo_area = \<lparr>rx = 3, ry = 1, rw = 40, rh = 12\<rparr>"

lemma demo_fits: "rect_ok demo_area \<and> fits demo_tree demo_area"
  by (simp add: rect_ok_def fits_def all_axis demo_tree_def demo_area_def MIN_LEN_def u16_max_def)

theorem shown_tile_witness:
  "rect_ok demo_area \<and> fits demo_tree demo_area
   \<and> (let pl = place_into demo_tree demo_area (Some 7);
           rs = map snd (placed_panes pl) @ map sep_rect (separators pl)
       in (\<Union>r \<in> set rs. cells r) = cells demo_area \<and> map fst (placed_panes pl) = shown_panes 7 demo_tree)"
  using shown_tile [where area = demo_area and t = demo_tree and d = 7] demo_fits by (simp add: Let_def)

theorem place_shows_all_witness:
  "rect_ok demo_area \<and> fits demo_tree demo_area \<and> shows_all demo_tree demo_area
   \<and> map fst (placed_panes (place demo_tree demo_area)) = panes demo_tree"
  using place_shows_all [where area = demo_area and t = demo_tree] demo_fits by simp

end
