(* ===== verification/Layout_Nav.thy ===== *)
theory Layout_Nav
  imports Layout_Place_Laws "HOL-Library.Product_Lexorder"
begin

text \<open>
  Moves between panes as placed (\<open>neighbor\<close> and \<open>move_beside\<close> of
  \<open>fux-wire/src/layout.rs\<close>): the pane in a direction, ranked by the distance
  between centres across it, then along it, then by ID, and a pane moved
  beside another.
\<close>

section \<open>The pane in a direction\<close>

definition beyond :: "direction \<Rightarrow> rect \<Rightarrow> rect \<Rightarrow> bool" where
  "beyond d source r =
     (case d of
        DLeft \<Rightarrow> rect_right r \<le> rx source
      | DRight \<Rightarrow> rect_right source \<le> rx r
      | DUp \<Rightarrow> rect_bottom r \<le> ry source
      | DDown \<Rightarrow> rect_bottom source \<le> ry r)"

definition neighbor_rank :: "direction \<Rightarrow> rect \<Rightarrow> pane_id \<times> rect \<Rightarrow> nat \<times> nat \<times> pane_id" where
  "neighbor_rank d source pr =
     (case pr of (p, r) \<Rightarrow>
      let (sx, sy) = rect_centre2 source; (cx, cy) = rect_centre2 r
      in case axis_of d of
           Horizontal \<Rightarrow> (abs_diff sy cy, abs_diff sx cx, p)
         | Vertical \<Rightarrow> (abs_diff sx cx, abs_diff sy cy, p))"

text \<open>\<open>Iterator::min_by_key\<close>: the first of the least.\<close>

definition min_by_key :: "('a \<Rightarrow> 'k :: linorder) \<Rightarrow> 'a list \<Rightarrow> 'a option" where
  "min_by_key key xs = reduce (\<lambda>m x. if key x < key m then x else m) xs"

definition neighbor :: "placement \<Rightarrow> pane_id \<Rightarrow> direction \<Rightarrow> pane_id option" where
  "neighbor pl from_pane d =
     (case placement_rect pl from_pane of
        None \<Rightarrow> None
      | Some source \<Rightarrow>
          map_option fst (min_by_key (neighbor_rank d source)
            (filter (\<lambda>(p, r). beyond d source r)
              (filter (\<lambda>(p, _). p \<noteq> from_pane) (placed_panes pl)))))"

lemma min_fold:
  fixes key :: "'a \<Rightarrow> 'k :: linorder"
  defines "f \<equiv> \<lambda>m x. if key x < key m then x else m"
  shows "foldl f m xs \<in> set (m # xs) \<and> (\<forall>x \<in> set (m # xs). key (foldl f m xs) \<le> key x)"
proof (induction xs arbitrary: m)
  case (Cons x xs)
  have "key (f m x) \<le> key m \<and> key (f m x) \<le> key x \<and> (f m x = m \<or> f m x = x)"
    by (auto simp: f_def)
  with Cons.IH [of "f m x"] show ?case by (auto intro: order_trans)
qed simp

lemma min_by_key_least:
  "case min_by_key key xs of None \<Rightarrow> xs = [] | Some m \<Rightarrow> m \<in> set xs \<and> (\<forall>x \<in> set xs. key m \<le> key x)"
  using min_fold [of key "hd xs" "tl xs"] by (cases xs) (simp_all add: min_by_key_def)

definition others_beyond :: "placement \<Rightarrow> pane_id \<Rightarrow> direction \<Rightarrow> rect \<Rightarrow> (pane_id \<times> rect) list" where
  "others_beyond pl p d source =
     filter (\<lambda>(q, r). beyond d source r) (filter (\<lambda>(q, _). q \<noteq> p) (placed_panes pl))"

lemma others_beyond_set:
  "set (others_beyond pl p d source) = {(q, r) \<in> set (placed_panes pl). q \<noteq> p \<and> beyond d source r}"
  by (auto simp: others_beyond_def)

lemma neighbor_others:
  "placement_rect pl p = Some source \<Longrightarrow>
   neighbor pl p d = map_option fst (min_by_key (neighbor_rank d source) (others_beyond pl p d source))"
  by (simp add: neighbor_def others_beyond_def)

text \<open>
  A rectangle wholly in a direction from another, by their cells; and that
  \<open>beyond\<close> is this of the rectangles a placement has.
\<close>

definition wholly :: "direction \<Rightarrow> rect \<Rightarrow> rect \<Rightarrow> bool" where
  "wholly d source r \<longleftrightarrow>
     (\<forall>(y, x) \<in> cells source. \<forall>(y', x') \<in> cells r.
        case d of DLeft \<Rightarrow> x' < x | DRight \<Rightarrow> x < x' | DUp \<Rightarrow> y' < y | DDown \<Rightarrow> y < y')"

definition drawn :: "rect \<Rightarrow> bool" where
  "drawn r \<longleftrightarrow> rect_ok r \<and> \<not> rect_is_empty r"

lemma drawn_cells:
  "drawn r \<Longrightarrow> (yy, xx) \<in> cells r \<longleftrightarrow> ry r \<le> yy \<and> yy < rect_bottom r \<and> rx r \<le> xx \<and> xx < rect_right r"
  by (auto simp: drawn_def rect_ok_def cells_def rect_right_def rect_bottom_def sat16_def)

lemma drawn_corners:
  assumes "drawn r"
  shows "(ry r, rx r) \<in> cells r" "(rect_bottom r - 1, rect_right r - 1) \<in> cells r" "0 < rect_right r" "0 < rect_bottom r"
  using assms by (auto simp: drawn_def rect_ok_def rect_is_empty_def cells_def rect_right_def rect_bottom_def sat16_def)

lemma beyond_wholly:
  assumes "drawn source" "drawn r"
  shows "beyond d source r \<longleftrightarrow> wholly d source r"
proof
  assume "beyond d source r"
  then show "wholly d source r"
    by (cases d) (auto simp: wholly_def beyond_def drawn_cells [OF assms(1)] drawn_cells [OF assms(2)])
next
  assume w: "wholly d source r"
  have corner: "case d of DLeft \<Rightarrow> x' < x | DRight \<Rightarrow> x < x' | DUp \<Rightarrow> y' < y | DDown \<Rightarrow> y < y'"
    if "(y, x) \<in> cells source" "(y', x') \<in> cells r" for y x y' x'
    using w that by (fastforce simp: wholly_def)
  show "beyond d source r"
    using corner [OF drawn_corners(1) [OF assms(1)] drawn_corners(2) [OF assms(2)]]
      corner [OF drawn_corners(2) [OF assms(1)] drawn_corners(1) [OF assms(2)]]
      drawn_corners(3,4) [OF assms(1)] drawn_corners(3,4) [OF assms(2)]
    by (cases d) (auto simp: beyond_def)
qed


definition two_columns :: placement where
  "two_columns = \<lparr>placed_panes = [(1, rect_screen 24 40), (2, \<lparr>rx = 41, ry = 0, rw = 39, rh = 11\<rparr>),
     (3, \<lparr>rx = 41, ry = 12, rw = 39, rh = 12\<rparr>)], separators = []\<rparr>"


section \<open>A pane moved beside another\<close>

definition move_beside :: "tree \<Rightarrow> pane_id \<Rightarrow> pane_id \<Rightarrow> direction \<Rightarrow> tree option" where
  "move_beside t p target d =
     (if p = target \<or> \<not> contains t target then None
      else case tree_remove t p of
             Left moved \<Rightarrow>
               (case tree_split (target, p) (axis_of d, side_of d) HALVED moved of
                  Inr u \<Rightarrow> Some u
                | Inl _ \<Rightarrow> None)
           | _ \<Rightarrow> None)"

text \<open>
  \<open>move_beside\<close> in a tree the code makes refuses only a pane moved beside
  itself or a pane the tree does not hold; else the pane stands right before
  or after the target, on the side of the direction, the other panes keep
  their order, and the tree is again one the code makes.
\<close>

lemma move_beside_moves:
  assumes "tree_ok t"
  shows "case move_beside t p target d of
           None \<Rightarrow> p = target \<or> p \<notin> set (panes t) \<or> target \<notin> set (panes t)
         | Some u \<Rightarrow> p \<noteq> target \<and> p \<in> set (panes t) \<and> target \<in> set (panes t) \<and> tree_ok u
             \<and> (\<exists>pre post. remove1 p (panes t) = pre @ target # post
                  \<and> panes u = pre @ beside target p (side_of d) @ post)"
proof (cases "p = target \<or> target \<notin> set (panes t)")
  case True
  then show ?thesis by (auto simp: move_beside_def)
next
  case False
  show ?thesis
  proof (cases "tree_remove t p")
    case (Left moved)
    then have m: "p \<in> set (panes t)" "panes moved = remove1 p (panes t)" "tree_ok moved"
      using tree_remove_spec [OF assms, where p = p] by auto
    then have "target \<in> set (panes moved)" using False by auto
    then obtain u where u: "tree_split (target, p) (axis_of d, side_of d) HALVED moved = Inr u"
      using tree_split_spec [where target = target and new = p and ax = "axis_of d" and sd = "side_of d" and sh = HALVED and t = moved]
      by (cases "tree_split (target, p) (axis_of d, side_of d) HALVED moved")
        (auto split: no_pane.splits)
    then have "tree_ok u \<and> (\<exists>pre post. panes moved = pre @ target # post
                 \<and> panes u = pre @ beside target p (side_of d) @ post)"
      using tree_split_spec [where target = target and new = p and ax = "axis_of d" and sd = "side_of d" and sh = HALVED and t = moved] m(3) by auto
    then show ?thesis using False Left u m by (auto simp: move_beside_def)
  qed (use False tree_remove_spec [OF assms, where p = p] in \<open>auto simp: move_beside_def\<close>)
qed

lemma move_beside_moves_witness:
  "tree_ok (Split Vertical HALVED (Pane 1) (Stack (Pane 2) [Pane 3] Map.empty))
   \<and> (\<exists>u. move_beside (Split Vertical HALVED (Pane 1) (Stack (Pane 2) [Pane 3] Map.empty)) 3 1 DLeft = Some u
        \<and> panes u = [3, 1, 2])"
proof -
  let ?t = "Split Vertical HALVED (Pane 1) (Stack (Pane 2) [Pane 3] Map.empty)"
  have ok: "tree_ok ?t" by simp
  have "\<exists>u. move_beside ?t 3 1 DLeft = Some u"
    by (simp add: move_beside_def tree_remove_eq without_child_def stack_remove_def drop_nth_eq
        tree_split_def way_way_to)
  then show ?thesis
    using move_beside_moves [OF ok, where p = 3 and target = 1 and d = DLeft] ok
    by (auto simp: beside_def Cons_eq_append_conv)
qed

end
