(* ===== verification/Layout_Resize.thy ===== *)
theory Layout_Resize
  imports Layout_Nav
begin

text \<open>
  Borders moved (\<open>resize\<close>, \<open>resize_to\<close>, \<open>Tree::shift\<close>, \<open>Tree::stretch\<close> and
  \<open>Split::move_border\<close> of \<open>fux-wire/src/layout.rs\<close>).  A resize changes shares
  and nothing else, which \<open>unshared\<close>, the tree with its shares forgotten,
  states.
\<close>

section \<open>The operations\<close>

text \<open>\<open>Tree::stretch\<close>: each node is changed by itself alone, so its loop is a recursion.\<close>

definition stretch_lengths ::
    "axis \<Rightarrow> axis \<Rightarrow> nat \<Rightarrow> bool \<Rightarrow> nat \<times> nat \<Rightarrow> nat \<times> nat \<Rightarrow> nat \<times> nat" where
  "stretch_lengths sax ax len first_takes ls mins =
     (if sax \<noteq> ax then (len, len)
      else let room = len - 1
           in if first_takes
              then let n2 = min (snd ls) (room - fst mins) in (room - n2, n2)
              else let n1 = min (fst ls) (room - snd mins) in (n1, room - n1))"

fun stretch :: "rect \<Rightarrow> axis \<Rightarrow> nat \<Rightarrow> side \<Rightarrow> pane_id \<Rightarrow> tree \<Rightarrow> tree" where
  "stretch area ax len edge p (Pane q) = Pane q"
| "stretch area ax len edge p (Stack f r sh) =
     Stack (stretch area ax len edge p f) (map (stretch area ax len edge p) r) sh"
| "stretch area ax len edge p (Split sax sh a b) =
     (if len = rect_len area ax then Split sax sh a b
      else let mins = split_least sax a b;
               (r1, _, r2) = split_parts sax sh area mins;
               first_takes = (contains a p \<or> \<not> contains b p \<and> edge = Before);
               (n1, n2) = stretch_lengths sax ax len first_takes (rect_len r1 ax, rect_len r2 ax) mins;
               sh' = (if sax = ax then shares_of n1 n2 else sh)
           in Split sax sh' (stretch r1 ax n1 edge p a) (stretch r2 ax n2 edge p b))"

text \<open>\<open>Split::move_border\<close>: how far the border moved, and the split after it.\<close>

definition border_lengths :: "side \<Rightarrow> nat \<Rightarrow> nat \<times> nat \<Rightarrow> nat \<times> nat \<Rightarrow> nat \<times> nat" where
  "border_lengths toward amount ls mins =
     (case ls of (l1, l2) \<Rightarrow>
      case toward of
        After \<Rightarrow> let d = min amount (l2 - snd mins) in (sat16 l1 d, l2 - d)
      | Before \<Rightarrow> let d = min amount (l1 - fst mins) in (l1 - d, sat16 l2 d))"

fun move_border :: "rect \<Rightarrow> pane_id \<Rightarrow> side \<Rightarrow> nat \<Rightarrow> tree \<Rightarrow> nat \<times> tree" where
  "move_border area p toward amount (Split ax sh a b) =
     (let mins = split_least ax a b;
          (r1, _, r2) = split_parts ax sh area mins;
          (n1, n2) = border_lengths toward amount (rect_len r1 ax, rect_len r2 ax) mins
      in if n1 = rect_len r1 ax then (0, Split ax sh a b)
         else (abs_diff (rect_len r1 ax) n1,
               Split ax (shares_of n1 n2) (stretch r1 ax n1 After p a) (stretch r2 ax n2 Before p b)))"
| "move_border area p toward amount t = (0, t)"

record shift =
  sh_pane :: pane_id
  sh_axis :: axis
  sh_side :: side
  sh_toward :: side

text \<open>The area of each node on the way down, as \<open>Tree::shift\<close> scans them.\<close>

fun areas_along :: "rect \<Rightarrow> (tree \<times> nat) list \<Rightarrow> rect list" where
  "areas_along area [] = []"
| "areas_along area ((t, i) # dn) =
     area # areas_along
       (case t of
          Split ax sh a b \<Rightarrow>
            (case split_parts ax sh area (split_least ax a b) of
               (first, _, second) \<Rightarrow> if i = 0 then first else second)
        | _ \<Rightarrow> area) dn"

text \<open>One border on the way, after those nearer the pane: the tree, the cells left, how far they moved.\<close>

definition shift_step ::
    "shift \<Rightarrow> nat list \<Rightarrow> nat \<times> nat \<times> rect \<Rightarrow> tree \<times> nat \<times> nat option \<Rightarrow> tree \<times> nat \<times> nat option" where
  "shift_step s w here_at st =
     (case here_at of (depth, i, area) \<Rightarrow> case st of (t, left, moved) \<Rightarrow>
      (case at_way t (take depth w) of
         Some (Split ax shr a b) \<Rightarrow>
           let here = (ax = sh_axis s \<and> ((i = 0) = (sh_side s = After)));
               outward = (sh_side s = sh_toward s)
           in if \<not> here \<or> moved \<noteq> None \<and> (\<not> outward \<or> left = 0) then (t, left, moved)
              else (case move_border area (sh_pane s) (sh_toward s) left (Split ax shr a b) of
                      (by, u) \<Rightarrow>
                        (put_way t (take depth w) u, left - by,
                         Some (sat16 (case moved of None \<Rightarrow> 0 | Some m \<Rightarrow> m) by)))
       | _ \<Rightarrow> (t, left, moved)))"

definition tree_shift :: "rect \<Rightarrow> shift \<Rightarrow> nat \<Rightarrow> tree \<Rightarrow> tree \<times> nat \<times> nat option" where
  "tree_shift area s left t =
     (case down_to t (sh_pane s) of
        None \<Rightarrow> (t, left, None)
      | Some dn \<Rightarrow>
          let w = map snd dn; areas = areas_along area dn
          in foldr (shift_step s w) (enumerate 0 (zip w areas)) (t, left, None))"

definition resize :: "tree \<Rightarrow> rect \<Rightarrow> pane_id \<Rightarrow> direction \<Rightarrow> nat \<Rightarrow> tree \<times> nat option" where
  "resize t area p d amount =
     (if \<not> shows_all t area then (t, None)
      else let move_side = (\<lambda>sd t. case tree_shift area
                 \<lparr>sh_pane = p, sh_axis = axis_of d, sh_side = sd, sh_toward = side_of d\<rparr> amount t of
               (t', _, m) \<Rightarrow> (t', m))
           in case move_side (side_of d) t of
                (t', Some m) \<Rightarrow> (t', Some m)
              | (t', None) \<Rightarrow> move_side (side_other (side_of d)) t')"

definition pane_size :: "rect \<Rightarrow> pane_id \<Rightarrow> axis \<Rightarrow> tree \<Rightarrow> nat option" where
  "pane_size area p ax t = map_option (\<lambda>r. rect_len r ax) (placement_rect (place t area) p)"

text \<open>The loop of \<open>resize_to\<close> over the two sides; \<open>None\<close> where \<open>?\<close> leaves it.\<close>

fun resize_sides :: "rect \<Rightarrow> pane_id \<Rightarrow> axis \<Rightarrow> nat \<Rightarrow> side list \<Rightarrow> tree \<Rightarrow> tree option" where
  "resize_sides area p ax len [] t = Some t"
| "resize_sides area p ax len (sd # sds) t =
     (case pane_size area p ax t of
        None \<Rightarrow> None
      | Some now \<Rightarrow>
          let toward = (if now < len then sd else side_other sd); left = abs_diff now len
          in resize_sides area p ax len sds
               (if 0 < left
                then fst (tree_shift area \<lparr>sh_pane = p, sh_axis = ax, sh_side = sd, sh_toward = toward\<rparr> left t)
                else t))"

definition resize_to :: "tree \<Rightarrow> rect \<Rightarrow> pane_id \<Rightarrow> axis \<Rightarrow> nat \<Rightarrow> tree option" where
  "resize_to t area p ax len =
     (if \<not> shows_all t area then None
      else case resize_sides area p ax len [After, Before] t of
             None \<Rightarrow> None
           | Some u \<Rightarrow>
               (case pane_size area p ax u of
                  Some n \<Rightarrow> if n = len then Some u else None
                | None \<Rightarrow> None))"

section \<open>Nothing but shares changes\<close>

fun unshared :: "tree \<Rightarrow> tree" where
  "unshared (Pane p) = Pane p"
| "unshared (Split ax sh a b) = Split ax HALVED (unshared a) (unshared b)"
| "unshared (Stack f r sh) = Stack (unshared f) (map unshared r) sh"

lemma unshared_stretch [simp]: "unshared (stretch area ax len edge p t) = unshared t"
  by (induction area ax len edge p t rule: stretch.induct) (auto simp: Let_def split: prod.splits)

lemma unshared_move_border [simp]: "unshared (snd (move_border area p toward n t)) = unshared t"
  by (cases "(area, p, toward, n, t)" rule: move_border.cases) (auto simp: Let_def split: prod.splits)

lemma leaves_unshared [simp]: "leaves (unshared t) = leaves t"
proof (induction t)
  case (Stack f r sh)
  then have "map (leaves \<circ> unshared) r = map (leaves) r" by (intro map_unchanged)
  then show ?case using Stack.IH(1) by (simp only: unshared.simps leaves.simps list.map_comp)
qed auto

lemma min_of_unshared [simp]: "min_of ax (unshared t) = min_of ax t"
proof (induction t)
  case (Stack f r sh)
  then have "map (min_of ax \<circ> unshared) r = map (min_of ax) r" by (intro map_unchanged)
  then show ?case using Stack.IH(1) by (simp only: unshared.simps min_of.simps list.map_comp)
qed auto

lemma children_unshared [simp]: "children (unshared t) = map unshared (children t)"
  by (cases t) auto

lemma unshared_set_child [simp]: "unshared (set_child t i k) = set_child (unshared t) i (unshared k)"
  by (cases t; cases i) (auto simp: map_update)

lemma unshared_at_way: "at_way (unshared t) w = map_option unshared (at_way t w)"
  by (induction w arbitrary: t) (auto simp: get_at_map split: option.splits)

lemma unshared_put_way: "unshared (put_way t w u) = put_way (unshared t) w (unshared u)"
  by (induction w arbitrary: t) (auto simp: get_at_map split: option.splits)

lemma unshared_put_same:
  "at_way t w = Some v \<Longrightarrow> unshared u = unshared v \<Longrightarrow> unshared (put_way t w u) = unshared t"
  by (simp add: unshared_put_way) (metis put_way_id unshared_put_way)

lemma fits_unshared: "unshared u = unshared t \<Longrightarrow> fits u area = fits t area"
  unfolding fits_def by (metis min_of_unshared)

lemma panes_unshared: "unshared u = unshared t \<Longrightarrow> panes u = panes t"
  by (metis leaves_unshared panes_leaves)

lemma way_unshared: "way_to p (unshared t) = way_to p t"
proof (induction t)
  case (Stack f r sh)
  then have "map (way_to p \<circ> unshared) r = map (way_to p) r" by (intro map_unchanged)
  then show ?case using Stack.IH(1) by (simp only: unshared.simps way_to.simps list.map_comp)
qed auto

lemma shown_unshared: "unshared u = unshared t \<Longrightarrow> shown_panes c u = shown_panes c t"
proof -
  have "shown_leaves d (unshared t) = shown_leaves d t" for d t
  proof (induction t)
    case (Stack f r sh)
    have c: "stack_current k (unshared f) (map unshared r) sh = unshared (stack_current k f r sh)" for k
      by (auto simp: stack_current_def get_at_map simp flip: list.map split: option.splits)
    show ?case
    proof (cases d)
      case None
      then show ?thesis using leaves_unshared [of "Stack f r sh"] by (simp add: shown_leaves_all del: leaves_unshared)
    next
      case (Some k)
      then show ?thesis
        using Stack stack_current_in [of k f r sh]
        by (auto simp: shown_leaves.simps [of _ "Stack _ _ _"] c)
    qed
  next
    case (Pane p)
    then show ?case by simp
  next
    case (Split ax s a b)
    then show ?case by (simp add: shown_leaves.simps [of d "Split _ _ _ _"])
  qed
  then show "unshared u = unshared t \<Longrightarrow> shown_panes c u = shown_panes c t"
    by (metis shown_panes_leaves)
qed


section \<open>A border moved\<close>

lemma parts_lengths:
  assumes "rect_ok area" "split_parts ax sh area (min_of ax a, min_of ax b) = (r1, line, r2)"
  shows "split_lengths sh (rect_len area ax) (min_of ax a, min_of ax b) = (rect_len r1 ax, rect_len r2 ax)"
    "ax' \<noteq> ax \<Longrightarrow> rect_len r1 ax' = rect_len area ax'" "ax' \<noteq> ax \<Longrightarrow> rect_len r2 ax' = rect_len area ax'"
  using parts_eq [OF assms(1) min_of_ge min_of_ge, of sh ax ax a ax b] assms(2)
  by (metis prod.inject rect_len_along rect_len_along_other)+

lemma border_lengths_sum:
  assumes "border_lengths toward n (l1, l2) mins = (n1, n2)" "fst mins \<le> l1" "snd mins \<le> l2"
    "l1 + 1 + l2 \<le> u16_max"
  shows "n1 + n2 = l1 + l2" "fst mins \<le> n1" "snd mins \<le> n2"
    "abs_diff l1 n1 = (case toward of After \<Rightarrow> min n (l2 - snd mins) | Before \<Rightarrow> min n (l1 - fst mins))"
    "toward = After \<Longrightarrow> n1 = l1 + abs_diff l1 n1" "toward = Before \<Longrightarrow> l1 = n1 + abs_diff l1 n1"
  using assms
  by (auto simp: border_lengths_def Let_def sat16_exact abs_diff_def min_def split: side.splits if_splits)

text \<open>
  A border moved in an area with room: the split takes as its shares lengths
  the area divides into again, the border one has moved by what the child it
  moves into can give.
\<close>

lemma move_border_form:
  assumes ok: "rect_ok area" and fit: "fits (Split ax sh a b) area"
    and mv: "move_border area p toward n (Split ax sh a b) = (d, u)"
    and p: "split_parts ax sh area (min_of ax a, min_of ax b) = (r1, line, r2)"
    and l: "rect_len r1 ax = l1" "rect_len r2 ax = l2"
  obtains n1 n2 where "1 \<le> n1" "1 \<le> n2" "n1 + 1 + n2 = rect_len area ax"
    "d = (case toward of After \<Rightarrow> min n (l2 - min_of ax b) | Before \<Rightarrow> min n (l1 - min_of ax a))"
    "case toward of After \<Rightarrow> n1 = l1 + d \<and> l2 = n2 + d | Before \<Rightarrow> l1 = n1 + d \<and> n2 = l2 + d"
    "split_lengths (shares_of n1 n2) (rect_len area ax) (min_of ax a, min_of ax b) = (n1, n2)"
    "u = (if d = 0 then Split ax sh a b
          else Split ax (shares_of n1 n2) (stretch r1 ax n1 After p a) (stretch r2 ax n2 Before p b))"
proof -
  obtain n1 n2 where n: "border_lengths toward n (l1, l2) (min_of ax a, min_of ax b) = (n1, n2)"
    by fastforce
  note f = fits_Split [OF ok fit p]
  have mins: "min_of ax a \<le> l1" "min_of ax b \<le> l2" using f(2,3) by (auto simp: fits_def l [symmetric])
  have len: "l1 + 1 + l2 = rect_len area ax" using f(4) by (simp add: l)
  have max: "rect_len area ax \<le> u16_max" by (rule rect_ok_len [OF ok])
  have sum: "n1 + n2 = l1 + l2" "min_of ax a \<le> n1" "min_of ax b \<le> n2"
    "abs_diff l1 n1 = (case toward of After \<Rightarrow> min n (l2 - min_of ax b) | Before \<Rightarrow> min n (l1 - min_of ax a))"
    "toward = After \<Longrightarrow> n1 = l1 + abs_diff l1 n1" "toward = Before \<Longrightarrow> l1 = n1 + abs_diff l1 n1"
    using border_lengths_sum [OF n] mins len max by (simp_all only: fst_conv snd_conv)
  have pos: "1 \<le> n1" "1 \<le> n2" using sum(2,3) min_of_ge [of ax a] min_of_ge [of ax b] by (auto simp: MIN_LEN_def)
  have u: "d = abs_diff l1 n1" "u = (if n1 = l1 then Split ax sh a b
      else Split ax (shares_of n1 n2) (stretch r1 ax n1 After p a) (stretch r2 ax n2 Before p b))"
    using mv n by (auto simp: split_least_def p l abs_diff_def split: if_splits)
  show ?thesis
  proof (rule that [OF pos])
    show "n1 + 1 + n2 = rect_len area ax" using sum(1) len by simp
    show "d = (case toward of After \<Rightarrow> min n (l2 - min_of ax b) | Before \<Rightarrow> min n (l1 - min_of ax a))"
      using u(1) sum(4) by simp
    show "case toward of After \<Rightarrow> n1 = l1 + d \<and> l2 = n2 + d | Before \<Rightarrow> l1 = n1 + d \<and> n2 = l2 + d"
      using sum(1,5,6) u(1) by (cases toward) auto
    show "split_lengths (shares_of n1 n2) (rect_len area ax) (min_of ax a, min_of ax b) = (n1, n2)"
      using shares_of_lengths [OF pos sum(2,3)] sum(1) len max by simp
    have "(n1 = l1) = (d = 0)" using u(1) by (auto simp: abs_diff_def)
    then show "u = (if d = 0 then Split ax sh a b
          else Split ax (shares_of n1 n2) (stretch r1 ax n1 After p a) (stretch r2 ax n2 Before p b))"
      using u(2) by simp
  qed
qed

text \<open>
  \<open>Split::move_border\<close>, in an area with room for the split, moves the
  border by the cells asked or by all the child it moves into can give down to
  its least, whichever is less; placed again in the same area, the one child
  is that much longer and the other that much shorter, exactly, whatever the
  shares round to; and neither child changes but for its shares.
\<close>

lemma border_moves_exactly:
  assumes "rect_ok area" and "fits (Split ax sh a b) area"
    and "move_border area p toward n (Split ax sh a b) = (d, u)"
    and "split_lengths sh (rect_len area ax) (min_of ax a, min_of ax b) = (l1, l2)"
  shows "\<exists>sh' a' b'. u = Split ax sh' a' b' \<and> unshared a' = unshared a \<and> unshared b' = unshared b
     \<and> (case toward of
          After \<Rightarrow> d = min n (l2 - min_of ax b)
            \<and> split_lengths sh' (rect_len area ax) (min_of ax a, min_of ax b) = (l1 + d, l2 - d)
        | Before \<Rightarrow> d = min n (l1 - min_of ax a)
            \<and> split_lengths sh' (rect_len area ax) (min_of ax a, min_of ax b) = (l1 - d, l2 + d))"
proof -
  obtain r1 line r2 where p: "split_parts ax sh area (min_of ax a, min_of ax b) = (r1, line, r2)"
    by (metis prod_cases3)
  have l: "rect_len r1 ax = l1" "rect_len r2 ax = l2" using parts_lengths(1) [OF assms(1) p] assms(4) by auto
  show ?thesis
    by (rule move_border_form [OF assms(1-3) p l])
      (use assms(4) in \<open>cases toward, auto split: if_splits\<close>)
qed

definition one_split :: tree where
  "one_split = Split Horizontal HALVED (Pane 1) (Pane 2)"

definition wide_area :: rect where
  "wide_area = \<lparr>rx = 0, ry = 0, rw = 21, rh = 5\<rparr>"

lemma one_split_fits: "rect_ok wide_area \<and> fits one_split wide_area"
  by (simp add: rect_ok_def fits_def all_axis one_split_def wide_area_def MIN_LEN_def u16_max_def)

lemma border_moves_exactly_witness:
  "rect_ok wide_area \<and> fits one_split wide_area
   \<and> split_lengths HALVED 21 (2, 2) = (10, 10)
   \<and> fst (move_border wide_area 1 After 30 one_split) = 8"
proof -
  have h: "split_lengths HALVED 21 (2, 2) = (10, 10)"
    by (simp add: split_lengths_def HALVED_def sat16_def u16_max_def clamp_between_def Let_def)
  obtain d u where mv: "move_border wide_area 1 After 30 (Split Horizontal HALVED (Pane 1) (Pane 2)) = (d, u)"
    by fastforce
  have "d = 8"
    using border_moves_exactly [OF _ _ mv, where ?l1.0 = 10 and ?l2.0 = 10] one_split_fits h
    by (auto simp: one_split_def wide_area_def MIN_LEN_def)
  then show ?thesis using h mv one_split_fits by (simp add: one_split_def)
qed

end
