(* ===== verification/Layout_Resize_Laws.thy ===== *)
theory Layout_Resize_Laws
  imports Layout_Resize
begin

text \<open>
  What a resize does to the pane it is asked of: the length of a pane as
  placed (\<open>pane_len\<close>), read down the way to it, the growth a stretch gives
  it, and the borders a shift moves one after another.
\<close>

section \<open>A pane's length as placed\<close>

definition pane_len :: "axis \<Rightarrow> pane_id \<Rightarrow> tree \<Rightarrow> rect \<Rightarrow> nat option" where
  "pane_len ax p t area = map_option (\<lambda>r. rect_len r ax) (map_of (placed None t area) p)"

lemma find_map_of: "map_option snd (List.find (\<lambda>(q, _). q = p) xs) = map_of xs p"
  by (induction xs) auto

lemma pane_size_len: "pane_size area p ax t = pane_len ax p t area"
  by (simp add: pane_size_def pane_len_def placement_rect_def place_def placing_eq find_map_of)

lemma map_of_append_option:
  "map_of (xs @ ys) p = (case map_of xs p of Some r \<Rightarrow> Some r | None \<Rightarrow> map_of ys p)"
  by (simp add: map_add_def split: option.splits)

lemma map_of_concat_nth:
  "i < length xss \<Longrightarrow> map_of (xss ! i) p = Some r \<Longrightarrow> (\<And>j. j < i \<Longrightarrow> map_of (xss ! j) p = None) \<Longrightarrow>
   map_of (concat xss) p = Some r"
proof (induction xss arbitrary: i)
  case (Cons xs xss)
  show ?case
  proof (cases i)
    case 0
    then show ?thesis using Cons.prems by (simp add: map_of_append_option)
  next
    case (Suc k)
    have none: "map_of xs p = None" using Cons.prems(3) [of 0] Suc by simp
    have "map_of (xss ! j) p = None" if "j < k" for j
      using Cons.prems(3) [of "Suc j"] that Suc by simp
    then have "map_of (concat xss) p = Some r"
      using Cons.prems(1,2) Suc by (intro Cons.IH [of k]) auto
    then show ?thesis using none by (simp add: map_add_def)
  qed
qed simp

lemma placed_dom:
  assumes "rect_ok area" "fits t area"
  shows "map_of (placed None t area) p = None \<longleftrightarrow> p \<notin> set (leaves t)"
proof -
  have "fst ` set (placed None t area) = set (leaves t)"
    using placed_fits [OF assms, of None] by (metis list.set_map shown_leaves_all)
  then show ?thesis by (simp add: map_of_eq_None_iff)
qed

lemma pane_len_None: "rect_ok area \<Longrightarrow> fits t area \<Longrightarrow> pane_len ax p t area = None \<longleftrightarrow> p \<notin> set (leaves t)"
  by (simp add: pane_len_def placed_dom)

text \<open>The area of each child, and of the node a way ends at.\<close>

fun child_area :: "tree \<Rightarrow> rect \<Rightarrow> nat \<Rightarrow> rect" where
  "child_area (Split ax sh a b) area i =
     (case split_parts ax sh area (min_of ax a, min_of ax b) of
        (first, _, second) \<Rightarrow> if i = 0 then first else second)"
| "child_area t area i = area"

fun area_way :: "tree \<Rightarrow> rect \<Rightarrow> nat list \<Rightarrow> rect" where
  "area_way t area [] = area"
| "area_way t area (i # w) =
     (case get_at (children t) i of None \<Rightarrow> area | Some k \<Rightarrow> area_way k (child_area t area i) w)"

lemma child_fits:
  assumes "rect_ok area" "fits t area" "get_at (children t) i = Some k"
  shows "rect_ok (child_area t area i) \<and> fits k (child_area t area i)"
proof -
  have "k \<in> set (children t)" using assms(3) by (auto simp: get_at_Some_iff)
  then have fk: "fits k area" by (rule fits_child [OF assms(2)])
  show ?thesis
  proof (cases t)
    case (Split ax sh a b)
    obtain r1 line r2 where p: "split_parts ax sh area (min_of ax a, min_of ax b) = (r1, line, r2)"
      by (metis prod_cases3)
    show ?thesis
      using parts_ok [OF assms(1) min_of_ge min_of_ge p] fits_Split [OF assms(1) _ p] assms(2,3) Split p
      by (cases i) (auto simp: get_at_Some_iff less_Suc_eq)
  qed (use assms(1) fk in simp_all)
qed

lemma way_Cons_nth:
  assumes "way_to p t = Some (i # w)"
  shows "i < length (children t)" "get_at (children t) i = Some (children t ! i)"
    "way_to p (children t ! i) = Some w" "\<And>j. j < i \<Longrightarrow> p \<notin> set (leaves (children t ! j))"
proof -
  have "t \<noteq> Pane p" using assms by auto
  with assms have w: "i < length (children t)" "way_to p (children t ! i) = Some w"
    "\<forall>j < i. way_to p (children t ! j) = None"
    by (auto simp: way_to_children [of p t] first_way_Some)
  then show "i < length (children t)" "get_at (children t) i = Some (children t ! i)"
    "way_to p (children t ! i) = Some w" "\<And>j. j < i \<Longrightarrow> p \<notin> set (leaves (children t ! j))"
    by (auto simp: get_at_def way_to_None)
qed

lemma placed_children:
  "pane_of t = None \<Longrightarrow> placed None t area = concat (map (\<lambda>i. placed None (children t ! i) (child_area t area i)) [0..<length (children t)])"
proof (cases t)
  case (Stack f r sh)
  have "map (\<lambda>i. placed None ((f # r) ! i) area) [0..<length (f # r)] = map (\<lambda>k. placed None k area) (f # r)"
    by (metis (no_types, lifting) map_nth map_map comp_apply map_eq_conv)
  then show ?thesis
    using Stack by (simp del: upt_Suc nth_Cons)
qed (auto split: prod.splits simp: upt_rec)

lemma pane_len_step:
  assumes "rect_ok area" "fits t area" "way_to p t = Some (i # w)"
  shows "pane_len ax p t area = pane_len ax p (children t ! i) (child_area t area i)"
proof -
  note w = way_Cons_nth [OF assms(3)]
  have fit: "rect_ok (child_area t area j) \<and> fits (children t ! j) (child_area t area j)"
    if "j < length (children t)" for j
    using child_fits [OF assms(1,2), of j "children t ! j"] that by (simp add: get_at_def)
  have mem: "p \<in> set (leaves (children t ! i))" using w(3) way_to_Some by blast
  let ?xss = "map (\<lambda>i. placed None (children t ! i) (child_area t area i)) [0..<length (children t)]"
  obtain r where r: "map_of (placed None (children t ! i) (child_area t area i)) p = Some r"
    using placed_dom [of "child_area t area i" "children t ! i" p] fit [OF w(1)] mem by auto
  have "map_of (concat ?xss) p = Some r"
  proof (rule map_of_concat_nth)
    show "map_of (?xss ! j) p = None" if "j < i" for j
      using placed_dom [of "child_area t area j" "children t ! j" p] fit [of j] w(1,4) that by simp
  qed (use w(1) r in simp_all)
  moreover have "pane_of t = None" using w(1) by (auto simp: pane_of_None_iff)
  ultimately show ?thesis using r by (simp add: pane_len_def placed_children)
qed


text \<open>Lengths depend on an area's lengths alone.\<close>

definition same_size :: "rect \<Rightarrow> rect \<Rightarrow> bool" where
  "same_size r s \<longleftrightarrow> (\<forall>ax. rect_len r ax = rect_len s ax)"

lemma fits_same_size: "same_size area area' \<Longrightarrow> fits t area' = fits t area"
  by (simp add: fits_def same_size_def)

lemma child_area_same_size:
  assumes "rect_ok area" "rect_ok area'" "same_size area area'"
  shows "same_size (child_area t area i) (child_area t area' i)"
proof (cases t)
  case (Split ax sh a b)
  obtain r1 line r2 s1 line' s2 where p: "split_parts ax sh area (min_of ax a, min_of ax b) = (r1, line, r2)"
    "split_parts ax sh area' (min_of ax a, min_of ax b) = (s1, line', s2)"
    by (metis prod_cases3)
  have "rect_len r1 x = rect_len s1 x \<and> rect_len r2 x = rect_len s2 x" for x
    using parts_lengths [OF assms(1) p(1)] parts_lengths [OF assms(2) p(2)] assms(3)
    by (cases "x = ax") (auto simp: same_size_def)
  then show ?thesis using Split p by (simp add: same_size_def)
qed (use assms(3) in simp_all)

lemma pane_len_same_size:
  "way_to p t = Some w \<Longrightarrow> rect_ok area \<Longrightarrow> rect_ok area' \<Longrightarrow> fits t area \<Longrightarrow> same_size area area' \<Longrightarrow>
   pane_len ax p t area = pane_len ax p t area'"
proof (induction w arbitrary: t area area')
  case Nil
  then have "t = Pane p" using way_to_at by fastforce
  then show ?case
    using Nil.prems(5) fits_not_empty [OF Nil.prems(4)]
    by (auto simp: pane_len_def rect_is_empty_iff same_size_def)
next
  case (Cons i w)
  note w = way_Cons_nth [OF Cons.prems(1)]
  have fit': "fits t area'" using Cons.prems fits_same_size by blast
  note c = child_fits [OF Cons.prems(2,4) w(2)] child_fits [OF Cons.prems(3) fit' w(2)]
  have "pane_len ax p (children t ! i) (child_area t area i) = pane_len ax p (children t ! i) (child_area t area' i)"
    using c child_area_same_size [OF Cons.prems(2,3,5), of t i] by (intro Cons.IH w(3)) auto
  then show ?case
    using pane_len_step [OF Cons.prems(2,4,1)] pane_len_step [OF Cons.prems(3) fit' Cons.prems(1)] by simp
qed

section \<open>A stretch\<close>

lemma rect_along_commute:
  "ax \<noteq> b \<Longrightarrow> rect_along (rect_along r ax s n) b s' n' = rect_along (rect_along r b s' n') ax s n"
  by (cases ax; cases b) auto

lemma stretch_way: "way_to p (stretch area ax len e q t) = way_to p t"
  using way_unshared [of p "stretch area ax len e q t"] way_unshared [of p t] by simp

lemma min_of_stretch [simp]: "min_of b (stretch area ax len e q t) = min_of b t"
  by (metis min_of_unshared unshared_stretch)

lemma stretch_fits:
  "fits t area \<Longrightarrow> rect_len area ax \<le> len \<Longrightarrow> fits (stretch area' ax len' e q t) (rect_along area ax s len)"
  unfolding fits_def
  by (metis le_trans min_of_unshared rect_len_along rect_len_along_other unshared_stretch)

text \<open>The lengths a stretch gives a split's children, where it grows.\<close>

lemma stretch_lengths_grow:
  assumes "l1 + 1 + l2 = old" "old \<le> len" "fst mins \<le> l1" "snd mins \<le> l2"
  shows "stretch_lengths ax ax len first_takes (l1, l2) mins
     = (if first_takes then (l1 + (len - old), l2) else (l1, l2 + (len - old)))"
  using assms by (auto simp: stretch_lengths_def Let_def)


text \<open>The child on the way, of a split that grows: itself stretched by as much.\<close>

lemma stretch_split_child:
  fixes area ax s len e p
  defines "area' \<equiv> rect_along area ax s len"
  assumes way: "way_to p (Split sax sh a b) = Some (i # w)" and ok: "rect_ok area"
    and fit: "fits (Split sax sh a b) area" and len: "rect_len area ax < len" "s + len \<le> u16_max"
  defines "t \<equiv> Split sax sh a b"
  defines "u \<equiv> stretch area ax len e p t"
  shows "\<exists>s' len'. children u ! i = stretch (child_area t area i) ax len' e p (children t ! i)
     \<and> child_area u area' i = rect_along (child_area t area i) ax s' len'
     \<and> rect_len (child_area t area i) ax \<le> len'
     \<and> len' - rect_len (child_area t area i) ax = len - rect_len area ax \<and> s' + len' \<le> u16_max"
proof -
  have i: "i = 0 \<and> p \<in> set (leaves a) \<or> i = 1 \<and> p \<in> set (leaves b) \<and> p \<notin> set (leaves a)"
  proof -
    have "p \<in> set (leaves ([a, b] ! i))"
      using way_Cons_nth(3) [OF way] way_to_Some [of p "[a, b] ! i"] by auto
    then show ?thesis using way_Cons_nth(1,4) [OF way] by (auto simp: less_Suc_eq)
  qed
  have ok': "rect_ok area'" unfolding area'_def using len(2) by (rule rect_along_ok [OF ok])
  obtain l1 l2 v where l: "split_lengths sh (rect_len area sax) (min_of sax a, min_of sax b) = (l1, l2)"
    "split_parts sax sh area (min_of sax a, min_of sax b) =
       (rect_along area sax (rect_start area sax) l1, rect_along area sax (rect_start area sax + l1) v,
        rect_along area sax (rect_start area sax + l1 + v) l2)"
    "l1 + v + l2 \<le> rect_len area sax" "v = (if 0 < l2 then 1 else 0)"
    by (rule parts_eq [OF ok min_of_ge min_of_ge, of sh sax sax a sax b]) blast
  have fits_l: "min_of sax a \<le> l1" "min_of sax b \<le> l2" "l1 + 1 + l2 = rect_len area sax"
    using fits_Split [OF ok fit l(2)] by (auto simp: fits_def dest: spec [of _ sax])
  have start: "rect_start area sax + rect_len area sax \<le> u16_max" using ok by (simp add: rect_ok_start_len)
  show ?thesis
  proof (cases "sax = ax")
    case False
    have u: "u = Split sax sh (stretch (rect_along area sax (rect_start area sax) l1) ax len e p a)
        (stretch (rect_along area sax (rect_start area sax + l1 + v) l2) ax len e p b)"
      using False len(1) l(2) by (simp add: u_def t_def split_least_def stretch_lengths_def)
    have "split_parts sax sh area' (min_of sax a, min_of sax b) =
       (rect_along area' sax (rect_start area sax) l1, rect_along area' sax (rect_start area sax + l1) v,
        rect_along area' sax (rect_start area sax + l1 + v) l2)"
    proof -
      have "rect_len area' sax = rect_len area sax" "rect_start area' sax = rect_start area sax"
        using False by (simp_all add: area'_def)
      note same = this
      show ?thesis
        by (rule parts_eq [OF ok' min_of_ge min_of_ge, of sh sax sax a sax b]) (use same l(1,4) in simp)
    qed
    then have "child_area u area' i = rect_along (child_area t area i) ax s len"
      using l(2) False by (auto simp: u t_def area'_def rect_along_commute)
    then show ?thesis
      using i u l(2) len False
      by - (rule exI [of _ s], rule exI [of _ len], auto simp: t_def)
  next
    case True
    note fits_l = fits_l [unfolded True] and l = l [unfolded True] and start = start [unfolded True]
    let ?d = "len - rect_len area ax"
    define n1 n2 where "n1 = (if i = 0 then l1 + ?d else l1)" and "n2 = (if i = 0 then l2 else l2 + ?d)"
    have lens: "stretch_lengths ax ax len (contains a p \<or> \<not> contains b p \<and> e = Before) (l1, l2)
        (min_of ax a, min_of ax b) = (n1, n2)"
      using i stretch_lengths_grow [OF fits_l(3), of len "(min_of ax a, min_of ax b)"] fits_l(1,2) len(1)
      by (auto simp: n1_def n2_def)
    have u: "u = Split ax (shares_of n1 n2) (stretch (rect_along area ax (rect_start area ax) l1) ax n1 e p a)
        (stretch (rect_along area ax (rect_start area ax + l1 + v) l2) ax n2 e p b)"
      using True len(1) l(2) lens by (simp add: u_def t_def split_least_def)
    have n: "1 \<le> n1" "1 \<le> n2" "min_of ax a \<le> n1" "min_of ax b \<le> n2" "n1 + 1 + n2 = len"
      using fits_l len(1) min_of_ge [of ax a] min_of_ge [of ax b]
      by (auto simp: n1_def n2_def MIN_LEN_def)
    then have "split_lengths (shares_of n1 n2) len (min_of ax a, min_of ax b) = (n1, n2)"
      using shares_of_lengths [OF n(1-4)] len(2) by simp
    then have "split_parts ax (shares_of n1 n2) area' (min_of ax a, min_of ax b) =
       (rect_along area ax s n1, rect_along area ax (s + n1) 1, rect_along area ax (s + n1 + 1) n2)"
      using n(2) by - (rule parts_eq [OF ok' min_of_ge min_of_ge, of "shares_of n1 n2" ax ax a ax b], simp add: area'_def)
    then have "child_area u area' i = rect_along (child_area t area i) ax
        (if i = 0 then s else s + n1 + 1) (if i = 0 then n1 else n2)"
      using l(2) True by (simp add: u t_def)
    then show ?thesis
      using i u l(2) len True n(5)
      by - (rule exI [of _ "if i = 0 then s else s + n1 + 1"], rule exI [of _ "if i = 0 then n1 else n2"],
        auto simp: t_def n1_def n2_def)
  qed
qed

lemma stretch_grows:
  "way_to p t = Some w \<Longrightarrow> rect_ok area \<Longrightarrow> fits t area \<Longrightarrow> rect_len area ax \<le> len \<Longrightarrow>
   s + len \<le> u16_max \<Longrightarrow>
   pane_len ax p (stretch area ax len e p t) (rect_along area ax s len)
   = map_option (\<lambda>n. n + (len - rect_len area ax)) (pane_len ax p t area)"
proof (induction w arbitrary: t area s len)
  case Nil
  then have t: "t = Pane p" using way_to_at by fastforce
  have "\<not> rect_is_empty area" by (rule fits_not_empty [OF Nil.prems(3)])
  moreover have "\<not> rect_is_empty (rect_along area ax s len)"
    using fits_not_empty [OF stretch_fits [OF Nil.prems(3,4)]] .
  ultimately show ?case using t Nil.prems(4) by (simp add: pane_len_def)
next
  case (Cons i w)
  let ?area = "rect_along area ax s len"
  let ?u = "stretch area ax len e p t"
  have ok: "rect_ok ?area" using Cons.prems(5) by (rule rect_along_ok [OF Cons.prems(2)])
  have fit: "fits ?u ?area" by (rule stretch_fits [OF Cons.prems(3,4)])
  have way: "way_to p ?u = Some (i # w)" using Cons.prems(1) by (simp add: stretch_way)
  note w = way_Cons_nth [OF Cons.prems(1)]
  note c = child_fits [OF Cons.prems(2,3) w(2)]
  note step = pane_len_step [OF Cons.prems(2,3,1)] pane_len_step [OF ok fit way]
  show ?case
  proof (cases "\<exists>sax sh a b. t = Split sax sh a b \<and> len = rect_len area ax")
    case True
    then have "?u = t" by auto
    moreover have "same_size area ?area" using True unfolding same_size_def
      by (metis rect_len_along rect_len_along_other)
    ultimately show ?thesis
      using pane_len_same_size [OF Cons.prems(1,2) ok Cons.prems(3)] True by (simp add: option.map_ident)
  next
    case False
    have "\<exists>s' len'. children ?u ! i = stretch (child_area t area i) ax len' e p (children t ! i)
     \<and> child_area ?u ?area i = rect_along (child_area t area i) ax s' len'
     \<and> rect_len (child_area t area i) ax \<le> len'
     \<and> len' - rect_len (child_area t area i) ax = len - rect_len area ax \<and> s' + len' \<le> u16_max"
    proof (cases t)
      case (Pane q)
      then show ?thesis using w(1) by simp
    next
      case (Split sax sh a b)
      then have "rect_len area ax < len" using False Cons.prems(4) by auto
      then show ?thesis
        using stretch_split_child [OF Cons.prems(1) [unfolded Split] Cons.prems(2) Cons.prems(3) [unfolded Split] _
            Cons.prems(5), where e = e] Split by simp
    next
      case (Stack f r sh)
      then show ?thesis using Cons.prems w(1) by (cases i) (simp_all, (rule exI [of _ s], rule exI [of _ len], simp)+)
    qed
    then obtain s' len' where "children ?u ! i = stretch (child_area t area i) ax len' e p (children t ! i)"
      "child_area ?u ?area i = rect_along (child_area t area i) ax s' len'"
      "rect_len (child_area t area i) ax \<le> len'"
      "len' - rect_len (child_area t area i) ax = len - rect_len area ax" "s' + len' \<le> u16_max"
      by blast
    then show ?thesis
      using Cons.IH [OF w(3), of "child_area t area i" len' s'] c step by simp
  qed
qed

end
