(* ===== verification/Layout_Shift_Laws.thy ===== *)
theory Layout_Shift_Laws
  imports Layout_Resize_Laws
begin

text \<open>
  The borders a resize moves, from the pane out (\<open>Tree::shift\<close>, \<open>resize\<close> and
  \<open>resize_to\<close> of \<open>fux-wire/src/layout.rs\<close>): the areas its scan gives are those
  of the nodes on the way, a change under one of them leaves those above it,
  and each border moved out from the pane makes it as much longer.
\<close>

section \<open>The nodes on the way\<close>

lemma pane_len_way:
  "way_to p t = Some (w1 @ w2) \<Longrightarrow> rect_ok area \<Longrightarrow> fits t area \<Longrightarrow> at_way t w1 = Some v \<Longrightarrow>
   rect_ok (area_way t area w1) \<and> fits v (area_way t area w1) \<and> way_to p v = Some w2
   \<and> pane_len ax p t area = pane_len ax p v (area_way t area w1)"
proof (induction w1 arbitrary: t area)
  case (Cons i w1)
  from Cons.prems(1) have way: "way_to p t = Some (i # w1 @ w2)" by simp
  note w = way_Cons_nth [OF way]
  note c = child_fits [OF Cons.prems(2,3) w(2)]
  have "at_way (children t ! i) w1 = Some v" using Cons.prems(4) w(2) by simp
  with Cons.IH [of "children t ! i" "child_area t area i"] c w(3) show ?case
    using pane_len_step [OF Cons.prems(2,3) way, of ax] w(2) by simp
qed simp

lemma unshared_child_area:
  "unshared u = unshared k \<Longrightarrow> child_area (set_child t i u) area j = child_area t area j"
  if "get_at (children t) i = Some k"
proof (cases t)
  case (Split ax sh a b)
  assume "unshared u = unshared k"
  then have m: "min_of ax u = min_of ax k" by (metis min_of_unshared)
  show ?thesis using that Split m by (auto simp: get_at_Some_iff less_Suc_eq numeral_eq_Suc)
next
  case (Stack f r sh)
  then show ?thesis by (cases i) auto
qed auto

text \<open>A change at the end of a way, but for shares the same, leaves the areas down to it.\<close>

lemma area_way_put:
  "at_way t (w1 @ w2) = Some v \<Longrightarrow> unshared u = unshared v \<Longrightarrow>
   area_way (put_way t (w1 @ w2) u) area w1 = area_way t area w1"
proof (induction w1 arbitrary: t area)
  case (Cons i w1)
  then obtain k where k: "get_at (children t) i = Some k" "at_way k (w1 @ w2) = Some v"
    by (auto split: option.splits)
  let ?k = "put_way k (w1 @ w2) u"
  have "unshared ?k = unshared k" by (rule unshared_put_same [OF k(2) Cons.prems(2)])
  then have "child_area (set_child t i ?k) area i = child_area t area i"
    by (rule unshared_child_area [OF k(1)])
  moreover have "get_at (children (set_child t i ?k)) i = Some ?k"
    using k(1) by (simp add: children_set_child get_at_def split: if_splits)
  ultimately show ?case using k Cons.IH [OF k(2) Cons.prems(2)] by simp
qed simp

lemma area_way_append:
  "at_way t w1 = Some v \<Longrightarrow> area_way t area (w1 @ w2) = area_way v (area_way t area w1) w2"
  by (induction w1 arbitrary: t area) (auto split: option.splits)

text \<open>The areas the scan gives.\<close>

lemma areas_along_way:
  "way_to p t = Some w \<Longrightarrow> n < length w \<Longrightarrow>
   length (areas_along area (nodes_along t w)) = length w
   \<and> areas_along area (nodes_along t w) ! n = area_way t area (take n w)"
proof (induction w arbitrary: t area n)
  case (Cons i w)
  note w = way_Cons_nth [OF Cons.prems(1)]
  have "(case t of Split ax sh a b \<Rightarrow>
            (case split_parts ax sh area (split_least ax a b) of
               (first, _, second) \<Rightarrow> if i = 0 then first else second)
        | _ \<Rightarrow> area) = child_area t area i"
    by (cases t) (auto simp: split_least_def)
  then have eq: "areas_along area (nodes_along t (i # w))
      = area # areas_along (child_area t area i) (nodes_along (children t ! i) w)"
    using w(2) by simp
  have len: "length (areas_along (child_area t area i) (nodes_along (children t ! i) w)) = length w"
    using Cons.IH [OF w(3), of 0] by (cases w) auto
  show ?case
    using Cons.IH [OF w(3)] Cons.prems(2) w(2) len unfolding eq by (cases n) auto
qed simp

lemma way_prefix:
  "way_to p t = Some w \<Longrightarrow> n \<le> length w \<Longrightarrow>
   \<exists>v. at_way t (take n w) = Some v \<and> way_to p v = Some (drop n w)"
proof (induction w arbitrary: t n)
  case (Cons i w)
  note w = way_Cons_nth [OF Cons.prems(1)]
  show ?case using Cons.IH [OF w(3)] Cons.prems w(2) by (cases n) auto
qed simp

section \<open>One border\<close>

lemma border_grows:
  assumes ok: "rect_ok area" and fit: "fits (Split ax sh a b) area"
    and way: "way_to p (Split ax sh a b) = Some (i # w)"
    and side: "(i = 0) = (toward = After)"
    and mv: "move_border area p toward n (Split ax sh a b) = (d, u)"
  shows "pane_len ax p u area = map_option (\<lambda>m. m + d) (pane_len ax p (Split ax sh a b) area)"
proof -
  obtain r1 line r2 where p: "split_parts ax sh area (min_of ax a, min_of ax b) = (r1, line, r2)"
    by (metis prod_cases3)
  obtain l1 l2 v where l: "r1 = rect_along area ax (rect_start area ax) l1"
    "r2 = rect_along area ax (rect_start area ax + l1 + v) l2" "v = (if 0 < l2 then 1 else 0)"
    "rect_len r1 ax = l1" "rect_len r2 ax = l2"
    using parts_eq [OF ok min_of_ge min_of_ge, of sh ax ax a ax b] p by (metis prod.inject rect_len_along)
  have ok': "rect_ok r1" "rect_ok r2" using parts_ok [OF ok min_of_ge min_of_ge p] by auto
  have fit': "fits a r1" "fits b r2" using fits_Split [OF ok fit p] by auto
  obtain n1 n2 where n: "1 \<le> n1" "1 \<le> n2" "n1 + 1 + n2 = rect_len area ax"
    "case toward of After \<Rightarrow> n1 = l1 + d \<and> l2 = n2 + d | Before \<Rightarrow> l1 = n1 + d \<and> n2 = l2 + d"
    "split_lengths (shares_of n1 n2) (rect_len area ax) (min_of ax a, min_of ax b) = (n1, n2)"
    "u = (if d = 0 then Split ax sh a b
          else Split ax (shares_of n1 n2) (stretch r1 ax n1 After p a) (stretch r2 ax n2 Before p b))"
    by (rule move_border_form [OF ok fit mv p l(4,5)])
  show ?thesis
  proof (cases "d = 0")
    case True
    then show ?thesis using n(6) by (simp add: option.map_ident)
  next
    case False
    let ?s = "rect_start area ax"
    have start: "?s + rect_len area ax \<le> u16_max" using ok by (simp add: rect_ok_start_len)
    have uu: "unshared u = unshared (Split ax sh a b)" using n(6) by simp
    then have fu: "fits u area" using fits_unshared fit by blast
    have wu: "way_to p u = Some (i # w)" using way way_unshared [of p u] way_unshared [of p "Split ax sh a b"] uu by simp
    have parts: "split_parts ax (shares_of n1 n2) area (min_of ax a, min_of ax b) =
       (rect_along area ax ?s n1, rect_along area ax (?s + n1) 1, rect_along area ax (?s + n1 + 1) n2)"
      using n(2,5) by - (rule parts_eq [OF ok min_of_ge min_of_ge, of "shares_of n1 n2" ax ax a ax b], simp)
    note step = pane_len_step [OF ok fit way] pane_len_step [OF ok fu wu]
    have i: "i < 2" "way_to p ([a, b] ! i) = Some w" using way_Cons_nth(1,3) [OF way] by auto
    show ?thesis
    proof (cases toward)
      case After
      then have "i = 0" using side by simp
      then show ?thesis
        using stretch_grows [of p a w r1 ax n1 ?s After] After n False parts i step ok' fit' start l p by simp
    next
      case Before
      then have "i = 1" using side i(1) by simp
      then show ?thesis
        using stretch_grows [of p b w r2 ax n2 "?s + n1 + 1" Before] Before n False parts i step ok' fit' start l p
        by simp
    qed
  qed
qed

section \<open>The borders in turn\<close>

definition border_at :: "shift \<Rightarrow> tree \<Rightarrow> nat list \<Rightarrow> nat \<Rightarrow> bool" where
  "border_at s t w n \<longleftrightarrow>
     (case at_way t (take n w) of
        Some (Split ax _ _ _) \<Rightarrow> ax = sh_axis s \<and> ((w ! n = 0) = (sh_side s = After))
      | _ \<Rightarrow> False)"

lemma border_at_iff:
  "border_at s t w n \<longleftrightarrow>
   (\<exists>sh a b. at_way t (take n w) = Some (Split (sh_axis s) sh a b) \<and> ((w ! n = 0) = (sh_side s = After)))"
  by (auto simp: border_at_def split: option.splits tree.splits)

text \<open>What holds once the nodes of the way from its end up to the \<open>n\<close>th have had their turn.\<close>

definition shift_inv :: "shift \<Rightarrow> nat \<Rightarrow> tree \<Rightarrow> rect \<Rightarrow> nat list \<Rightarrow> nat \<Rightarrow> tree \<times> nat \<times> nat option \<Rightarrow> bool" where
  "shift_inv s amount t0 area w n st \<longleftrightarrow>
     (case st of (t, left, moved) \<Rightarrow>
        unshared t = unshared t0
      \<and> left + (case moved of None \<Rightarrow> 0 | Some m \<Rightarrow> m) = amount
      \<and> (\<forall>m \<le> n. area_way t area (take m w) = area_way t0 area (take m w))
      \<and> (moved = None \<longrightarrow> t = t0)
      \<and> (moved = None \<longleftrightarrow> (\<forall>m. n \<le> m \<and> m < length w \<longrightarrow> \<not> border_at s t0 w m))
      \<and> (sh_side s = sh_toward s \<longrightarrow>
           pane_len (sh_axis s) (sh_pane s) t area
           = map_option (\<lambda>k. k + (case moved of None \<Rightarrow> 0 | Some m \<Rightarrow> m)) (pane_len (sh_axis s) (sh_pane s) t0 area)))"

lemma all_from: "n < L \<Longrightarrow> (\<forall>m. n \<le> m \<and> m < L \<longrightarrow> Q m) \<longleftrightarrow> Q n \<and> (\<forall>m. Suc n \<le> m \<and> m < L \<longrightarrow> Q m)"
  by (metis Suc_leD Suc_leI le_eq_less_or_eq le_refl)

lemma border_at_unshared:
  assumes "unshared t = unshared t0"
  shows "border_at s t w n = border_at s t0 w n"
proof -
  from assms have "map_option unshared (at_way t (take n w)) = map_option unshared (at_way t0 (take n w))"
    by (metis unshared_at_way)
  then show ?thesis
    by (auto simp: border_at_def map_option_case split: option.splits tree.splits)
qed

lemma move_border_by:
  assumes "rect_ok area" "fits t area" "move_border area p toward n t = (d, u)"
  shows "d \<le> n"
proof (cases t)
  case (Split ax sh a b)
  obtain r1 line r2 where p: "split_parts ax sh area (min_of ax a, min_of ax b) = (r1, line, r2)"
    by (metis prod_cases3)
  show ?thesis
    by (rule move_border_form [OF assms(1) assms(2,3) [unfolded Split] p refl refl])
      (cases toward, auto)
qed (use assms(3) in auto)

lemma shift_step_inv:
  assumes way: "way_to (sh_pane s) t0 = Some w" and ok: "rect_ok area" "fits t0 area"
    and n: "n < length w" and am: "amount \<le> u16_max"
    and inv: "shift_inv s amount t0 area w (Suc n) (t, left, moved)"
  shows "shift_inv s amount t0 area w n
     (shift_step s w (n, w ! n, area_way t0 area (take n w)) (t, left, moved))"
proof -
  let ?area = "area_way t0 area (take n w)"
  from inv have i: "unshared t = unshared t0" "left + (case moved of None \<Rightarrow> 0 | Some m \<Rightarrow> m) = amount"
    "\<And>m. m \<le> Suc n \<Longrightarrow> area_way t area (take m w) = area_way t0 area (take m w)"
    "moved = None \<Longrightarrow> t = t0"
    "(moved = None) = (\<forall>m. Suc n \<le> m \<and> m < length w \<longrightarrow> \<not> border_at s t0 w m)"
    "sh_side s = sh_toward s \<Longrightarrow> pane_len (sh_axis s) (sh_pane s) t area
       = map_option (\<lambda>k. k + (case moved of None \<Rightarrow> 0 | Some m \<Rightarrow> m)) (pane_len (sh_axis s) (sh_pane s) t0 area)"
    by (auto simp: shift_inv_def)
  have here: "border_at s t w n = border_at s t0 w n" by (rule border_at_unshared [OF i(1)])
  have wt: "way_to (sh_pane s) t = Some w"
    using way i(1) by (metis way_unshared)
  have fit: "fits t area" using fits_unshared [OF i(1)] ok(2) by simp
  obtain v where v: "at_way t (take n w) = Some v" "way_to (sh_pane s) v = Some (drop n w)"
    using way_prefix [OF wt] n by (metis less_imp_le)
  have vw: "way_to (sh_pane s) v = Some (w ! n # drop (Suc n) w)" using v(2) n by (simp add: Cons_nth_drop_Suc)
  have node: "rect_ok ?area \<and> fits v ?area
      \<and> pane_len (sh_axis s) (sh_pane s) t area = pane_len (sh_axis s) (sh_pane s) v ?area"
    using pane_len_way [where ?w1.0 = "take n w" and ?w2.0 = "drop n w", OF _ ok(1) fit v(1)] wt i(3) [of n] by auto
  show ?thesis
  proof (cases "border_at s t w n \<and> \<not> (moved \<noteq> None \<and> (sh_side s \<noteq> sh_toward s \<or> left = 0))")
    case False
    then have "shift_step s w (n, w ! n, ?area) (t, left, moved) = (t, left, moved)"
      using v(1) by (auto simp: shift_step_def border_at_def split: tree.splits)
    moreover have "border_at s t0 w n \<Longrightarrow> moved \<noteq> None" using False here by auto
    ultimately show ?thesis
      using i unfolding shift_inv_def all_from [OF n] by auto
  next
    case True
    then obtain sh a b where sp: "v = Split (sh_axis s) sh a b" "(w ! n = 0) = (sh_side s = After)"
      using v(1) by (auto simp: border_at_def split: tree.splits)
    obtain by_cells u where mv: "move_border ?area (sh_pane s) (sh_toward s) left v = (by_cells, u)"
      by fastforce
    let ?m = "case moved of None \<Rightarrow> 0 | Some m \<Rightarrow> m"
    have le: "by_cells \<le> left" using move_border_by [OF _ _ mv] node by blast
    have st: "shift_step s w (n, w ! n, ?area) (t, left, moved)
        = (put_way t (take n w) u, left - by_cells, Some (?m + by_cells))"
      using True v(1) sp mv le i(2) am
      by (auto simp: shift_step_def sat16_exact split: option.splits)
    have uu: "unshared u = unshared v"
      using unshared_move_border [of ?area "sh_pane s" "sh_toward s" left v] mv by simp
    then have "unshared (put_way t (take n w) u) = unshared t0"
      using unshared_put_same [OF v(1)] i(1) by simp
    moreover have area: "area_way (put_way t (take n w) u) area (take m w) = area_way t0 area (take m w)"
      if "m \<le> n" for m
    proof -
      have "take n w = take m w @ drop m (take n w)"
        using that by (metis append_take_drop_id min.absorb1 take_take)
      then show ?thesis using area_way_put [OF _ uu] v(1) i(3) [of m] that by (metis le_SucI)
    qed
    moreover have "pane_len (sh_axis s) (sh_pane s) (put_way t (take n w) u) area
        = map_option (\<lambda>k. k + (?m + by_cells)) (pane_len (sh_axis s) (sh_pane s) t0 area)"
      if out: "sh_side s = sh_toward s"
    proof -
      let ?t = "put_way t (take n w) u"
      have "fits ?t area" using fits_unshared [OF \<open>unshared ?t = unshared t0\<close>] ok(2) by simp
      moreover have "way_to (sh_pane s) ?t = Some (take n w @ drop n w)"
        using way way_unshared [of "sh_pane s" ?t] way_unshared [of "sh_pane s" t0]
        by (simp add: \<open>unshared ?t = unshared t0\<close>)
      moreover have "at_way ?t (take n w) = Some u" by (rule at_put_way [OF v(1)])
      ultimately have "pane_len (sh_axis s) (sh_pane s) ?t area = pane_len (sh_axis s) (sh_pane s) u ?area"
        using pane_len_way [OF _ ok(1)] area [of n] by (metis le_refl)
      also have "\<dots> = map_option (\<lambda>k. k + by_cells) (pane_len (sh_axis s) (sh_pane s) v ?area)"
        using border_grows [of ?area "sh_axis s" sh a b "sh_pane s" "w ! n" "drop (Suc n) w" "sh_toward s" left by_cells u]
          node vw mv out unfolding sp(1) by (simp only: sp(2) simp_thms)
      also have "\<dots> = map_option (\<lambda>k. k + by_cells) (pane_len (sh_axis s) (sh_pane s) t area)" using node by simp
      finally show ?thesis using i(6) [OF out] by (simp add: option.map_comp comp_def add.assoc)
    qed
    ultimately show ?thesis
      using st le i(2) True here unfolding shift_inv_def all_from [OF n] by auto
  qed
qed

lemma shift_fold_inv:
  assumes way: "way_to (sh_pane s) t0 = Some w" and ok: "rect_ok area" "fits t0 area"
    and am: "amount \<le> u16_max" and n: "n \<le> length w"
  shows "shift_inv s amount t0 area w n
     (foldr (shift_step s w) (drop n (enumerate 0 (zip w (areas_along area (nodes_along t0 w))))) (t0, amount, None))"
  using n
proof (induction n rule: inc_induct)
  case base
  have "length (areas_along area (nodes_along t0 w)) = length w"
    using areas_along_way [OF way, of 0] by (cases w) auto
  then show ?case
    by (auto simp: shift_inv_def option.map_ident)
next
  case (step n)
  let ?xs = "enumerate 0 (zip w (areas_along area (nodes_along t0 w)))"
  have a: "length (areas_along area (nodes_along t0 w)) = length w"
    "areas_along area (nodes_along t0 w) ! n = area_way t0 area (take n w)"
    using areas_along_way [OF way step.hyps(2)] by auto
  have "drop n ?xs = ?xs ! n # drop (Suc n) ?xs"
    using step.hyps a by (simp add: Cons_nth_drop_Suc)
  moreover have "?xs ! n = (n, w ! n, area_way t0 area (take n w))"
    using step.hyps a by (simp add: nth_enumerate_eq)
  moreover obtain t left moved where "foldr (shift_step s w) (drop (Suc n) ?xs) (t0, amount, None) = (t, left, moved)"
    using prod_cases3 by blast
  ultimately show ?case
    using shift_step_inv [OF way ok step.hyps(2) am] step.IH by simp
qed

text \<open>Whether a pane has a border along an axis on a side, anywhere above it.\<close>

definition has_border :: "axis \<Rightarrow> side \<Rightarrow> tree \<Rightarrow> pane_id \<Rightarrow> bool" where
  "has_border ax sd t p \<longleftrightarrow>
     (case way_to p t of
        None \<Rightarrow> False
      | Some w \<Rightarrow> \<exists>n < length w. \<exists>sh a b. at_way t (take n w) = Some (Split ax sh a b) \<and> ((w ! n = 0) = (sd = After)))"

lemma tree_shift_spec:
  assumes ok: "rect_ok area" "fits t area" and am: "amount \<le> u16_max"
    and sh: "tree_shift area s amount t = (t', left, moved)"
  shows "unshared t' = unshared t" "left + (case moved of None \<Rightarrow> 0 | Some m \<Rightarrow> m) = amount"
    "moved = None \<longleftrightarrow> \<not> has_border (sh_axis s) (sh_side s) t (sh_pane s)" "moved = None \<Longrightarrow> t' = t"
    "sh_side s = sh_toward s \<Longrightarrow> pane_len (sh_axis s) (sh_pane s) t' area
       = map_option (\<lambda>k. k + (case moved of None \<Rightarrow> 0 | Some m \<Rightarrow> m)) (pane_len (sh_axis s) (sh_pane s) t area)"
proof -
  have "unshared t' = unshared t \<and> left + (case moved of None \<Rightarrow> 0 | Some m \<Rightarrow> m) = amount
    \<and> (moved = None \<longleftrightarrow> \<not> has_border (sh_axis s) (sh_side s) t (sh_pane s)) \<and> (moved = None \<longrightarrow> t' = t)
    \<and> (sh_side s = sh_toward s \<longrightarrow> pane_len (sh_axis s) (sh_pane s) t' area
       = map_option (\<lambda>k. k + (case moved of None \<Rightarrow> 0 | Some m \<Rightarrow> m)) (pane_len (sh_axis s) (sh_pane s) t area))"
  proof (cases "way_to (sh_pane s) t")
    case None
    then show ?thesis
      using sh by (auto simp: tree_shift_def down_to_along has_border_def option.map_ident)
  next
    case (Some w)
    have "shift_inv s amount t area w 0 (t', left, moved)"
      using shift_fold_inv [OF Some ok am, of 0] sh Some
      by (simp add: tree_shift_def down_to_along Let_def way_to_down [OF Some])
    moreover have "(\<exists>m < length w. border_at s t w m) \<longleftrightarrow> has_border (sh_axis s) (sh_side s) t (sh_pane s)"
      using Some by (simp add: has_border_def border_at_iff)
    ultimately show ?thesis unfolding shift_inv_def prod.case by (simp only: le0 simp_thms) blast
  qed
  then show "unshared t' = unshared t" "left + (case moved of None \<Rightarrow> 0 | Some m \<Rightarrow> m) = amount"
    "moved = None \<longleftrightarrow> \<not> has_border (sh_axis s) (sh_side s) t (sh_pane s)" "moved = None \<Longrightarrow> t' = t"
    "sh_side s = sh_toward s \<Longrightarrow> pane_len (sh_axis s) (sh_pane s) t' area
       = map_option (\<lambda>k. k + (case moved of None \<Rightarrow> 0 | Some m \<Rightarrow> m)) (pane_len (sh_axis s) (sh_pane s) t area)"
    by blast+
qed

lemma shift_step_unshared: "unshared (fst (shift_step s w x st)) = unshared (fst st)"
proof -
  obtain n i area where x: "x = (n, i, area)" by (metis prod_cases3)
  obtain t left moved where st: "st = (t, left, moved)" by (metis prod_cases3)
  show ?thesis
  proof (cases "at_way t (take n w)")
    case (Some v)
    obtain d u where mv: "move_border area (sh_pane s) (sh_toward s) left v = (d, u)" by fastforce
    then have "unshared u = unshared v"
      using unshared_move_border [of area "sh_pane s" "sh_toward s" left v] by simp
    then show ?thesis
      using x st Some mv unshared_put_same [OF Some, of u]
      by (auto simp: shift_step_def Let_def split: tree.splits)
  qed (simp add: x st shift_step_def)
qed

lemma tree_shift_unshared: "unshared (fst (tree_shift area s n t)) = unshared t"
proof -
  have "unshared (fst (foldr (shift_step s w) xs (t, n, None))) = unshared t" for w xs
    by (induction xs) (simp_all add: shift_step_unshared)
  then show ?thesis by (simp add: tree_shift_def Let_def split: option.splits)
qed

section \<open>Resizing\<close>


lemma one_split_border: "has_border Horizontal After one_split 1"
  by (auto simp: has_border_def one_split_def intro!: exI [of _ 0])




end
