(* ===== verification/Layout_Flat.thy ===== *)
theory Layout_Flat
  imports Layout_Edit_Laws "HOL-Library.Multiset"
begin

text \<open>
  A layout flat, as it goes on the wire: the nodes of a tree in preorder, each
  with its children's indices (\<open>flat\<close>, \<open>nodes\<close>, \<open>choices\<close> and the equality of
  trees that rests on them), and the tree of a flat layout a client gave
  (\<open>from_nodes\<close>), which is checked before it is built.
\<close>

datatype node =
    NPane pane_id
  | NSplit axis nat nat nat nat
  | NStack "nat list"

section \<open>A tree flat\<close>

text \<open>A child's index put in its parent, where the parent has that child.\<close>

fun set_index :: "nat \<Rightarrow> nat \<Rightarrow> node \<Rightarrow> node" where
  "set_index i k (NSplit ax s1 s2 a b) = (if k = 0 then NSplit ax s1 s2 i b else NSplit ax s1 s2 a i)"
| "set_index i k (NStack cs) = NStack (cs[k := i])"
| "set_index i k (NPane p) = NPane p"

definition put_index :: "(nat \<times> nat) option \<Rightarrow> nat \<Rightarrow> node list \<Rightarrow> node list" where
  "put_index parent i ns =
     (case parent of
        None \<Rightarrow> ns
      | Some (p, k) \<Rightarrow> (case get_at ns p of None \<Rightarrow> ns | Some n \<Rightarrow> ns[p := set_index i k n]))"

fun bare_node :: "tree \<Rightarrow> node" where
  "bare_node (Pane p) = NPane p"
| "bare_node (Split ax s a b) = (case shares_get s of (s1, s2) \<Rightarrow> NSplit ax s1 s2 0 0)"
| "bare_node (Stack f r sh) = NStack (replicate (length (f # r)) 0)"

fun stack_choices :: "nat \<Rightarrow> tree \<Rightarrow> (nat \<times> (client_id \<rightharpoonup> nat shown)) list" where
  "stack_choices n (Stack f r sh) = [(n, sh)]"
| "stack_choices n t = []"

text \<open>\<open>Tree::flat\<close>: a stack of the trees left, each with the node and child it is of.\<close>

function flat_loop ::
    "(tree \<times> (nat \<times> nat) option) list \<Rightarrow> node list \<Rightarrow> (nat \<times> (client_id \<rightharpoonup> nat shown)) list \<Rightarrow>
     node list \<times> (nat \<times> (client_id \<rightharpoonup> nat shown)) list" where
  "flat_loop [] ns ss = (ns, ss)"
| "flat_loop ((t, parent) # work) ns ss =
     (let n = length ns; index = min n u32_max
      in flat_loop (map (\<lambda>(k, c). (c, Some (n, k))) (enumerate 0 (children t)) @ work)
           (put_index parent index ns @ [bare_node t]) (ss @ stack_choices n t))"
  by pat_completeness auto
termination
proof (relation "measure (\<lambda>(work, ns, ss). sum_list (map (tree_nodes \<circ> fst) work))", simp, goal_cases)
  case (1 t parent work ns ss n index)
  have "map (tree_nodes \<circ> fst) (map (\<lambda>(k, c). (c, Some (n, k))) (enumerate m cs)) = map tree_nodes cs" for m cs
    by (induction cs arbitrary: m) auto
  then show ?case by (simp only: in_measure prod.case map_append sum_list_append list.map comp_apply fst_conv sum_list.Cons)
      (simp add: tree_nodes_eq [of t])
qed

declare flat_loop.simps(2) [simp del]

definition flat :: "tree \<Rightarrow> node list \<times> (nat \<times> (client_id \<rightharpoonup> nat shown)) list" where
  "flat t = flat_loop [(t, None)] [] []"

definition tree_flat_nodes :: "tree \<Rightarrow> node list" where
  "tree_flat_nodes t = fst (flat t)"

text \<open>\<open>u32::try_from\<close> of an index.\<close>

definition as_u32 :: "nat \<Rightarrow> nat option" where
  "as_u32 n = (if n \<le> u32_max then Some n else None)"

definition tree_choices :: "client_id \<Rightarrow> tree \<Rightarrow> (nat \<times> nat shown) list" where
  "tree_choices c t =
     (case flat t of (ns, ss) \<Rightarrow>
      List.map_filter (\<lambda>(i, sh).
        case get_at ns i of
          Some (NStack cs) \<Rightarrow>
            (let s = stack_shown c sh
             in case (get_at cs (current s), as_u32 i) of
                  (Some cur, Some at) \<Rightarrow>
                    Some (at, \<lparr>current = cur, last_shown = Option.bind (last_shown s) (get_at cs)\<rparr>)
                | _ \<Rightarrow> None)
        | _ \<Rightarrow> None) ss)"

text \<open>\<open>PartialEq for Tree\<close>.\<close>

definition tree_eq :: "tree \<Rightarrow> tree \<Rightarrow> bool" where
  "tree_eq a b \<longleftrightarrow>
     (case flat a of (ns, ss) \<Rightarrow> case flat b of (ms, tt) \<Rightarrow> ns = ms \<and> map snd ss = map snd tt)"

section \<open>The structural reading\<close>

text \<open>The nodes of a tree whose root is at \<open>n\<close>, and where each of the trees that follow one another begins.\<close>

fun begins :: "nat \<Rightarrow> tree list \<Rightarrow> nat list" where
  "begins n [] = []"
| "begins n (t # ts) = n # begins (n + tree_nodes t) ts"

fun index_node :: "nat \<Rightarrow> tree \<Rightarrow> node" where
  "index_node n (Pane p) = NPane p"
| "index_node n (Split ax s a b) =
     (case shares_get s of (s1, s2) \<Rightarrow> NSplit ax s1 s2 (Suc n) (Suc (n + tree_nodes a)))"
| "index_node n (Stack f r sh) = NStack (begins (Suc n) (f # r))"

function enc :: "nat \<Rightarrow> tree \<Rightarrow> node list" where
  "enc n t = index_node n t # concat (map (\<lambda>(m, c). enc m c) (zip (begins (Suc n) (children t)) (children t)))"
  by pat_completeness auto
termination
  by (relation "measure (\<lambda>(n, t). tree_nodes t)") (auto dest!: set_zip_rightD intro: children_nodes_less)

declare enc.simps [simp del]

fun enc_list :: "nat \<Rightarrow> tree list \<Rightarrow> node list" where
  "enc_list n [] = []"
| "enc_list n (t # ts) = enc n t @ enc_list (n + tree_nodes t) ts"

lemma enc_unfold: "enc n t = index_node n t # enc_list (Suc n) (children t)"
proof -
  have "concat (map (\<lambda>(m, c). enc m c) (zip (begins m cs) cs)) = enc_list m cs" for m cs
    by (induction m cs rule: begins.induct) auto
  then show ?thesis by (simp add: enc.simps [of n t])
qed

lemma enc_list_length: "(\<And>c n. c \<in> set cs \<Longrightarrow> length (enc n c) = tree_nodes c) \<Longrightarrow>
  length (enc_list m cs) = sum_list (map tree_nodes cs)"
  by (induction m cs rule: enc_list.induct) auto

lemma enc_length [simp]: "length (enc n t) = tree_nodes t"
proof (induction t arbitrary: n rule: tree_children_induct)
  case (node t)
  then show ?case by (simp add: enc_unfold enc_list_length tree_nodes_eq [of t])
qed

lemma enc_list_length' [simp]: "length (enc_list m cs) = sum_list (map tree_nodes cs)"
  by (simp add: enc_list_length)

fun stacks_of :: "nat \<Rightarrow> tree \<Rightarrow> (nat \<times> (client_id \<rightharpoonup> nat shown)) list"
and stacks_in :: "nat \<Rightarrow> tree list \<Rightarrow> (nat \<times> (client_id \<rightharpoonup> nat shown)) list" where
  "stacks_of n (Pane p) = []"
| "stacks_of n (Split ax s a b) = stacks_of (Suc n) a @ stacks_of (Suc (n + tree_nodes a)) b"
| "stacks_of n (Stack f r sh) = (n, sh) # stacks_of (Suc n) f @ stacks_in (Suc (n + tree_nodes f)) r"
| "stacks_in n [] = []"
| "stacks_in n (t # ts) = stacks_of n t @ stacks_in (n + tree_nodes t) ts"

lemma stacks_unfold: "stacks_of n t = stack_choices n t @ stacks_in (Suc n) (children t)"
  by (cases t) auto

fun fill_from :: "nat \<Rightarrow> nat list \<Rightarrow> node \<Rightarrow> node" where
  "fill_from k [] nd = nd"
| "fill_from k (i # is) nd = fill_from (Suc k) is (set_index i k nd)"

lemma put_index_length [simp]: "length (put_index parent i ns) = length ns"
  by (auto simp: put_index_def split: option.splits)

lemma put_index_mid: "n = length xs \<Longrightarrow> put_index (Some (n, k)) i (xs @ nd # ys) = xs @ set_index i k nd # ys"
  by (simp add: put_index_def get_at_def)

lemma fill_stack: "fill_from (length xs) is (NStack (xs @ replicate (length is) 0)) = NStack (xs @ is)"
proof (induction "is" arbitrary: xs)
  case (Cons i "is")
  show ?case using Cons [of "xs @ [i]"] by simp
qed simp

lemma begins_length [simp]: "length (begins n ts) = length ts"
  by (induction n ts rule: begins.induct) auto

lemma fill_node: "fill_from 0 (begins (Suc n) (children t)) (bare_node t) = index_node n t"
proof (cases t)
  case (Stack f r sh)
  have "replicate (length (f # r)) (0 :: nat) = replicate (length (begins (Suc n) (f # r))) 0" by simp
  then show ?thesis
    using fill_stack [of "[]" "begins (Suc n) (f # r)"] by (simp only: Stack children.simps bare_node.simps index_node.simps list.size append_Nil)
qed (auto split: prod.splits)

definition flat_here :: "tree \<Rightarrow> bool" where
  "flat_here t \<longleftrightarrow> (\<forall>parent work ns ss. length ns + tree_nodes t \<le> Suc u32_max \<longrightarrow>
     flat_loop ((t, parent) # work) ns ss
     = flat_loop work (put_index parent (length ns) ns @ enc (length ns) t) (ss @ stacks_of (length ns) t))"

lemma flat_hereD:
  "flat_here t \<Longrightarrow> length ns + tree_nodes t \<le> Suc u32_max \<Longrightarrow>
   flat_loop ((t, parent) # work) ns ss
   = flat_loop work (put_index parent (length ns) ns @ enc (length ns) t) (ss @ stacks_of (length ns) t)"
  by (simp add: flat_here_def)

lemma flat_children:
  "\<forall>c \<in> set cs. flat_here c \<Longrightarrow> n = length xs \<Longrightarrow> m = Suc (n + length ys) \<Longrightarrow>
   m + sum_list (map tree_nodes cs) \<le> Suc u32_max \<Longrightarrow>
   flat_loop (map (\<lambda>(k, c). (c, Some (n, k))) (enumerate j cs) @ work) (xs @ nd # ys) ss
   = flat_loop work (xs @ fill_from j (begins m cs) nd # ys @ enc_list m cs) (ss @ stacks_in m cs)"
proof (induction cs arbitrary: j nd ys ss m)
  case (Cons c cs)
  have "flat_loop ((c, Some (n, j)) # map (\<lambda>(k, c). (c, Some (n, k))) (enumerate (Suc j) cs) @ work) (xs @ nd # ys) ss
      = flat_loop (map (\<lambda>(k, c). (c, Some (n, k))) (enumerate (Suc j) cs) @ work)
          (xs @ set_index m j nd # ys @ enc m c) (ss @ stacks_of m c)"
    using Cons.prems flat_hereD [of c "xs @ nd # ys" "Some (n, j)" _ ss] by (simp add: put_index_mid)
  also have "\<dots> = flat_loop work (xs @ fill_from (Suc j) (begins (m + tree_nodes c) cs) (set_index m j nd)
        # (ys @ enc m c) @ enc_list (m + tree_nodes c) cs) ((ss @ stacks_of m c) @ stacks_in (m + tree_nodes c) cs)"
    using Cons.prems by (intro Cons.IH) auto
  finally show ?case by simp
qed simp

lemma flat_tree: "flat_here t"
proof (induction t rule: tree_children_induct)
  case (node t)
  show ?case
    unfolding flat_here_def
  proof (intro allI impI)
    fix parent :: "(nat \<times> nat) option" and work ss and ns :: "node list"
    assume le: "length ns + tree_nodes t \<le> Suc u32_max"
    let ?ns = "put_index parent (length ns) ns"
    have "length ns \<le> u32_max" using le tree_nodes_pos [of t] by linarith
    then have "flat_loop ((t, parent) # work) ns ss
        = flat_loop (map (\<lambda>(k, c). (c, Some (length ns, k))) (enumerate 0 (children t)) @ work)
            (?ns @ [bare_node t]) (ss @ stack_choices (length ns) t)"
      by (simp add: flat_loop.simps(2) Let_def min_absorb1)
    also have "\<dots> = flat_loop work (?ns @ fill_from 0 (begins (Suc (length ns)) (children t)) (bare_node t)
          # [] @ enc_list (Suc (length ns)) (children t))
          ((ss @ stack_choices (length ns) t) @ stacks_in (Suc (length ns)) (children t))"
      using node le by (intro flat_children) (auto simp: tree_nodes_eq [of t])
    finally show "flat_loop ((t, parent) # work) ns ss
        = flat_loop work (?ns @ enc (length ns) t) (ss @ stacks_of (length ns) t)"
      by (simp only: fill_node enc_unfold stacks_unfold append_assoc append_Nil)
  qed
qed

lemma flat_enc: "tree_nodes t \<le> Suc u32_max \<Longrightarrow> flat t = (enc 0 t, stacks_of 0 t)"
  using flat_hereD [OF flat_tree [of t], of "[]" None "[]" "[]"] by (simp add: flat_def put_index_def)

subsection \<open>Equality\<close>

lemma index_node_same:
  assumes "index_node n a = index_node n b"
  shows "length (children a) = length (children b) \<and> pane_of a = pane_of b
    \<and> (\<forall>ax s k l. a = Split ax s k l \<longrightarrow> (\<exists>k' l'. b = Split ax s k' l'))
    \<and> (\<forall>f r sh. a = Stack f r sh \<longrightarrow> (\<exists>f' r' sh'. b = Stack f' r' sh'))"
proof (cases a)
  case (Stack f r sh)
  then obtain f' r' sh' where b: "b = Stack f' r' sh'"
    using assms by (cases b) (auto split: prod.splits)
  have "length (begins (Suc n) (f # r)) = length (begins (Suc n) (f' # r'))"
    using assms Stack b by simp
  then show ?thesis using Stack b by simp
next
  case (Split ax s k l)
  then obtain ax' s' k' l' where b: "b = Split ax' s' k' l'"
    using assms by (cases b) (auto split: prod.splits)
  then show ?thesis using assms Split by (cases s; cases s') auto
qed (use assms in \<open>cases b; auto split: prod.splits\<close>)

definition same_flat :: "tree \<Rightarrow> bool" where
  "same_flat a \<longleftrightarrow> (\<forall>n b x y u v. enc n a @ x = enc n b @ y \<longrightarrow>
     map snd (stacks_of n a) @ u = map snd (stacks_of n b) @ v \<longrightarrow> a = b \<and> x = y \<and> u = v)"

lemma same_flat_list:
  "\<forall>a \<in> set as. same_flat a \<Longrightarrow> length as = length bs \<Longrightarrow> enc_list n as @ x = enc_list n bs @ y \<Longrightarrow>
   map snd (stacks_in n as) @ u = map snd (stacks_in n bs) @ v \<Longrightarrow> as = bs \<and> x = y \<and> u = v"
proof (induction as arbitrary: bs n)
  case (Cons a as)
  obtain b bs' where bs: "bs = b # bs'" using Cons.prems(2) by (cases bs) auto
  have "enc n a @ enc_list (n + tree_nodes a) as @ x = enc n b @ enc_list (n + tree_nodes b) bs' @ y"
    "map snd (stacks_of n a) @ map snd (stacks_in (n + tree_nodes a) as) @ u
     = map snd (stacks_of n b) @ map snd (stacks_in (n + tree_nodes b) bs') @ v"
    using Cons.prems(3,4) bs by simp_all
  then have ab: "a = b \<and> enc_list (n + tree_nodes a) as @ x = enc_list (n + tree_nodes b) bs' @ y
      \<and> map snd (stacks_in (n + tree_nodes a) as) @ u = map snd (stacks_in (n + tree_nodes b) bs') @ v"
    using Cons.prems(1) unfolding same_flat_def by (metis list.set_intros(1))
  then show ?case using Cons.IH [of bs' "n + tree_nodes a"] Cons.prems(1,2) bs by auto
qed simp

lemma same_flat_tree: "same_flat a"
proof (induction a rule: tree_children_induct)
  case (node a)
  show ?case
    unfolding same_flat_def
  proof (intro allI impI)
    fix n b x y u v
    assume e: "enc n a @ x = enc n b @ y" and s: "map snd (stacks_of n a) @ u = map snd (stacks_of n b) @ v"
    have i: "index_node n a = index_node n b"
      and es: "enc_list (Suc n) (children a) @ x = enc_list (Suc n) (children b) @ y"
      using e by (simp_all add: enc_unfold)
    note same = index_node_same [OF i]
    have c: "map snd (stack_choices n a) = map snd (stack_choices n b)
        \<and> map snd (stacks_in (Suc n) (children a)) @ u = map snd (stacks_in (Suc n) (children b)) @ v"
      using s same unfolding stacks_unfold by (cases a; cases b) auto
    have "children a = children b \<and> x = y \<and> u = v"
      by (rule same_flat_list [OF _ _ es conjunct2 [OF c]]) (use node same in auto)
    then show "a = b \<and> x = y \<and> u = v" using same c by (cases a; cases b) auto
  qed
qed

text \<open>
  Two trees are equal to the code (\<open>PartialEq\<close>, on their flat nodes and
  what each client is shown at each stack) exactly when they are the same
  tree, up to what a u32 indexes.
\<close>

lemma tree_eq_is_equality:
  assumes "tree_nodes a \<le> Suc u32_max" "tree_nodes b \<le> Suc u32_max"
  shows "tree_eq a b \<longleftrightarrow> a = b"
proof
  assume "tree_eq a b"
  then have "enc 0 a @ [] = enc 0 b @ []" "map snd (stacks_of 0 a) @ [] = map snd (stacks_of 0 b) @ []"
    by (simp_all add: tree_eq_def flat_enc [OF assms(1)] flat_enc [OF assms(2)])
  then show "a = b" using same_flat_tree [of a] unfolding same_flat_def by blast
qed (simp add: tree_eq_def split: prod.splits)

lemma tree_eq_is_equality_witness:
  "tree_eq (Stack (Pane 1) [Pane 2] Map.empty) (Stack (Pane 1) [Pane 2] (Map.empty(7 \<mapsto> shown_on 1)))
   \<longleftrightarrow> Stack (Pane 1) [Pane 2] Map.empty = Stack (Pane 1) [Pane 2] (Map.empty(7 \<mapsto> shown_on 1))"
  by (rule tree_eq_is_equality) (simp_all add: u32_max_def)

section \<open>The tree of a flat layout\<close>

text \<open>Why a flat layout is refused: each is \<open>bad_value\<close>, told apart by what it says.\<close>

datatype bad_layout =
    Needs_Node | Wrong_Panes | Out_Of_Range | Not_Once | Small_Stack | Unreachable

definition admit_nodes :: "nat \<Rightarrow> bad_layout + unit" where
  "admit_nodes len = (if len = 0 then Inl Needs_Node else Inr ())"

fun pane_node :: "node \<Rightarrow> pane_id option" where
  "pane_node (NPane p) = Some p"
| "pane_node _ = None"

definition node_leaves :: "node list \<Rightarrow> pane_id list" where
  "node_leaves ns = List.map_filter pane_node ns"

fun node_children :: "node \<Rightarrow> nat list" where
  "node_children (NPane p) = []"
| "node_children (NSplit ax s1 s2 a b) = [a, b]"
| "node_children (NStack cs) = cs"

fun small_stack :: "node \<Rightarrow> bool" where
  "small_stack (NStack cs) = (length cs < 2)"
| "small_stack _ = False"

lemma unseen_less:
  assumes "get_at seen i = Some False"
  shows "length (filter Not seen) = Suc (length (filter Not (seen[i := True])))"
proof -
  define xs ys where "xs = take i seen" and "ys = drop (Suc i) seen"
  have i: "i < length seen" "\<not> seen ! i" using assms by (auto simp: get_at_Some_iff)
  have s: "seen = xs @ False # ys" unfolding xs_def ys_def using i by (metis id_take_nth_drop)
  have "seen[i := True] = xs @ True # ys" unfolding xs_def ys_def using i by (simp add: upd_conv_take_nth_drop)
  then show ?thesis by (simp add: s)
qed

text \<open>The walk over the indices: which are seen, and the order, parents first.\<close>

function order_loop :: "node list \<Rightarrow> bool list \<Rightarrow> nat list \<Rightarrow> nat list \<Rightarrow> bad_layout + (bool list \<times> nat list)" where
  "order_loop ns seen order [] = Inr (seen, order)"
| "order_loop ns seen order (at # pending) =
     (case get_at seen at of
        None \<Rightarrow> Inl Out_Of_Range
      | Some True \<Rightarrow> Inl Not_Once
      | Some False \<Rightarrow>
          (case get_at ns at of
             None \<Rightarrow> order_loop ns (seen[at := True]) (order @ [at]) pending
           | Some n \<Rightarrow>
               if small_stack n then Inl Small_Stack
               else order_loop ns (seen[at := True]) (order @ [at]) (node_children n @ pending)))"
  by pat_completeness auto

termination
  by (relation "measures [\<lambda>(ns, seen, order, pending). length (filter Not seen), \<lambda>(ns, seen, order, pending). length pending]")
    (auto dest: unseen_less)

declare order_loop.simps(2) [simp del]

text \<open>\<open>Option::take\<close> of what is built at an index.\<close>

definition take_built :: "tree option list \<Rightarrow> nat \<Rightarrow> bad_layout + (tree \<times> tree option list)" where
  "take_built built at =
     (case get_at built at of
        Some (Some t) \<Rightarrow> Inr (t, built[at := None])
      | _ \<Rightarrow> Inl Not_Once)"

fun take_all :: "tree option list \<Rightarrow> nat list \<Rightarrow> bad_layout + (tree list \<times> tree option list)" where
  "take_all built [] = Inr ([], built)"
| "take_all built (at # ats) =
     (case take_built built at of
        Inl e \<Rightarrow> Inl e
      | Inr (t, built') \<Rightarrow>
          (case take_all built' ats of Inl e \<Rightarrow> Inl e | Inr (ts, built'') \<Rightarrow> Inr (t # ts, built'')))"

fun made_of :: "node \<Rightarrow> tree list \<Rightarrow> bad_layout + tree" where
  "made_of (NPane p) ts = Inr (Pane p)"
| "made_of (NSplit ax s1 s2 _ _) ts = (case ts of [a, b] \<Rightarrow> Inr (Split ax (shares_new s1 s2) a b) | _ \<Rightarrow> Inl Not_Once)"
| "made_of (NStack _) ts = (case ts of [] \<Rightarrow> Inl Small_Stack | f # r \<Rightarrow> Inr (Stack f r Map.empty))"

definition build_one :: "node list \<Rightarrow> nat \<Rightarrow> tree option list \<Rightarrow> bad_layout + tree option list" where
  "build_one ns at built =
     (case get_at ns at of
        None \<Rightarrow> Inl Out_Of_Range
      | Some n \<Rightarrow>
          (case take_all built (node_children n) of
             Inl e \<Rightarrow> Inl e
           | Inr (ts, built') \<Rightarrow>
               (case made_of n ts of Inl e \<Rightarrow> Inl e | Inr t \<Rightarrow> Inr (built'[at := Some t]))))"

fun build_all :: "node list \<Rightarrow> nat list \<Rightarrow> tree option list \<Rightarrow> bad_layout + tree option list" where
  "build_all ns [] built = Inr built"
| "build_all ns (at # ats) built =
     (case build_one ns at built of Inl e \<Rightarrow> Inl e | Inr built' \<Rightarrow> build_all ns ats built')"

definition from_nodes :: "node list \<Rightarrow> pane_id list \<Rightarrow> bad_layout + tree" where
  "from_nodes ns ps =
     (case admit_nodes (length ns) of
        Inl e \<Rightarrow> Inl e
      | Inr _ \<Rightarrow>
          if sort (node_leaves ns) \<noteq> sort ps then Inl Wrong_Panes
          else (case order_loop ns (replicate (length ns) False) [] [0] of
                  Inl e \<Rightarrow> Inl e
                | Inr (seen, order) \<Rightarrow>
                    if list_ex Not seen then Inl Unreachable
                    else (case build_all ns (rev order) (replicate (length ns) None) of
                            Inl e \<Rightarrow> Inl e
                          | Inr built \<Rightarrow>
                              (case take_built built 0 of Inl e \<Rightarrow> Inl e | Inr (t, _) \<Rightarrow> Inr t))))"

subsection \<open>The nodes of a tree give it back\<close>

text \<open>A tree as a flat layout has it: no client's choices, the shares in lowest terms.\<close>

fun bare :: "tree \<Rightarrow> tree" where
  "bare (Pane p) = Pane p"
| "bare (Split ax s a b) = Split ax (case shares_get s of (s1, s2) \<Rightarrow> shares_new s1 s2) (bare a) (bare b)"
| "bare (Stack f r sh) = Stack (bare f) (map bare r) Map.empty"

lemma node_leaves_append [simp]: "node_leaves (xs @ ys) = node_leaves xs @ node_leaves ys"
  by (simp add: node_leaves_def List.map_filter_def)

lemma node_leaves_Cons: "node_leaves (n # ns) = (case pane_node n of None \<Rightarrow> node_leaves ns | Some p \<Rightarrow> p # node_leaves ns)"
  by (simp add: node_leaves_def List.map_filter_def split: option.splits)

lemma leaves_enc: "node_leaves (enc n t) = leaves t"
proof (induction t arbitrary: n rule: tree_children_induct)
  case (node t)
  have list: "(\<And>c. c \<in> set cs \<Longrightarrow> c \<in> set (children t)) \<Longrightarrow> node_leaves (enc_list m cs) = concat (map leaves cs)" for m cs
    using node by (induction m cs rule: enc_list.induct) (auto simp: node_leaves_def List.map_filter_def)
  show ?case
    using list [of "children t" "Suc n"]
    by (cases t) (auto simp: enc_unfold node_leaves_Cons split: prod.splits)
qed

lemma index_node_children: "node_children (index_node n t) = begins (Suc n) (children t)"
  by (cases t) (auto split: prod.splits)

lemma upt_split: "[n..<n + (a + b)] = [n..<n + a] @ [n + a..<n + a + b]"
  by (simp only: add.assoc [symmetric]) (rule upt_add_eq_append, simp)

lemma upt_first: "[n..<n + Suc r] = n # [Suc n..<Suc n + r]"
  by (rule trans [OF upt_conv_Cons]) (simp_all del: upt_Suc)

definition ordered_here :: "node list \<Rightarrow> tree \<Rightarrow> bool" where
  "ordered_here ns t \<longleftrightarrow> (\<forall>n xs ys sx sy order pending. ns = xs @ enc n t @ ys \<longrightarrow> length xs = n \<longrightarrow> length sx = n \<longrightarrow>
     order_loop ns (sx @ replicate (tree_nodes t) False @ sy) order (n # pending)
     = order_loop ns (sx @ replicate (tree_nodes t) True @ sy) (order @ [n..<n + tree_nodes t]) pending)"

lemma ordered_hereD:
  "ordered_here ns t \<Longrightarrow> ns = xs @ enc n t @ ys \<Longrightarrow> length xs = n \<Longrightarrow> length sx = n \<Longrightarrow>
   order_loop ns (sx @ replicate (tree_nodes t) False @ sy) order (n # pending)
   = order_loop ns (sx @ replicate (tree_nodes t) True @ sy) (order @ [n..<n + tree_nodes t]) pending"
  unfolding ordered_here_def by blast

lemma ordered_list:
  "\<forall>c \<in> set cs. ordered_here ns c \<Longrightarrow> ns = xs @ enc_list n cs @ ys \<Longrightarrow> length xs = n \<Longrightarrow> length sx = n \<Longrightarrow>
   order_loop ns (sx @ replicate (sum_list (map tree_nodes cs)) False @ sy) order (begins n cs @ pending)
   = order_loop ns (sx @ replicate (sum_list (map tree_nodes cs)) True @ sy)
       (order @ [n..<n + sum_list (map tree_nodes cs)]) pending"
proof (induction cs arbitrary: n xs sx order)
  case (Cons c cs)
  let ?k = "tree_nodes c" and ?r = "sum_list (map tree_nodes cs)"
  have "order_loop ns (sx @ replicate ?k False @ (replicate ?r False @ sy)) order (n # begins (n + ?k) cs @ pending)
      = order_loop ns (sx @ replicate ?k True @ (replicate ?r False @ sy)) (order @ [n..<n + ?k]) (begins (n + ?k) cs @ pending)"
    using Cons.prems by (intro ordered_hereD [where xs = xs and ys = "enc_list (n + ?k) cs @ ys"]) simp_all
  also have "\<dots> = order_loop ns ((sx @ replicate ?k True) @ replicate ?r True @ sy)
      ((order @ [n..<n + ?k]) @ [n + ?k..<n + ?k + ?r]) pending"
    using Cons.IH [of "xs @ enc n c" "n + ?k" "sx @ replicate ?k True" "order @ [n..<n + ?k]"] Cons.prems by simp
  finally show ?case
    by (simp only: list.map sum_list.Cons begins.simps replicate_add upt_split append_assoc append_Cons)
qed simp

lemma not_small: "tree_ok t \<Longrightarrow> \<not> small_stack (index_node n t)"
  by (cases t) (auto split: prod.splits simp: Suc_le_eq)

lemma ordered_tree: "tree_ok t \<Longrightarrow> ordered_here ns t"
proof (induction t rule: tree_children_induct)
  case (node t)
  have kids: "\<forall>c \<in> set (children t). ordered_here ns c"
    using node tree_ok_children [of t] by blast
  show ?case
    unfolding ordered_here_def
  proof (intro allI impI)
    fix n order pending and xs ys :: "node list" and sx sy :: "bool list"
    assume ns: "ns = xs @ enc n t @ ys" and n: "length xs = n" "length sx = n"
    let ?r = "sum_list (map tree_nodes (children t))"
    have "get_at (sx @ False # replicate ?r False @ sy) n = Some False" using n by (simp add: get_at_def nth_append)
    moreover have "get_at ns n = Some (index_node n t)" using ns n by (simp add: get_at_def enc_unfold nth_append)
    ultimately have "order_loop ns (sx @ False # replicate ?r False @ sy) order (n # pending)
        = order_loop ns ((sx @ [True]) @ replicate ?r False @ sy) (order @ [n]) (begins (Suc n) (children t) @ pending)"
      using not_small [OF node.prems, of n] n by (simp add: order_loop.simps(2) index_node_children list_update_append)
    also have "\<dots> = order_loop ns ((sx @ [True]) @ replicate ?r True @ sy) ((order @ [n]) @ [Suc n..<Suc n + ?r]) pending"
      using ns n by (intro ordered_list [OF kids, where xs = "xs @ [index_node n t]" and ys = ys]) (auto simp: enc_unfold)
    finally show "order_loop ns (sx @ replicate (tree_nodes t) False @ sy) order (n # pending)
        = order_loop ns (sx @ replicate (tree_nodes t) True @ sy) (order @ [n..<n + tree_nodes t]) pending"
      by (simp only: tree_nodes_eq [of t] upt_first replicate_Suc append_assoc append_Cons append_Nil)
  qed
qed

text \<open>The built list with each of the trees at its place.\<close>

fun placed_built :: "tree list \<Rightarrow> tree option list" where
  "placed_built [] = []"
| "placed_built (c # cs) = Some (bare c) # replicate (tree_nodes c - 1) None @ placed_built cs"

lemma placed_built_length [simp]: "length (placed_built cs) = sum_list (map tree_nodes cs)"
proof (induction cs)
  case (Cons c cs)
  then show ?case using tree_nodes_pos [of c] by simp
qed simp

lemma take_built_placed:
  assumes "length bx = n"
  shows "take_built (bx @ placed_built (c # cs) @ bz) n
    = Inr (bare c, (bx @ replicate (tree_nodes c) None) @ placed_built cs @ bz)"
proof -
  obtain k where k: "tree_nodes c = Suc k" using tree_nodes_pos [of c] by (cases "tree_nodes c") auto
  show ?thesis using assms by (simp add: take_built_def get_at_def nth_append list_update_append k)
qed

lemma take_all_placed:
  "length bx = n \<Longrightarrow> take_all (bx @ placed_built cs @ bz) (begins n cs)
     = Inr (map bare cs, bx @ replicate (sum_list (map tree_nodes cs)) None @ bz)"
proof (induction cs arbitrary: n bx)
  case (Cons c cs)
  then show ?case
    using Cons.IH [of "bx @ replicate (tree_nodes c) None" "n + tree_nodes c"]
    by (simp add: take_built_placed replicate_add del: placed_built.simps)
qed simp

lemma made_of_index: "made_of (index_node n t) (map bare (children t)) = Inr (bare t)"
  by (cases t) (auto split: prod.splits)

definition built_here :: "node list \<Rightarrow> tree \<Rightarrow> bool" where
  "built_here ns t \<longleftrightarrow> (\<forall>n xs ys bx bz ats. ns = xs @ enc n t @ ys \<longrightarrow> length xs = n \<longrightarrow> length bx = n \<longrightarrow>
     build_all ns (rev [n..<n + tree_nodes t] @ ats) (bx @ replicate (tree_nodes t) None @ bz)
     = build_all ns ats (bx @ placed_built [t] @ bz))"

lemma built_hereD:
  "built_here ns t \<Longrightarrow> ns = xs @ enc n t @ ys \<Longrightarrow> length xs = n \<Longrightarrow> length bx = n \<Longrightarrow>
   build_all ns (rev [n..<n + tree_nodes t] @ ats) (bx @ replicate (tree_nodes t) None @ bz)
   = build_all ns ats (bx @ placed_built [t] @ bz)"
  unfolding built_here_def by blast

lemma built_list:
  "\<forall>c \<in> set cs. built_here ns c \<Longrightarrow> ns = xs @ enc_list n cs @ ys \<Longrightarrow> length xs = n \<Longrightarrow> length bx = n \<Longrightarrow>
   build_all ns (rev [n..<n + sum_list (map tree_nodes cs)] @ ats) (bx @ replicate (sum_list (map tree_nodes cs)) None @ bz)
   = build_all ns ats (bx @ placed_built cs @ bz)"
proof (induction cs arbitrary: n xs bx ats)
  case (Cons c cs)
  let ?k = "tree_nodes c" and ?r = "sum_list (map tree_nodes cs)"
  have up: "rev [n..<n + (?k + ?r)] @ ats = rev [n + ?k..<(n + ?k) + ?r] @ rev [n..<n + ?k] @ ats"
    by (simp only: upt_split rev_append append_assoc)
  have re: "bx @ replicate (?k + ?r) None @ bz = (bx @ replicate ?k None) @ replicate ?r None @ bz"
    by (simp only: replicate_add append_assoc)
  have "build_all ns (rev [n..<n + (?k + ?r)] @ ats) (bx @ replicate (?k + ?r) None @ bz)
      = build_all ns (rev [n..<n + ?k] @ ats) ((bx @ replicate ?k None) @ placed_built cs @ bz)"
    unfolding up re
  proof (rule Cons.IH [where xs = "xs @ enc n c"])
    show "ns = (xs @ enc n c) @ enc_list (n + ?k) cs @ ys" using Cons.prems(2) by simp
    show "\<forall>a \<in> set cs. built_here ns a" using Cons.prems(1) by simp
  qed (simp_all only: Cons.prems length_append enc_length length_replicate)
  also have "\<dots> = build_all ns (rev [n..<n + ?k] @ ats) (bx @ replicate ?k None @ (placed_built cs @ bz))"
    by (simp only: append_assoc)
  also have "\<dots> = build_all ns ats (bx @ placed_built [c] @ (placed_built cs @ bz))"
  proof (rule built_hereD [where xs = xs and ys = "enc_list (n + ?k) cs @ ys"])
    show "ns = xs @ enc n c @ enc_list (n + ?k) cs @ ys" using Cons.prems(2) by simp
  qed (use Cons.prems in simp_all)
  finally show ?case by (simp only: list.map sum_list.Cons placed_built.simps append_assoc append_Cons append_Nil append_Nil2)
qed simp

lemma built_tree: "built_here ns t"
proof (induction t rule: tree_children_induct)
  case (node t)
  show ?case
    unfolding built_here_def
  proof (intro allI impI)
    fix n ats and xs ys :: "node list" and bx bz :: "tree option list"
    assume ns: "ns = xs @ enc n t @ ys" and n: "length xs = n" "length bx = n"
    let ?cs = "children t" let ?r = "sum_list (map tree_nodes ?cs)"
    have "build_all ns (rev [Suc n..<Suc n + ?r] @ n # ats) ((bx @ [None]) @ replicate ?r None @ bz)
        = build_all ns (n # ats) ((bx @ [None]) @ placed_built ?cs @ bz)"
      using ns n node by (intro built_list [where xs = "xs @ [index_node n t]" and ys = ys]) (auto simp: enc_unfold)
    also have "\<dots> = build_all ns ats (bx @ Some (bare t) # replicate ?r None @ bz)"
    proof -
      have "get_at ns n = Some (index_node n t)" using ns n by (simp add: get_at_def enc_unfold nth_append)
      moreover have "take_all ((bx @ [None]) @ placed_built ?cs @ bz) (begins (Suc n) ?cs)
          = Inr (map bare ?cs, (bx @ [None]) @ replicate ?r None @ bz)"
        using n by (intro take_all_placed) simp
      ultimately show ?thesis
        using n by (simp add: build_one_def index_node_children made_of_index list_update_append)
    qed
    finally show "build_all ns (rev [n..<n + tree_nodes t] @ ats) (bx @ replicate (tree_nodes t) None @ bz)
        = build_all ns ats (bx @ placed_built [t] @ bz)"
      by (simp only: tree_nodes_eq [of t] upt_first replicate_Suc append_assoc append_Cons append_Nil rev.simps
          placed_built.simps diff_Suc_Suc diff_zero One_nat_def append_Nil2)
  qed
qed

text \<open>
  C27: A layout sent flat comes back: the flat nodes of a tree as the code
  makes them, given with its own panes, pass every check of \<open>from_nodes\<close> and
  build the same tree, without the choices of what each client is shown and
  with its shares in lowest terms.
\<close>

theorem from_nodes_nodes:
  assumes "tree_ok t" "tree_nodes t \<le> Suc u32_max"
  shows "from_nodes (tree_flat_nodes t) (panes t) = Inr (bare t)"
proof -
  let ?ns = "enc 0 t" and ?k = "tree_nodes t"
  have ns: "tree_flat_nodes t = ?ns" by (simp add: tree_flat_nodes_def flat_enc [OF assms(2)])
  have "order_loop ?ns ([] @ replicate ?k False @ []) [] (0 # []) = order_loop ?ns ([] @ replicate ?k True @ []) ([] @ [0..<0 + ?k]) []"
    using ordered_tree [OF assms(1), of ?ns] unfolding ordered_here_def by (metis append_Nil append_Nil2 list.size(3))
  then have order: "order_loop ?ns (replicate ?k False) [] [0] = Inr (replicate ?k True, [0..<?k])" by simp
  have "build_all ?ns (rev [0..<0 + ?k] @ []) ([] @ replicate ?k None @ []) = build_all ?ns [] ([] @ placed_built [t] @ [])"
    using built_tree [of ?ns t] unfolding built_here_def by (metis append_Nil append_Nil2 list.size(3))
  then have build: "build_all ?ns (rev [0..<?k]) (replicate ?k None) = Inr (placed_built [t])" by simp
  show ?thesis
    using order build
    by (simp add: ns from_nodes_def admit_nodes_def leaves_enc panes_leaves list_ex_iff take_built_def get_at_def)
qed

theorem from_nodes_nodes_witness:
  "from_nodes (tree_flat_nodes (Stack (Pane 1) [Split Vertical (Shares 4 2) (Pane 3) (Pane 2)] [7 \<mapsto> shown_on 1]))
     (panes (Stack (Pane 1) [Split Vertical (Shares 4 2) (Pane 3) (Pane 2)] [7 \<mapsto> shown_on 1]))
   = Inr (bare (Stack (Pane 1) [Split Vertical (Shares 4 2) (Pane 3) (Pane 2)] [7 \<mapsto> shown_on 1]))"
  by (rule from_nodes_nodes) (simp_all add: choices_ok_def shown_ok_def shown_on_def u32_max_def)

subsection \<open>What is built is a tree of the panes asked for\<close>

text \<open>What the type of a node's shares, \<open>NonZeroU32\<close>, holds to.\<close>

fun node_typed :: "node \<Rightarrow> bool" where
  "node_typed (NSplit ax s1 s2 a b) = (0 < s1 \<and> s1 \<le> u32_max \<and> 0 < s2 \<and> s2 \<le> u32_max)"
| "node_typed _ = True"

abbreviation child_count :: "node list \<Rightarrow> nat list \<Rightarrow> nat" where
  "child_count ns order \<equiv> sum_list (map (\<lambda>i. length (node_children (ns ! i))) order)"

definition order_inv :: "node list \<Rightarrow> bool list \<Rightarrow> nat list \<Rightarrow> bool" where
  "order_inv ns seen order \<longleftrightarrow> length seen = length ns \<and> distinct order
     \<and> set order = {i. i < length ns \<and> seen ! i} \<and> (\<forall>i \<in> set order. \<not> small_stack (ns ! i))"

lemma order_inv_step:
  assumes "order_inv ns seen order" "get_at seen i = Some False" "\<not> small_stack (ns ! i)"
  shows "order_inv ns (seen[i := True]) (order @ [i])"
  using assms by (auto simp: order_inv_def get_at_Some_iff nth_list_update)

lemma order_loop_inv:
  "order_loop ns seen order pending = Inr (seen', order') \<Longrightarrow> order_inv ns seen order \<Longrightarrow>
   order_inv ns seen' order'
   \<and> length order' + child_count ns order = length order + length pending + child_count ns order'"
proof (induction ns seen order pending arbitrary: seen' order' rule: order_loop.induct)
  case (2 ns seen order at pending)
  have unseen: "get_at seen at = Some False"
    using "2.prems"(1) by (auto simp: order_loop.simps(2) split: option.splits bool.splits)
  then have at: "at < length ns" "get_at ns at = Some (ns ! at)"
    using "2.prems"(2) by (auto simp: order_inv_def get_at_Some_iff)
  have small: "\<not> small_stack (ns ! at)"
    and go: "order_loop ns (seen[at := True]) (order @ [at]) (node_children (ns ! at) @ pending) = Inr (seen', order')"
    using "2.prems"(1) unseen at by (auto simp: order_loop.simps(2) split: if_splits)
  note inv = order_inv_step [OF "2.prems"(2) unseen small]
  show ?case
    using "2.IH"(2) [OF unseen _ at(2) small go inv] by simp
qed simp

text \<open>The trees built, as a multiset: what is taken leaves it, what is made enters it.\<close>

abbreviation trees_in :: "tree option list \<Rightarrow> tree multiset" where
  "trees_in built \<equiv> mset (List.map_filter (\<lambda>x. x) built)"

abbreviation pool :: "tree multiset \<Rightarrow> pane_id multiset" where
  "pool M \<equiv> \<Sum>t \<in># M. mset (leaves t)"

lemma map_filter_simps2 [simp]:
  "List.map_filter f [] = []"
  "List.map_filter f (x # xs) = (case f x of None \<Rightarrow> List.map_filter f xs | Some y \<Rightarrow> y # List.map_filter f xs)"
  "List.map_filter f (xs @ ys) = List.map_filter f xs @ List.map_filter f ys"
  by (simp_all add: List.map_filter_def split: option.splits)

lemma pool_concat: "mset (concat (map leaves ts)) = pool (mset ts)"
  by (induction ts) simp_all

lemma trees_in_put:
  assumes "get_at built i = Some None"
  shows "trees_in (built[i := Some t]) = add_mset t (trees_in built)"
proof -
  define xs ys where "xs = take i built" and "ys = drop (Suc i) built"
  have i: "i < length built" "built ! i = None" using assms by (auto simp: get_at_Some_iff)
  have s: "built = xs @ None # ys" unfolding xs_def ys_def using i by (metis id_take_nth_drop)
  have u: "built[i := Some t] = xs @ Some t # ys" unfolding xs_def ys_def using i by (simp add: upd_conv_take_nth_drop)
  show ?thesis unfolding u by (subst s) simp
qed

lemma take_built_trees:
  assumes "take_built built i = Inr (t, built')"
  shows "trees_in built = add_mset t (trees_in built') \<and> built' = built[i := None]"
proof -
  have b: "get_at built i = Some (Some t)" "built' = built[i := None]"
    using assms by (auto simp: take_built_def split: option.splits)
  then have "get_at (built[i := None]) i = Some None" by (auto simp: get_at_Some_iff)
  moreover have "built[i := None, i := Some t] = built"
    using b(1) by (simp add: get_at_Some_iff) (metis list_update_id)
  ultimately show ?thesis using trees_in_put [of "built[i := None]" i t] b(2) by simp
qed

definition empty_at :: "tree option list \<Rightarrow> nat \<Rightarrow> bool" where
  "empty_at built i \<longleftrightarrow> get_at built i = Some None"

lemma empty_at_take: "empty_at built i \<Longrightarrow> empty_at (built[j := None]) i"
  by (cases "i = j") (auto simp: empty_at_def get_at_Some_iff)

lemma empty_at_put: "empty_at built i \<Longrightarrow> i \<noteq> j \<Longrightarrow> empty_at (built[j := x]) i"
  by (auto simp: empty_at_def get_at_Some_iff)

lemma take_all_trees:
  "take_all built ats = Inr (ts, built') \<Longrightarrow>
   trees_in built = mset ts + trees_in built' \<and> length ts = length ats
   \<and> (\<forall>i. empty_at built i \<longrightarrow> empty_at built' i)"
proof (induction built ats arbitrary: ts built' rule: take_all.induct)
  case (2 built at ats)
  obtain t b where t: "take_built built at = Inr (t, b)"
    using "2.prems" by (auto split: sum.splits)
  obtain ts' where ts: "take_all b ats = Inr (ts', built')" "ts = t # ts'"
    using "2.prems" t by (auto split: sum.splits)
  show ?case
    using take_built_trees [OF t] "2.IH" [OF t refl ts(1)] ts(2) by (auto intro: empty_at_take)
qed simp

lemma made_of_tree:
  assumes "made_of n ts = Inr t" "node_typed n" "\<not> small_stack n" "length ts = length (node_children n)"
    "\<forall>u \<in> set ts. tree_ok u"
  shows "tree_ok t \<and> leaves t = (case pane_node n of None \<Rightarrow> concat (map leaves ts) | Some p \<Rightarrow> [p])"
proof (cases n)
  case (NSplit ax s1 s2 a b)
  then obtain u v where "ts = [u, v]" "t = Split ax (shares_new s1 s2) u v"
    using assms(1) by (auto split: list.splits)
  then show ?thesis using assms NSplit by (auto intro: shares_new_ok)
next
  case (NStack cs)
  then show ?thesis
    using assms by (auto split: list.splits simp: choices_ok_def list_all_iff)
qed (use assms in auto)

lemma build_one_trees:
  assumes "build_one ns at built = Inr built'" "empty_at built at" "at < length ns"
    "node_typed (ns ! at)" "\<not> small_stack (ns ! at)" "\<forall>t \<in># trees_in built. tree_ok t"
  shows "(\<forall>t \<in># trees_in built'. tree_ok t)
    \<and> size (trees_in built') + length (node_children (ns ! at)) = Suc (size (trees_in built))
    \<and> pool (trees_in built') = pool (trees_in built) + mset (node_leaves [ns ! at])
    \<and> (\<forall>i. empty_at built i \<longrightarrow> i \<noteq> at \<longrightarrow> empty_at built' i)"
proof -
  let ?n = "ns ! at"
  obtain ts b t where ts: "take_all built (node_children ?n) = Inr (ts, b)" and t: "made_of ?n ts = Inr t"
    and b': "built' = b[at := Some t]"
    using assms(1,3) by (auto simp: build_one_def get_at_def split: sum.splits)
  note took = take_all_trees [OF ts]
  have "\<forall>u \<in> set ts. tree_ok u" using took assms(6) by auto
  note made = made_of_tree [OF t assms(4,5) conjunct1 [OF conjunct2 [OF took]] this]
  have put: "trees_in built' = add_mset t (trees_in b)"
    unfolding b' using took assms(2) by (intro trees_in_put) (simp add: empty_at_def)
  have "pane_node ?n \<noteq> None \<Longrightarrow> node_children ?n = []" by (cases ?n) auto
  then have "mset (leaves t) = pool (mset ts) + mset (node_leaves [?n])"
    using made took by (auto simp: node_leaves_def pool_concat split: option.splits)
  then show ?thesis
    using took made put assms(6) by (auto simp: b' intro: empty_at_put)
qed

lemma build_all_trees:
  "build_all ns ats built = Inr built' \<Longrightarrow> distinct ats \<Longrightarrow>
   \<forall>i \<in> set ats. i < length ns \<and> empty_at built i \<and> node_typed (ns ! i) \<and> \<not> small_stack (ns ! i) \<Longrightarrow>
   \<forall>t \<in># trees_in built. tree_ok t \<Longrightarrow>
   (\<forall>t \<in># trees_in built'. tree_ok t)
   \<and> size (trees_in built') + child_count ns ats = size (trees_in built) + length ats
   \<and> pool (trees_in built') = pool (trees_in built) + mset (node_leaves (map ((!) ns) ats))"
proof (induction ats arbitrary: built)
  case (Cons at ats)
  obtain b where b: "build_one ns at built = Inr b" "build_all ns ats b = Inr built'"
    using Cons.prems(1) by (auto split: sum.splits)
  have one: "(\<forall>t \<in># trees_in b. tree_ok t)
    \<and> size (trees_in b) + length (node_children (ns ! at)) = Suc (size (trees_in built))
    \<and> pool (trees_in b) = pool (trees_in built) + mset (node_leaves [ns ! at])
    \<and> (\<forall>i. empty_at built i \<longrightarrow> i \<noteq> at \<longrightarrow> empty_at b i)"
    using Cons.prems(3,4) by (intro build_one_trees [OF b(1)]) simp_all
  have "\<forall>i \<in> set ats. i < length ns \<and> empty_at b i \<and> node_typed (ns ! i) \<and> \<not> small_stack (ns ! i)"
    using one Cons.prems(2,3) by auto
  moreover have "node_leaves (map ((!) ns) (at # ats)) = node_leaves [ns ! at] @ node_leaves (map ((!) ns) ats)"
    by (simp flip: node_leaves_append)
  ultimately show ?case
    using Cons.IH [OF b(2)] Cons.prems(2) one by auto
qed (simp add: node_leaves_def)

lemma mset_node_leaves:
  assumes "mset ms = mset ns"
  shows "mset (node_leaves ms) = mset (node_leaves ns)"
proof -
  define f where "f n = mset (node_leaves [n])" for n
  have "mset (node_leaves xs) = (\<Sum>n \<in># mset xs. f n)" for xs
    by (induction xs) (simp_all add: f_def node_leaves_def split: option.splits)
  with assms show ?thesis by simp
qed

lemma order_inv_all:
  assumes "order_inv ns seen order" "\<not> list_ex Not seen"
  shows "mset order = mset [0..<length ns]"
proof -
  have "set order = set [0..<length ns]" using assms by (auto simp: order_inv_def list_ex_iff)
  moreover have "distinct order" using assms(1) by (simp add: order_inv_def)
  ultimately show ?thesis using set_eq_iff_mset_eq_distinct distinct_upt by blast
qed

text \<open>
  C8: Whatever nodes a client sends, a layout taken from them is a tree as
  the code makes them, and its panes are exactly the panes of the tab, each
  once: what every later edit of the tree relies on.
\<close>

theorem from_nodes_sound:
  assumes "\<forall>n \<in> set ns. node_typed n" "from_nodes ns ps = Inr t"
  shows "tree_ok t \<and> mset (panes t) = mset ps"
proof -
  obtain seen order built rest where leaves: "sort (node_leaves ns) = sort ps"
    and order: "order_loop ns (replicate (length ns) False) [] [0] = Inr (seen, order)" "\<not> list_ex Not seen"
    and built: "build_all ns (rev order) (replicate (length ns) None) = Inr built"
    and root: "take_built built 0 = Inr (t, rest)"
    using assms(2) by (auto simp: from_nodes_def split: sum.splits if_splits)
  have "order_inv ns (replicate (length ns) False) []" by (auto simp: order_inv_def)
  from order_loop_inv [OF order(1) this]
  have inv: "order_inv ns seen order" "length order = Suc (child_count ns order)" by simp_all
  note perm = order_inv_all [OF inv(1) order(2)]
  have ready: "\<forall>i \<in> set (rev order). i < length ns \<and> empty_at (replicate (length ns) None) i
      \<and> node_typed (ns ! i) \<and> \<not> small_stack (ns ! i)"
    using inv(1) assms(1) by (auto simp: order_inv_def empty_at_def get_at_def)
  have none: "trees_in (replicate n None) = {#}" for n by (induction n) simp_all
  have "distinct (rev order)" using inv(1) by (simp add: order_inv_def)
  from build_all_trees [OF built this ready]
  have all: "\<forall>u \<in># trees_in built. tree_ok u" "size (trees_in built) + child_count ns (rev order) = length order"
    "pool (trees_in built) = mset (node_leaves (map ((!) ns) (rev order)))"
    by (simp_all add: none)
  have "size (trees_in built) = 1"
    using all(2) inv(2) by (simp add: rev_map [symmetric])
  moreover have "trees_in built = add_mset t (trees_in rest)" using take_built_trees [OF root] by blast
  ultimately have only: "trees_in built = {#t#}" by simp
  have "mset (map ((!) ns) (rev order)) = mset (map ((!) ns) [0..<length ns])" by (simp only: mset_map mset_rev perm)
  then have "mset (node_leaves (map ((!) ns) (rev order))) = mset (node_leaves ns)"
    by (intro mset_node_leaves) (simp add: map_nth)
  then have "mset (leaves t) = mset (node_leaves ns)" using all(3) only by simp
  then show ?thesis using all(1) only leaves by (simp, metis mset_sort)
qed

theorem from_nodes_sound_witness:
  "tree_ok (Stack (Pane 2) [Pane 1] Map.empty) \<and> mset (panes (Stack (Pane 2) [Pane 1] Map.empty)) = mset [1, 2]"
proof (rule from_nodes_sound)
  show "from_nodes [NStack [2, 1], NPane 1, NPane 2] [1, 2] = Inr (Stack (Pane 2) [Pane 1] Map.empty)"
    by (simp add: from_nodes_def admit_nodes_def node_leaves_def order_loop.simps(2) build_one_def take_built_def eval_nat_numeral)
qed simp

end
