(* ===== verification/Vt_Words.thy ===== *)
theory Vt_Words
  imports Prelude
begin

unbundle bit_operations_syntax

text \<open>
  The parser's scans a word at a time (\<open>fux-vt/src/parser.rs\<close>: \<open>printable\<close>,
  \<open>zeros\<close>, \<open>first_flagged\<close>, \<open>esc_in\<close>, \<open>string_end\<close>, \<open>control_in\<close>), on 64-bit
  words with the code's wrapping arithmetic, and that each finds what a scan
  byte by byte finds.  The interface is \<open>finds_first\<close>: of the eight bytes of a
  word, those flagged are exact up to the first that is sought.
\<close>

type_synonym byte = "8 word"

section \<open>Words of eight bytes\<close>

text \<open>\<open>u64::from_le_bytes\<close> and \<open>u64::trailing_zeros\<close>.\<close>

fun le_int :: "byte list \<Rightarrow> int" where
  "le_int [] = 0"
| "le_int (b # bs) = uint b + 256 * le_int bs"

definition le_word :: "byte list \<Rightarrow> 64 word" where
  "le_word bs = word_of_int (le_int bs)"

definition trailing_zeros :: "64 word \<Rightarrow> nat" where
  "trailing_zeros w = (case position (bit w) [0..<64] of Some n \<Rightarrow> n | None \<Rightarrow> 64)"

definition ONES :: "64 word" where
  "ONES = le_word (replicate 8 0x01)"

definition TOPS :: "64 word" where
  "TOPS = le_word (replicate 8 0x80)"

definition zeros :: "64 word \<Rightarrow> 64 word" where
  "zeros x = (x - ONES) AND NOT x AND TOPS"

section \<open>The scans\<close>

text \<open>
  \<open>first_flagged\<close>: \<open>i\<close> counts the words done; what is left once no word is
  whole is the tail.
\<close>

function flagged_from :: "(64 word \<Rightarrow> 64 word) \<Rightarrow> (byte \<Rightarrow> bool) \<Rightarrow> nat \<Rightarrow> byte list \<Rightarrow> nat option" where
  "flagged_from flag p i bs =
     (if length bs < 8 then map_option (\<lambda>at. i * 8 + at) (position p bs)
      else let flagged = flag (le_word (take 8 bs))
           in if flagged \<noteq> 0 then Some (i * 8 + trailing_zeros flagged div 8)
              else flagged_from flag p (Suc i) (drop 8 bs))"
  by pat_completeness auto
termination
  by (relation "measure (\<lambda>(flag, p, i, bs). length bs)") auto

declare flagged_from.simps [simp del]

definition first_flagged :: "byte list \<Rightarrow> (64 word \<Rightarrow> 64 word) \<Rightarrow> (byte \<Rightarrow> bool) \<Rightarrow> nat option" where
  "first_flagged bs flag p = flagged_from flag p 0 bs"

definition esc_in :: "byte list \<Rightarrow> nat option" where
  "esc_in bs = first_flagged bs (\<lambda>x. zeros (x XOR (ONES * 0x1b))) (\<lambda>b. b = 0x1b)"

definition string_end :: "byte list \<Rightarrow> nat option" where
  "string_end bs = first_flagged bs
     (\<lambda>x. zeros (x XOR (ONES * 0x1b)) OR zeros (x XOR (ONES * 0x18)) OR zeros (x XOR (ONES * 0x1a)))
     (\<lambda>b. b = 0x18 \<or> b = 0x1a \<or> b = 0x1b)"

definition control_in :: "byte list \<Rightarrow> nat option" where
  "control_in bs = first_flagged bs
     (\<lambda>x. ((x - ONES * 0x20) AND NOT x AND TOPS) OR zeros (x XOR (ONES * 0x7f)))
     (\<lambda>b. b < 0x20 \<or> b = 0x7f)"

definition printing :: "byte \<Rightarrow> bool" where
  "printing b \<longleftrightarrow> 0x20 \<le> b \<and> b \<le> 0x7e"

function printable_from :: "nat \<Rightarrow> byte list \<Rightarrow> nat" where
  "printable_from n bs =
     (if length bs < 8 then n + length (takeWhile printing bs)
      else let x = le_word (take 8 bs);
               below = (x - ONES * 0x20) AND NOT x;
               above = (x + ONES) OR x;
               flagged = (below OR above) AND TOPS
           in if flagged \<noteq> 0 then n + trailing_zeros flagged div 8
              else printable_from (n + 8) (drop 8 bs))"
  by pat_completeness auto
termination
  by (relation "measure (\<lambda>(n, bs). length bs)") auto

declare printable_from.simps [simp del]

definition printable :: "byte list \<Rightarrow> nat" where
  "printable bs = (if \<not> (case get_at bs 1 of Some b \<Rightarrow> printing b | None \<Rightarrow> False) then 1 else printable_from 0 bs)"

section \<open>Flags exact up to the first\<close>

text \<open>Whether a byte of a word has a bit set.\<close>

definition marked :: "int \<Rightarrow> nat \<Rightarrow> bool" where
  "marked w k \<longleftrightarrow> (\<exists>j. 8 * k \<le> j \<and> j < 8 * k + 8 \<and> bit w j)"

definition exact :: "(byte \<Rightarrow> bool) \<Rightarrow> byte list \<Rightarrow> int \<Rightarrow> bool" where
  "exact p bs w \<longleftrightarrow> (\<forall>k < length bs. (\<forall>j < k. \<not> p (bs ! j)) \<longrightarrow> (marked w k \<longleftrightarrow> p (bs ! k)))"

lemma marked_0: "marked w 0 \<longleftrightarrow> (\<exists>j < 8. bit w j)"
  by (simp add: marked_def)

lemma marked_Suc: "marked w (Suc k) = marked (drop_bit 8 w) k"
proof
  assume "marked w (Suc k)"
  then obtain j where "8 * Suc k \<le> j" "j < 8 * Suc k + 8" "bit w j" by (auto simp: marked_def)
  then have "8 * k \<le> j - 8 \<and> j - 8 < 8 * k + 8 \<and> bit (drop_bit 8 w) (j - 8)"
    by (simp add: bit_drop_bit_eq) linarith
  then show "marked (drop_bit 8 w) k" unfolding marked_def by blast
next
  assume "marked (drop_bit 8 w) k"
  then obtain j where "8 * k \<le> j" "j < 8 * k + 8" "bit (drop_bit 8 w) j" by (auto simp: marked_def)
  then have "8 * Suc k \<le> 8 + j \<and> 8 + j < 8 * Suc k + 8 \<and> bit w (8 + j)" by (simp add: bit_drop_bit_eq)
  then show "marked w (Suc k)" unfolding marked_def by blast
qed

lemma exact_Nil [simp]: "exact p [] w"
  by (simp add: exact_def)

lemma exact_Cons:
  assumes "marked w 0 = p b" "\<not> p b \<Longrightarrow> exact p bs (drop_bit 8 w)"
  shows "exact p (b # bs) w"
  unfolding exact_def
proof (intro allI impI)
  fix k assume k: "k < length (b # bs)" "\<forall>j < k. \<not> p ((b # bs) ! j)"
  show "marked w k = p ((b # bs) ! k)"
  proof (cases k)
    case 0
    then show ?thesis using assms(1) by simp
  next
    case (Suc m)
    then have "\<not> p b" "m < length bs" using k by auto
    moreover have "\<forall>j < m. \<not> p (bs ! j)" using k(2) Suc by auto
    ultimately show ?thesis using assms(2) Suc by (auto simp: exact_def marked_Suc)
  qed
qed

lemma exact_or: "exact p bs v \<Longrightarrow> exact q bs w \<Longrightarrow> exact (\<lambda>b. p b \<or> q b) bs (v OR w)"
  unfolding exact_def marked_def bit_or_iff by blast

text \<open>The bytes of a number, the lowest first.\<close>

lemma drop_low: "0 \<le> l \<Longrightarrow> l < 256 \<Longrightarrow> drop_bit 8 (l + 256 * h) = (h :: int)"
  by (simp add: drop_bit_eq_div)

lemma bit7_low: "bit (l + 256 * h :: int) 7 \<longleftrightarrow> odd (l div 128)"
proof -
  have "(l + 256 * h) div 128 = l div 128 + 2 * h" by linarith
  then show ?thesis by (simp add: bit_iff_odd)
qed

lemma div_borrow: "-128 \<le> l \<Longrightarrow> l < 0 \<Longrightarrow> l div 128 = (-1 :: int)"
  by presburger

definition tops :: "nat \<Rightarrow> int" where
  "tops n = le_int (replicate n 0x80)"

definition ones :: "nat \<Rightarrow> int" where
  "ones n = le_int (replicate n 0x01)"

lemma tops_simps [simp]: "tops 0 = 0" "tops (Suc n) = 128 + 256 * tops n"
  by (simp_all add: tops_def)

lemma ones_simps [simp]: "ones 0 = 0" "ones (Suc n) = 1 + 256 * ones n"
  by (simp_all add: ones_def)

lemma bit_tops_low: "j < 8 \<Longrightarrow> bit (tops (Suc n)) j \<longleftrightarrow> j = 7"
proof -
  assume j: "j < 8"
  have "128 + 256 * tops n = push_bit 7 (1 + 2 * tops n)" by (simp add: push_bit_eq_mult)
  then show ?thesis using j by (auto simp: bit_push_bit_iff bit_0)
qed

lemma marked_tops: "marked (w AND tops (Suc n)) 0 \<longleftrightarrow> bit w 7"
  unfolding marked_0 bit_and_iff using bit_tops_low [of _ n] by (auto simp del: tops_simps intro: exI [of _ 7])

lemma drop_tops: "drop_bit 8 (w AND tops (Suc n)) = drop_bit 8 w AND tops n"
  by (simp add: drop_low)

lemma drop_not: "drop_bit 8 (NOT w) = NOT (drop_bit 8 (w :: int))"
  by (rule bit_eqI) (simp add: bit_drop_bit_eq bit_not_iff)

lemma byte_range: "0 \<le> uint (b :: byte)" "uint b < 256"
  using uint_bounded [of b] by auto


text \<open>Taking \<open>c\<close> from every byte borrows, first, at the first byte below it.\<close>

lemma exact_below:
  assumes "1 \<le> c" "c \<le> 128"
  shows "exact (\<lambda>b. uint b < c) bs ((le_int bs - c * ones (length bs)) AND NOT (le_int bs) AND tops (length bs))"
proof (induction bs)
  case (Cons b bs)
  let ?x = "le_int (b # bs)" and ?d = "le_int (b # bs) - c * ones (Suc (length bs))"
  have r: "0 \<le> uint b" "uint b < 256" by (rule byte_range)+
  have d: "?d = (uint b - c) + 256 * (le_int bs - c * ones (length bs))" by (simp add: algebra_simps)
  have x: "?x = uint b + 256 * le_int bs" by simp
  have m: "marked (?d AND NOT ?x AND tops (Suc (length bs))) 0 \<longleftrightarrow> bit ?d 7 \<and> \<not> bit ?x 7"
    unfolding and.assoc [symmetric] marked_tops by (simp only: bit_and_iff bit_not_iff) simp
  have "exact (\<lambda>b. uint b < c) (b # bs) (?d AND NOT ?x AND tops (Suc (length bs)))"
  proof (rule exact_Cons)
    show "marked (?d AND NOT ?x AND tops (Suc (length bs))) 0 = (uint b < c)"
    proof (cases "uint b < c")
      case True
      then have "(uint b - c) div 128 = -1" "uint b div 128 = 0"
        using assms(2) r True div_borrow [of "uint b - c"] by linarith+
      then show ?thesis unfolding m unfolding d unfolding x bit7_low using True by simp
    next
      case False
      then have "odd ((uint b - c) div 128) \<Longrightarrow> odd (uint b div 128)"
      proof -
        assume o: "odd ((uint b - c) div 128)"
        have "(uint b - c) div 128 = 0 \<or> (uint b - c) div 128 = 1" using False assms r by auto
        with o have "128 \<le> uint b - c" by auto
        then have "uint b div 128 = 1" using assms r by auto
        then show ?thesis by simp
      qed
      then show ?thesis unfolding m unfolding d unfolding x bit7_low using False by auto
    qed
    assume "\<not> uint b < c"
    then have "drop_bit 8 ?d = le_int bs - c * ones (length bs)"
      unfolding d using assms r by (intro drop_low) auto
    moreover have "drop_bit 8 ?x = le_int bs" unfolding x using r by (rule drop_low)
    ultimately have "drop_bit 8 (?d AND NOT ?x AND tops (Suc (length bs)))
        = (le_int bs - c * ones (length bs)) AND NOT (le_int bs) AND tops (length bs)"
      by (simp only: and.assoc [symmetric] drop_tops) (simp only: drop_bit_and drop_not)
    then show "exact (\<lambda>b. uint b < c) bs (drop_bit 8 (?d AND NOT ?x AND tops (Suc (length bs))))"
      using Cons.IH by simp
  qed
  then show ?case by simp
qed simp

text \<open>Adding 1 to every byte carries, first, at a byte of all ones, which is flagged itself.\<close>

lemma exact_above:
  "exact (\<lambda>b. 127 \<le> uint b) bs (((le_int bs + ones (length bs)) OR le_int bs) AND tops (length bs))"
proof (induction bs)
  case (Cons b bs)
  let ?x = "le_int (b # bs)" and ?s = "le_int (b # bs) + ones (Suc (length bs))"
  have r: "0 \<le> uint b" "uint b < 256" by (rule byte_range)+
  have s: "?s = (uint b + 1) + 256 * (le_int bs + ones (length bs))" by simp
  have x: "?x = uint b + 256 * le_int bs" by simp
  have m: "marked ((?s OR ?x) AND tops (Suc (length bs))) 0 \<longleftrightarrow> bit ?s 7 \<or> bit ?x 7"
    unfolding marked_tops by (simp only: bit_or_iff)
  have "exact (\<lambda>b. 127 \<le> uint b) (b # bs) ((?s OR ?x) AND tops (Suc (length bs)))"
  proof (rule exact_Cons)
    consider "uint b < 127" | "uint b = 127" | "128 \<le> uint b" by linarith
    then show "marked ((?s OR ?x) AND tops (Suc (length bs))) 0 = (127 \<le> uint b)"
    proof cases
      case 1
      then have "(uint b + 1) div 128 = 0" "uint b div 128 = 0" using r by auto
      then show ?thesis unfolding m unfolding s unfolding x bit7_low using 1 by simp
    next
      case 2
      then show ?thesis unfolding m unfolding s unfolding x bit7_low by simp
    next
      case 3
      then have "uint b div 128 = 1" using r by auto
      then show ?thesis unfolding m unfolding s unfolding x bit7_low using 3 by simp
    qed
    assume "\<not> 127 \<le> uint b"
    then have "drop_bit 8 ?s = le_int bs + ones (length bs)"
      unfolding s using r by (intro drop_low) auto
    moreover have "drop_bit 8 ?x = le_int bs" unfolding x using r by (rule drop_low)
    ultimately have "drop_bit 8 ((?s OR ?x) AND tops (Suc (length bs)))
        = ((le_int bs + ones (length bs)) OR le_int bs) AND tops (length bs)"
      by (simp only: drop_tops) (simp only: drop_bit_or)
    then show "exact (\<lambda>b. 127 \<le> uint b) bs (drop_bit 8 ((?s OR ?x) AND tops (Suc (length bs))))"
      using Cons.IH by simp
  qed
  then show ?case by simp
qed simp


section \<open>What a flag on a word promises\<close>

lemma take_bit_uint: "take_bit 8 (uint (b :: byte)) = uint b"
  by (simp add: take_bit_int_eq_self byte_range)

lemma uint_xor: "uint (b XOR c) = uint b XOR uint (c :: byte)"
  by (rule bit_eqI) (auto simp: bit_uint_iff bit_xor_iff dest: bit_imp_le_length)

lemma bytes_xor:
  "length cs = length bs \<Longrightarrow> le_int bs XOR le_int cs = le_int (map2 (\<lambda>b c. b XOR c) bs cs)"
proof (induction bs arbitrary: cs)
  case (Cons b bs)
  then obtain c ds where cs: "cs = c # ds" by (cases cs) auto
  have "uint b + 256 * x = concat_bit 8 (uint b) x" for b :: byte and x
    by (simp add: concat_bit_eq push_bit_eq_mult take_bit_int_eq_self byte_range)
  then have "le_int (b # bs) XOR le_int (c # ds) = concat_bit 8 (uint b) (le_int bs) XOR concat_bit 8 (uint c) (le_int ds)"
    by simp
  also have "\<dots> = concat_bit 8 (uint b XOR uint c) (le_int bs XOR le_int ds)"
    by (rule bit_eqI) (auto simp: bit_simps)
  also have "\<dots> = uint (b XOR c) + 256 * (le_int bs XOR le_int ds)"
    by (simp add: concat_bit_eq push_bit_eq_mult uint_xor take_bit_uint)
  finally show ?case using Cons cs by simp
qed simp

lemma le_word_xor: "le_word bs XOR le_word (replicate (length bs) c) = le_word (map (\<lambda>b. b XOR c) bs)"
proof -
  have "map2 (\<lambda>b c. b XOR c) bs (replicate (length bs) c) = map (\<lambda>b. b XOR c) bs" by (induction bs) auto
  then show ?thesis by (simp add: le_word_def word_wi_log_defs bytes_xor)
qed

lemma ONES_eq: "ONES = word_of_int (ones 8)"
  by (simp add: ONES_def le_word_def ones_def)

lemma TOPS_eq: "TOPS = word_of_int (tops 8)"
  by (simp add: TOPS_def le_word_def tops_def)

lemma ONES_times: "ONES * 0x1b = le_word (replicate 8 0x1b)" "ONES * 0x18 = le_word (replicate 8 0x18)"
  "ONES * 0x1a = le_word (replicate 8 0x1a)" "ONES * 0x7f = le_word (replicate 8 0x7f)"
  by code_simp+

lemma exact_word:
  assumes "length bs = 8" "exact p bs f"
  shows "exact p bs (uint (word_of_int f :: 64 word))"
proof -
  have "marked (uint (word_of_int f :: 64 word)) k = marked f k" if "k < 8" for k
    using that by (auto simp: marked_def uint_word_of_int_eq bit_take_bit_iff)
  then show ?thesis using assms by (simp add: exact_def)
qed

locale word_scan =
  fixes flag :: "64 word \<Rightarrow> 64 word" and p :: "byte \<Rightarrow> bool"
  assumes flag_exact: "length bs = 8 \<Longrightarrow> exact p bs (uint (flag (le_word bs)))"
begin

lemma flag_zero:
  assumes "length bs = 8"
  shows "flag (le_word bs) = 0 \<longleftrightarrow> (\<forall>b \<in> set bs. \<not> p b)"
proof
  assume "flag (le_word bs) = 0"
  then have n: "\<not> marked (uint (flag (le_word bs))) k" for k by (simp add: marked_def)
  have "\<not> p (bs ! k)" if "k < length bs" for k
    using that
  proof (induction k rule: less_induct)
    case (less k)
    then show ?case using flag_exact [OF assms] n [of k] by (auto simp: exact_def)
  qed
  then show "\<forall>b \<in> set bs. \<not> p b" by (metis in_set_conv_nth)
next
  assume none: "\<forall>b \<in> set bs. \<not> p b"
  have "\<not> bit (flag (le_word bs)) j" if "j < 64" for j
  proof -
    have "\<not> marked (uint (flag (le_word bs))) (j div 8)"
      using flag_exact [OF assms] none that assms by (auto simp: exact_def)
    then show ?thesis unfolding marked_def using that by (auto simp: bit_uint_iff)
  qed
  then show "flag (le_word bs) = 0" by (intro bit_eqI) simp
qed

lemma flag_first:
  assumes "length bs = 8" "flag (le_word bs) \<noteq> 0"
  shows "position p bs = Some (trailing_zeros (flag (le_word bs)) div 8)"
proof -
  let ?w = "flag (le_word bs)"
  obtain i where i: "position p bs = Some i"
    using flag_zero [OF assms(1)] assms(2) position_None_iff [of p bs] by auto
  have i8: "i < 8" "p (bs ! i)" "\<forall>j < i. \<not> p (bs ! j)"
    using position_Some [OF i] position_first [OF i] assms(1) by auto
  have m: "marked (uint ?w) i" "\<forall>k < i. \<not> marked (uint ?w) k"
    using flag_exact [OF assms(1)] i8 assms(1) by (auto simp: exact_def)
  then obtain j where j: "8 * i \<le> j" "j < 8 * i + 8" "bit ?w j" by (auto simp: marked_def bit_uint_iff)
  have low: "\<not> bit ?w l" if "l < 8 * i" for l
  proof -
    have "l div 8 < i" using that by auto
    then have "\<not> marked (uint ?w) (l div 8)" using m(2) by blast
    then show ?thesis unfolding marked_def using that i8(1) by (auto simp: bit_uint_iff)
  qed
  obtain n where n: "position (bit ?w) [0..<64] = Some n"
    using position_None_iff [of "bit ?w" "[0..<64]"] j i8(1) by (cases "position (bit ?w) [0..<64]") auto
  have "n < 64" "bit ?w n" "\<forall>l < n. \<not> bit ?w l"
    using position_Some [OF n] position_first [OF n] by auto
  then have "8 * i \<le> n" "n < 8 * i + 8" using low j by (meson not_le, meson le_less_trans not_le)
  then show ?thesis using i n by (simp add: trailing_zeros_def)
qed

lemma flagged_position: "flagged_from flag p i bs = map_option (\<lambda>at. i * 8 + at) (position p bs)"
proof (induction "length bs" arbitrary: i bs rule: less_induct)
  case less
  show ?case
  proof (cases "length bs < 8")
    case False
    then have l: "length (take 8 bs) = 8" by simp
    have split: "position p bs = (case position p (take 8 bs) of Some n \<Rightarrow> Some n
        | None \<Rightarrow> map_option (\<lambda>n. 8 + n) (position p (drop 8 bs)))"
      using position_append [of p "take 8 bs" "drop 8 bs"] unfolding l by simp
    show ?thesis
    proof (cases "flag (le_word (take 8 bs)) = 0")
      case True
      then have "position p (take 8 bs) = None" using flag_zero [OF l] by (simp add: position_None_iff)
      moreover have "flagged_from flag p (Suc i) (drop 8 bs)
          = map_option (\<lambda>at. Suc i * 8 + at) (position p (drop 8 bs))"
        using False by (intro less) auto
      ultimately show ?thesis
        using True False split
        by (simp add: flagged_from.simps [of flag p i bs] option.map_comp comp_def ac_simps)
    next
      case nz: False
      then show ?thesis
        using False split flag_first [OF l nz] by (simp add: flagged_from.simps [of flag p i bs] Let_def)
    qed
  qed (simp add: flagged_from.simps [of flag p i bs])
qed

theorem first_flagged_position: "first_flagged bs flag p = position p bs"
  by (simp add: first_flagged_def flagged_position option.map_ident)

end

section \<open>The parser's flags\<close>

lemma exact_sub:
  assumes "length bs = 8" "1 \<le> c" "c \<le> 128"
  shows "exact (\<lambda>b. uint b < c) bs (uint ((le_word bs - ONES * word_of_int c) AND NOT (le_word bs) AND TOPS))"
proof -
  have "(le_word bs - ONES * word_of_int c) AND NOT (le_word bs) AND TOPS
      = word_of_int ((le_int bs - c * ones 8) AND NOT (le_int bs) AND tops 8)"
    unfolding le_word_def ONES_eq TOPS_eq
    by (simp only: wi_hom_mult wi_hom_sub word_wi_log_defs mult.commute)
  then show ?thesis
    using exact_word [OF assms(1) exact_below [OF assms(2,3), of bs, unfolded assms(1)]] by simp
qed

lemma exact_zeros:
  assumes "length bs = 8"
  shows "exact (\<lambda>b. b = c) bs (uint (zeros (le_word bs XOR le_word (replicate 8 c))))"
proof -
  let ?bs = "map (\<lambda>b. b XOR c) bs"
  have "le_word bs XOR le_word (replicate 8 c) = le_word ?bs"
    using le_word_xor [of bs c] assms by simp
  moreover have "exact (\<lambda>b. uint b < 1) ?bs (uint ((le_word ?bs - ONES * word_of_int 1) AND NOT (le_word ?bs) AND TOPS))"
    using assms by (intro exact_sub) auto
  ultimately have "exact (\<lambda>b. uint b < 1) ?bs (uint (zeros (le_word bs XOR le_word (replicate 8 c))))"
    by (simp add: zeros_def)
  moreover have "(uint (b XOR c) < 1) = (b = c)" for b
  proof -
    have "(uint (b XOR c) < 1) = (uint (b XOR c) = 0)" using byte_range [of "b XOR c"] by linarith
    also have "\<dots> = (b XOR c = 0)" by (rule uint_0_iff)
    also have "\<dots> = (b = c)" by (metis xor.assoc xor.left_neutral xor_self_eq)
    finally show ?thesis .
  qed
  ultimately show ?thesis by (simp add: exact_def)
qed

lemma word_or_exact:
  "exact p bs (uint v) \<Longrightarrow> exact q bs (uint w) \<Longrightarrow> exact (\<lambda>b. p b \<or> q b) bs (uint (v OR w))" for v w :: "64 word"
  using exact_or [of p bs "uint v" q "uint w"] by (simp add: uint_or)

interpretation esc: word_scan "\<lambda>x. zeros (x XOR (ONES * 0x1b))" "\<lambda>b. b = 0x1b"
  by unfold_locales (simp only: ONES_times exact_zeros)

interpretation ending: word_scan
  "\<lambda>x. zeros (x XOR (ONES * 0x1b)) OR zeros (x XOR (ONES * 0x18)) OR zeros (x XOR (ONES * 0x1a))"
  "\<lambda>b. b = 0x18 \<or> b = 0x1a \<or> b = 0x1b"
proof unfold_locales
  fix bs :: "byte list" assume l: "length bs = 8"
  have "exact (\<lambda>b. b = 0x1b \<or> b = 0x18 \<or> b = 0x1a) bs
     (uint (zeros (le_word bs XOR (ONES * 0x1b)) OR zeros (le_word bs XOR (ONES * 0x18)) OR zeros (le_word bs XOR (ONES * 0x1a))))"
    unfolding ONES_times by (intro word_or_exact exact_zeros l)
  moreover have "(\<lambda>b :: byte. b = 0x1b \<or> b = 0x18 \<or> b = 0x1a) = (\<lambda>b. b = 0x18 \<or> b = 0x1a \<or> b = 0x1b)" by auto
  ultimately show "exact (\<lambda>b. b = 0x18 \<or> b = 0x1a \<or> b = 0x1b) bs
     (uint (zeros (le_word bs XOR (ONES * 0x1b)) OR zeros (le_word bs XOR (ONES * 0x18)) OR zeros (le_word bs XOR (ONES * 0x1a))))"
    by simp
qed

lemma byte_less_32: "(b < 0x20) = (uint b < 32)" for b :: byte
  by (simp add: word_less_def)

interpretation ctl: word_scan
  "\<lambda>x. ((x - ONES * 0x20) AND NOT x AND TOPS) OR zeros (x XOR (ONES * 0x7f))"
  "\<lambda>b. b < 0x20 \<or> b = 0x7f"
proof unfold_locales
  fix bs :: "byte list" assume l: "length bs = 8"
  have "exact (\<lambda>b. uint b < 32) bs (uint ((le_word bs - ONES * 0x20) AND NOT (le_word bs) AND TOPS))"
    using exact_sub [OF l, of 32] by simp
  then show "exact (\<lambda>b. b < 0x20 \<or> b = 0x7f) bs
     (uint (((le_word bs - ONES * 0x20) AND NOT (le_word bs) AND TOPS) OR zeros (le_word bs XOR (ONES * 0x7f))))"
    unfolding ONES_times byte_less_32 by (intro word_or_exact exact_zeros l)
qed

interpretation plain: word_scan
  "\<lambda>x. (((x - ONES * 0x20) AND NOT x) OR ((x + ONES) OR x)) AND TOPS" "\<lambda>b. \<not> printing b"
proof unfold_locales
  fix bs :: "byte list" assume l: "length bs = 8"
  let ?x = "le_word bs"
  have below: "exact (\<lambda>b. uint b < 32) bs (uint ((?x - ONES * 0x20) AND NOT ?x AND TOPS))"
    using exact_sub [OF l, of 32] by simp
  have "((?x + ONES) OR ?x) AND TOPS = word_of_int (((le_int bs + ones 8) OR le_int bs) AND tops 8)"
    unfolding le_word_def ONES_eq TOPS_eq by (simp only: wi_hom_add word_wi_log_defs)
  then have above: "exact (\<lambda>b. 127 \<le> uint b) bs (uint (((?x + ONES) OR ?x) AND TOPS))"
    using exact_word [OF l exact_above [of bs, unfolded l]] by simp
  have eq: "(((?x - ONES * 0x20) AND NOT ?x) OR ((?x + ONES) OR ?x)) AND TOPS
      = ((?x - ONES * 0x20) AND NOT ?x AND TOPS) OR (((?x + ONES) OR ?x) AND TOPS)"
    by (rule bit_eqI) (auto simp: bit_simps)
  have "(uint b < 32 \<or> 127 \<le> uint b) = (\<not> printing b)" for b :: byte
    by (auto simp: printing_def word_less_def word_le_def)
  then show "exact (\<lambda>b. \<not> printing b) bs
     (uint ((((?x - ONES * 0x20) AND NOT ?x) OR ((?x + ONES) OR ?x)) AND TOPS))"
    using word_or_exact [OF below above] by (simp add: eq)
qed

lemma position_takeWhile: "length (takeWhile q bs) = (case position (\<lambda>b. \<not> q b) bs of Some n \<Rightarrow> n | None \<Rightarrow> length bs)"
  by (induction bs) (auto split: option.splits)

lemma printable_from_takeWhile: "printable_from n bs = n + length (takeWhile printing bs)"
proof (induction "length bs" arbitrary: n bs rule: less_induct)
  case less
  let ?f = "\<lambda>x. (((x - ONES * 0x20) AND NOT x) OR ((x + ONES) OR x)) AND TOPS"
  show ?case
  proof (cases "length bs < 8")
    case False
    then have l: "length (take 8 bs) = 8" by simp
    have split: "length (takeWhile printing bs) = (case position (\<lambda>b. \<not> printing b) (take 8 bs) of Some k \<Rightarrow> k
        | None \<Rightarrow> 8 + length (takeWhile printing (drop 8 bs)))"
      using position_append [of "\<lambda>b. \<not> printing b" "take 8 bs" "drop 8 bs"] False unfolding l
      by (auto simp: position_takeWhile split: option.splits)
    show ?thesis
    proof (cases "?f (le_word (take 8 bs)) = 0")
      case True
      then have "position (\<lambda>b. \<not> printing b) (take 8 bs) = None"
        using plain.flag_zero [OF l] by (simp add: position_None_iff)
      moreover have "printable_from (n + 8) (drop 8 bs) = n + 8 + length (takeWhile printing (drop 8 bs))"
        using False by (intro less) auto
      ultimately show ?thesis using True False split by (simp add: printable_from.simps [of n bs] Let_def)
    next
      case nz: False
      then show ?thesis
        using False split plain.flag_first [OF l nz] by (simp add: printable_from.simps [of n bs] Let_def)
    qed
  qed (simp add: printable_from.simps [of n bs])
qed

lemma printable_takeWhile:
  assumes "bs = b # r" "printing b"
  shows "printable bs = length (takeWhile printing bs)"
proof (cases r)
  case (Cons c r')
  then show ?thesis
    using assms by (simp add: printable_def printable_from_takeWhile)
qed (use assms in \<open>simp add: printable_def\<close>)

lemma esc_in_position: "esc_in bs = position (\<lambda>b. b = 0x1b) bs"
  by (simp only: esc_in_def esc.first_flagged_position)

lemma string_end_position: "string_end bs = position (\<lambda>b. b = 0x18 \<or> b = 0x1a \<or> b = 0x1b) bs"
  by (simp only: string_end_def ending.first_flagged_position)

lemma control_in_position: "control_in bs = position (\<lambda>b. b < 0x20 \<or> b = 0x7f) bs"
  by (simp only: control_in_def ctl.first_flagged_position)

text \<open>
  C17: The scans eight bytes at a time give what a scan byte by byte gives, on
  every input: where the first ESC is (\<open>esc_in\<close>), the first ESC, CAN or SUB
  (\<open>string_end\<close>), the first C0 control or DEL (\<open>control_in\<close>).
\<close>

theorem scans_find_first:
  "esc_in bs = position (\<lambda>b. b = 0x1b) bs
   \<and> string_end bs = position (\<lambda>b. b = 0x18 \<or> b = 0x1a \<or> b = 0x1b) bs
   \<and> control_in bs = position (\<lambda>b. b < 0x20 \<or> b = 0x7f) bs"
  by (simp only: esc_in_position string_end_position control_in_position simp_thms)

text \<open>
  \<open>printable\<close>, of bytes the first of which is printable ASCII, is the
  length of the run of printable bytes they begin with.
\<close>

lemma printable_counts_run:
  assumes "printing (hd bs)" and "bs \<noteq> []"
  shows "printable bs = length (takeWhile printing bs)"
  using printable_takeWhile [of bs "hd bs" "tl bs"] assms by simp

lemma printable_counts_run_witness:
  "printing (hd [0x41, 0x7e, 0x20, 0x7f]) \<and> printable [0x41, 0x7e, 0x20, 0x7f] = 3"
proof -
  have h: "printing (hd [0x41, 0x7e, 0x20, 0x7f])" by (simp add: printing_def)
  show ?thesis using printable_counts_run [OF h] by (simp add: printing_def)
qed

end
