(* ===== verification/Vt_Utf8.thy ===== *)
theory Vt_Utf8
  imports Vt_Words
begin

text \<open>
  UTF-8 as the parser reads it (\<open>lead\<close>, \<open>decode\<close> and \<open>Bytes\<close> of
  \<open>fux-vt/src/parser.rs\<close>), against an encoder: what is decoded is exactly the
  encoding of a Unicode scalar value past ASCII, so overlong forms,
  surrogates and code points past U+10FFFF are none.
\<close>

section \<open>A sequence's bytes\<close>

text \<open>\<open>Bytes<N>\<close>: the bytes kept so far, of at most \<open>N\<close>.\<close>

definition bytes_push :: "nat \<Rightarrow> byte list \<Rightarrow> byte \<Rightarrow> byte list option" where
  "bytes_push n bs b = (if length bs < n then Some (bs @ [b]) else None)"

definition bytes_of :: "nat \<Rightarrow> byte \<Rightarrow> byte list" where
  "bytes_of n b = (case bytes_push n [] b of Some bs \<Rightarrow> bs | None \<Rightarrow> [])"

text \<open>The length a lead byte begins, and the range of its second byte.\<close>

definition lead :: "byte \<Rightarrow> (nat \<times> byte \<times> byte) option" where
  "lead b =
     (if 0xc2 \<le> b \<and> b \<le> 0xdf then Some (2, 0x80, 0xbf)
      else if b = 0xe0 then Some (3, 0xa0, 0xbf)
      else if b = 0xed then Some (3, 0x80, 0x9f)
      else if 0xe1 \<le> b \<and> b \<le> 0xef then Some (3, 0x80, 0xbf)
      else if b = 0xf0 then Some (4, 0x90, 0xbf)
      else if b = 0xf4 then Some (4, 0x80, 0x8f)
      else if 0xf1 \<le> b \<and> b \<le> 0xf3 then Some (4, 0x80, 0xbf)
      else None)"

text \<open>\<open>char::from_u32\<close>.\<close>

definition scalar :: "nat \<Rightarrow> bool" where
  "scalar c \<longleftrightarrow> c < 0xd800 \<or> 0xe000 \<le> c \<and> c < 0x110000"

definition char_from :: "nat \<Rightarrow> nat option" where
  "char_from c = (if scalar c then Some c else None)"

fun decode_rest :: "byte \<Rightarrow> byte \<Rightarrow> nat \<Rightarrow> byte list \<Rightarrow> nat option" where
  "decode_rest low high code [] = Some code"
| "decode_rest low high code (b # bs) =
     (if low \<le> b \<and> b \<le> high
      then decode_rest 0x80 0xbf (push_bit 6 code OR unat (b AND 0x3f)) bs
      else None)"

definition decode :: "byte list \<Rightarrow> (nat \<times> nat) option" where
  "decode bs =
     (case bs of
        [] \<Rightarrow> None
      | first # rest \<Rightarrow>
          (case lead first of
             None \<Rightarrow> None
           | Some (n, low, high) \<Rightarrow>
               if length bs < n then None
               else (case decode_rest low high (unat first AND drop_bit n 0x7f) (take (n - 1) rest) of
                       None \<Rightarrow> None
                     | Some code \<Rightarrow> map_option (\<lambda>c. (c, n)) (char_from code))))"

text \<open>\<open>Chars\<close>: the characters the bytes begin with, at most \<open>n\<close> of them, and the bytes they took.\<close>

fun chars :: "nat \<Rightarrow> byte list \<Rightarrow> nat list \<times> nat" where
  "chars 0 bs = ([], 0)"
| "chars (Suc n) bs =
     (case decode bs of
        None \<Rightarrow> ([], 0)
      | Some (c, len) \<Rightarrow> (case chars n (drop len bs) of (cs, taken) \<Rightarrow> (c # cs, len + taken)))"

section \<open>The encoder\<close>

definition byte_of :: "nat \<Rightarrow> byte" where
  "byte_of n = word_of_nat n"

definition utf8_encode :: "nat \<Rightarrow> byte list" where
  "utf8_encode c =
     (if c < 0x80 then [byte_of c]
      else if c < 0x800 then [byte_of (0xc0 + c div 64), byte_of (0x80 + c mod 64)]
      else if c < 0x10000 then
        [byte_of (0xe0 + c div 4096), byte_of (0x80 + c div 64 mod 64), byte_of (0x80 + c mod 64)]
      else
        [byte_of (0xf0 + c div 262144), byte_of (0x80 + c div 4096 mod 64),
         byte_of (0x80 + c div 64 mod 64), byte_of (0x80 + c mod 64)])"

lemma unat_byte_of: "n < 256 \<Longrightarrow> unat (byte_of n) = n"
  by (simp add: byte_of_def unsigned_of_nat take_bit_nat_eq_self)

lemma byte_of_unat [simp]: "byte_of (unat b) = b"
  by (simp add: byte_of_def)

lemma unat_byte: "unat (b :: byte) < 256"
  using unsigned_less [of b] by simp

lemma low6: "unat ((b :: byte) AND 0x3f) = unat b mod 64"
proof -
  have "unat (b AND 0x3f) = unat b AND 63" by (simp add: unsigned_and_eq)
  also have "\<dots> = take_bit 6 (unat b)" by (simp add: take_bit_eq_mask mask_numeral)
  finally show ?thesis by (simp add: take_bit_eq_mod)
qed

lemma push_or: "x < 64 \<Longrightarrow> push_bit 6 c OR x = 64 * c + (x :: nat)"
proof -
  assume "x < 64"
  then have x: "take_bit 6 x = x" by (simp add: take_bit_nat_eq_self)
  have "push_bit 6 c AND take_bit 6 x = 0" by (rule bit_eqI) (auto simp: bit_simps)
  then have "push_bit 6 c OR x = push_bit 6 c + x"
    using x by (simp add: disjunctive_add_eq_or)
  then show ?thesis by (simp add: push_bit_eq_mult)
qed

lemma decode_rest_Cons:
  "decode_rest low high code (b # bs) =
     (if low \<le> b \<and> b \<le> high then decode_rest 0x80 0xbf (64 * code + unat b mod 64) bs else None)"
  by (simp add: low6 push_or)

lemma lead_bits:
  "unat (b :: byte) AND drop_bit 2 0x7f = unat b mod 32" "unat b AND drop_bit 3 0x7f = unat b mod 16"
  "unat b AND drop_bit 4 0x7f = unat b mod 8"
proof -
  have "drop_bit 2 0x7f = (mask 5 :: nat)" "drop_bit 3 0x7f = (mask 4 :: nat)" "drop_bit 4 0x7f = (mask 3 :: nat)"
    by (simp_all add: mask_numeral drop_bit_eq_div)
  then show "unat b AND drop_bit 2 0x7f = unat b mod 32" "unat b AND drop_bit 3 0x7f = unat b mod 16"
    "unat b AND drop_bit 4 0x7f = unat b mod 8"
    by (simp_all only: take_bit_eq_mask [symmetric] take_bit_eq_mod) simp_all
qed

text \<open>The range a lead byte gives, read as numbers.\<close>

definition lead_nat :: "nat \<Rightarrow> (nat \<times> nat \<times> nat) option" where
  "lead_nat b =
     (if 0xc2 \<le> b \<and> b \<le> 0xdf then Some (2, 0x80, 0xbf)
      else if b = 0xe0 then Some (3, 0xa0, 0xbf)
      else if b = 0xed then Some (3, 0x80, 0x9f)
      else if 0xe1 \<le> b \<and> b \<le> 0xef then Some (3, 0x80, 0xbf)
      else if b = 0xf0 then Some (4, 0x90, 0xbf)
      else if b = 0xf4 then Some (4, 0x80, 0x8f)
      else if 0xf1 \<le> b \<and> b \<le> 0xf3 then Some (4, 0x80, 0xbf)
      else None)"

lemma lead_as_nat: "lead b = map_option (\<lambda>(n, l, h). (n, byte_of l, byte_of h)) (lead_nat (unat b))"
proof -
  have eq: "(b = w) = (unat b = unat w)" for w :: byte by (simp add: word_unat_eq_iff)
  show ?thesis
    unfolding lead_def lead_nat_def word_le_nat_alt
    by (simp add: eq byte_of_def)
qed


text \<open>The same decoding, of numbers.\<close>

fun decode_tail :: "nat \<Rightarrow> nat \<Rightarrow> nat \<Rightarrow> nat list \<Rightarrow> nat option" where
  "decode_tail low high code [] = Some code"
| "decode_tail low high code (b # bs) =
     (if low \<le> b \<and> b \<le> high then decode_tail 0x80 0xbf (64 * code + b mod 64) bs else None)"

lemma decode_rest_tail:
  "l < 256 \<Longrightarrow> h < 256 \<Longrightarrow> decode_rest (byte_of l) (byte_of h) code bs = decode_tail l h code (map unat bs)"
proof (induction bs arbitrary: l h code)
  case (Cons b bs)
  have "(0x80 :: byte) = byte_of 0x80" "(0xbf :: byte) = byte_of 0xbf" by (simp_all add: byte_of_def)
  then show ?case
    using Cons by (simp only: decode_rest_Cons word_le_nat_alt unat_byte_of decode_tail.simps list.map)
qed simp

lemma decode_nat:
  "decode bs =
     (case bs of
        [] \<Rightarrow> None
      | first # rest \<Rightarrow>
          (case lead_nat (unat first) of
             None \<Rightarrow> None
           | Some (n, low, high) \<Rightarrow>
               if length bs < n then None
               else (case decode_tail low high (unat first mod 2 ^ (7 - n)) (map unat (take (n - 1) rest)) of
                       None \<Rightarrow> None
                     | Some code \<Rightarrow> map_option (\<lambda>c. (c, n)) (char_from code))))"
proof (cases bs)
  case (Cons first rest)
  have "\<And>n l h. lead_nat (unat first) = Some (n, l, h) \<Longrightarrow>
     l < 256 \<and> h < 256 \<and> (n = 2 \<or> n = 3 \<or> n = 4)"
    by (auto simp: lead_nat_def split: if_splits)
  then show ?thesis
    using Cons lead_bits [of first]
    by (auto simp: decode_def lead_as_nat decode_rest_tail split: option.splits)
qed (simp add: decode_def)

lemma tail_mod: "y < 64 \<Longrightarrow> (128 + y) mod 64 = (y :: nat)"
  by (simp add: mod_add_left_eq [symmetric])

lemma head_mod:
  "x < 32 \<Longrightarrow> (192 + x) mod 32 = (x :: nat)" "x < 16 \<Longrightarrow> (224 + x) mod 16 = x" "x < 8 \<Longrightarrow> (240 + x) mod 8 = x"
  by (simp_all add: mod_add_left_eq [symmetric])

lemma decode_two:
  assumes "x < 32" "2 \<le> x" "y < 64"
  shows "decode (byte_of (192 + x) # byte_of (128 + y) # r) = Some (64 * x + y, 2)"
proof -
  have "lead_nat (192 + x) = Some (2, 0x80, 0xbf)" using assms by (simp add: lead_nat_def)
  moreover have "char_from (64 * x + y) = Some (64 * x + y)" using assms by (simp add: char_from_def scalar_def)
  ultimately show ?thesis
    using assms head_mod(1) [of x] tail_mod [of y]
    by (simp add: decode_nat [of "_ # _"] unat_byte_of mult.commute)
qed

lemma decode_three:
  assumes "x < 16" "y < 64" "z < 64" "0x800 \<le> 4096 * x + 64 * y + z" "scalar (4096 * x + 64 * y + z)"
  shows "decode (byte_of (224 + x) # byte_of (128 + y) # byte_of (128 + z) # r) = Some (4096 * x + 64 * y + z, 3)"
proof -
  have r: "x = 0 \<Longrightarrow> 32 \<le> y" "x = 13 \<Longrightarrow> y < 32"
    using assms by (auto simp: scalar_def)
  have "\<exists>l h. lead_nat (224 + x) = Some (3, l, h) \<and> l \<le> 128 + y \<and> 128 + y \<le> h"
    using assms r by (auto simp: lead_nat_def)
  then obtain l h where l: "lead_nat (224 + x) = Some (3, l, h)" "l \<le> 128 + y" "128 + y \<le> h" by blast
  have "64 * (64 * x + y) + z = 4096 * x + 64 * y + z" by simp
  then have "decode_tail l h x [128 + y, 128 + z] = Some (4096 * x + 64 * y + z)"
    using l assms tail_mod by simp
  moreover have "char_from (4096 * x + 64 * y + z) = Some (4096 * x + 64 * y + z)"
    using assms by (simp add: char_from_def)
  ultimately show ?thesis
    using l(1) assms head_mod(2) [of x]
    by (simp add: decode_nat [of "_ # _"] unat_byte_of del: decode_tail.simps)
qed

lemma decode_four:
  assumes "x < 5" "y < 64" "z < 64" "u < 64"
    "0x10000 \<le> 262144 * x + 4096 * y + 64 * z + u" "262144 * x + 4096 * y + 64 * z + u < 0x110000"
  shows "decode (byte_of (240 + x) # byte_of (128 + y) # byte_of (128 + z) # byte_of (128 + u) # r)
     = Some (262144 * x + 4096 * y + 64 * z + u, 4)"
proof -
  have r: "x = 0 \<Longrightarrow> 16 \<le> y" "x = 4 \<Longrightarrow> y < 16"
    using assms by auto
  have "\<exists>l h. lead_nat (240 + x) = Some (4, l, h) \<and> l \<le> 128 + y \<and> 128 + y \<le> h"
    using assms(1,2) r by (auto simp: lead_nat_def)
  then obtain l h where l: "lead_nat (240 + x) = Some (4, l, h)" "l \<le> 128 + y" "128 + y \<le> h" by blast
  have "64 * (64 * (64 * x + y) + z) + u = 262144 * x + 4096 * y + 64 * z + u" by simp
  then have "decode_tail l h x [128 + y, 128 + z, 128 + u] = Some (262144 * x + 4096 * y + 64 * z + u)"
    using l assms(2-4) tail_mod by simp
  moreover have "char_from (262144 * x + 4096 * y + 64 * z + u) = Some (262144 * x + 4096 * y + 64 * z + u)"
    using assms(5,6) by (simp add: char_from_def scalar_def)
  ultimately show ?thesis
    using l(1) assms(1-4) head_mod(3) [of x]
    by (simp add: decode_nat [of "_ # _"] unat_byte_of del: decode_tail.simps)
qed

text \<open>What a lead byte and the bytes in its ranges spell.\<close>

lemma byte_cases:
  assumes "lead_nat (unat b) = Some (n, l, h)"
  obtains x where "n = 2" "2 \<le> x" "x < 32" "b = byte_of (192 + x)" "l = 0x80" "h = 0xbf"
  | x where "n = 3" "x < 16" "b = byte_of (224 + x)"
      "l = (if x = 0 then 0xa0 else 0x80)" "h = (if x = 13 then 0x9f else 0xbf)"
  | x where "n = 4" "x < 5" "b = byte_of (240 + x)"
      "l = (if x = 0 then 0x90 else 0x80)" "h = (if x = 4 then 0x8f else 0xbf)"
proof -
  have b: "b = byte_of (unat b)" by simp
  consider "n = 2" "0xc2 \<le> unat b" "unat b \<le> 0xdf" | "n = 3" "0xe0 \<le> unat b" "unat b \<le> 0xef"
    | "n = 4" "0xf0 \<le> unat b" "unat b \<le> 0xf4"
    using assms by (auto simp: lead_nat_def split: if_splits)
  then show ?thesis
  proof cases
    case 1
    then obtain k where "unat b = 194 + k" using le_Suc_ex by blast
    then have x: "unat b = 192 + (k + 2)" by simp
    then show ?thesis using that(1) [of "k + 2"] 1 b assms by (auto simp: lead_nat_def)
  next
    case 2
    then obtain x where x: "unat b = 224 + x" using le_Suc_ex by blast
    then show ?thesis using that(2) [of x] 2 b assms by (auto simp: lead_nat_def split: if_splits)
  next
    case 3
    then obtain x where x: "unat b = 240 + x" using le_Suc_ex by blast
    then show ?thesis using that(3) [of x] 3 b assms by (auto simp: lead_nat_def split: if_splits)
  qed
qed

lemma tail_byte: "128 \<le> unat b \<Longrightarrow> unat b \<le> 191 \<Longrightarrow> \<exists>y. y < 64 \<and> b = byte_of (128 + y)"
  by (intro exI [of _ "unat b - 128"]) simp

lemma encode_two: "2 \<le> x \<Longrightarrow> x < 32 \<Longrightarrow> y < 64 \<Longrightarrow> utf8_encode (64 * x + y) = [byte_of (192 + x), byte_of (128 + y)]"
  by (simp add: utf8_encode_def div_mult_self1 mult.commute)

lemma div_twice: "n div 4096 = n div 64 div (64 :: nat)" "n div 262144 = n div 64 div 64 div (64 :: nat)"
  by (simp_all add: div_mult2_eq [symmetric])

lemma digit_div: "z < 64 \<Longrightarrow> (64 * w + z) div 64 = (w :: nat)" "z < 64 \<Longrightarrow> (64 * w + z) mod 64 = (z :: nat)"
  by simp_all

lemma as_digits:
  "4096 * x + 64 * y + z = 64 * (64 * x + y) + (z :: nat)"
  "262144 * x + 4096 * y + 64 * z + u = 64 * (64 * (64 * x + y) + z) + (u :: nat)"
  by simp_all

lemma digits_three:
  assumes "y < 64" "z < 64"
  shows "(4096 * x + 64 * y + z) div 64 = 64 * x + (y :: nat)" "(4096 * x + 64 * y + z) mod 64 = z"
    "(64 * x + y) div 64 = x" "(64 * x + y) mod 64 = y"
  unfolding as_digits(1) using assms by (simp_all only: digit_div)

lemma digits_four:
  assumes "y < 64" "z < 64" "u < 64"
  shows "(262144 * x + 4096 * y + 64 * z + u) div 64 = 4096 * x + 64 * y + (z :: nat)"
    "(262144 * x + 4096 * y + 64 * z + u) mod 64 = u"
  unfolding as_digits using assms by (simp_all only: digit_div)

lemma encode_three:
  assumes "x < 16" "y < 64" "z < 64" "0x800 \<le> 4096 * x + 64 * y + z"
  shows "utf8_encode (4096 * x + 64 * y + z) = [byte_of (224 + x), byte_of (128 + y), byte_of (128 + z)]"
  using assms unfolding utf8_encode_def div_twice digits_three [OF assms(2,3)] by simp

lemma encode_four:
  assumes "x < 5" "y < 64" "z < 64" "u < 64" "0x10000 \<le> 262144 * x + 4096 * y + 64 * z + u"
  shows "utf8_encode (262144 * x + 4096 * y + 64 * z + u)
     = [byte_of (240 + x), byte_of (128 + y), byte_of (128 + z), byte_of (128 + u)]"
  using assms unfolding utf8_encode_def div_twice digits_four [OF assms(2-4)] digits_three [OF assms(2,3)] by simp

lemma decode_encode:
  assumes "scalar c" "0x80 \<le> c"
  shows "decode (utf8_encode c @ r) = Some (c, length (utf8_encode c))"
proof -
  consider "c < 0x800" | "0x800 \<le> c" "c < 0x10000" | "0x10000 \<le> c" by linarith
  then show ?thesis
  proof cases
    case 1
    have c: "c = 64 * (c div 64) + c mod 64" by simp
    have "2 \<le> c div 64" "c div 64 < 32" "c mod 64 < 64" using 1 assms(2) by auto
    then show ?thesis
      using encode_two [of "c div 64" "c mod 64"] decode_two [of "c div 64" "c mod 64" r] unfolding c [symmetric] by simp
  next
    case 2
    define x y z where "x = c div 4096" and "y = c div 64 mod 64" and "z = c mod 64"
    have c: "c = 4096 * x + 64 * y + z"
      unfolding as_digits(1) x_def y_def z_def div_twice by simp
    have b: "x < 16" "y < 64" "z < 64" using 2 by (auto simp: x_def y_def z_def)
    show ?thesis
      using encode_three [OF b] decode_three [OF b, of r] 2(1) assms(1) unfolding c by simp
  next
    case 3
    define x y z u where "x = c div 262144" and "y = c div 4096 mod 64" and "z = c div 64 mod 64" and "u = c mod 64"
    have c: "c = 262144 * x + 4096 * y + 64 * z + u"
      unfolding as_digits(2) x_def y_def z_def u_def div_twice by simp
    have b: "x < 5" "y < 64" "z < 64" "u < 64"
      using assms(1) by (auto simp: x_def y_def z_def u_def scalar_def)
    have "c < 0x110000" using assms(1) by (auto simp: scalar_def)
    then show ?thesis
      using encode_four [OF b] decode_four [OF b, of r] 3 unfolding c by simp
  qed
qed

lemma decode_sound:
  assumes "decode bs = Some (c, n)"
  shows "scalar c \<and> 0x80 \<le> c \<and> bs = utf8_encode c @ drop n bs \<and> n = length (utf8_encode c)"
proof -
  obtain b0 rest m l h code where d: "bs = b0 # rest" "lead_nat (unat b0) = Some (m, l, h)" "m \<le> length bs"
    "decode_tail l h (unat b0 mod 2 ^ (7 - m)) (map unat (take (m - 1) rest)) = Some code" "char_from code = Some c"
    using assms by (auto simp: decode_nat split: list.splits option.splits prod.splits if_splits)
  from d(2) show ?thesis
  proof (cases rule: byte_cases)
    case (1 x)
    then obtain b1 r where r: "rest = b1 # r" using d(1,3) by (cases rest) auto
    then obtain y where y: "y < 64" "b1 = byte_of (128 + y)" using d(4) 1 tail_byte [of b1] by (auto split: if_splits)
    then have "c = 64 * x + y" "n = 2" using assms decode_two [OF 1(3,2) y(1), of r] d(1) r 1 by auto
    then show ?thesis
      using encode_two [OF 1(2,3) y(1)] d(1) r y 1 by (auto simp: scalar_def)
  next
    case (2 x)
    then obtain b1 b2 r where r: "rest = b1 # b2 # r" using d(1,3) by (cases rest; cases "tl rest") auto
    have "128 \<le> unat b1" "unat b1 \<le> 191" "128 \<le> unat b2" "unat b2 \<le> 191" "l \<le> unat b1" "unat b1 \<le> h"
      using d(4) 2 r by (auto split: if_splits)
    then obtain y z where y: "y < 64" "b1 = byte_of (128 + y)" "z < 64" "b2 = byte_of (128 + z)"
      "l \<le> 128 + y" "128 + y \<le> h"
      using tail_byte [of b1] tail_byte [of b2] by (auto simp: unat_byte_of)
    have g: "0x800 \<le> 4096 * x + 64 * y + z" "scalar (4096 * x + 64 * y + z)"
      using y 2 by (auto simp: scalar_def split: if_splits)
    then have "c = 4096 * x + 64 * y + z" "n = 3"
      using assms decode_three [OF 2(2) y(1,3) g, of r] d(1) r 2(3) y by auto
    then show ?thesis
      using encode_three [OF 2(2) y(1,3) g(1)] d(1) r y 2(3) g by auto
  next
    case (3 x)
    then obtain b1 b2 b3 r where r: "rest = b1 # b2 # b3 # r"
      using d(1,3) by (cases rest; cases "tl rest"; cases "tl (tl rest)") auto
    have "128 \<le> unat b1" "unat b1 \<le> 191" "128 \<le> unat b2" "unat b2 \<le> 191" "128 \<le> unat b3" "unat b3 \<le> 191"
      "l \<le> unat b1" "unat b1 \<le> h"
      using d(4) 3 r by (auto split: if_splits)
    then obtain y z u where y: "y < 64" "b1 = byte_of (128 + y)" "z < 64" "b2 = byte_of (128 + z)"
      "u < 64" "b3 = byte_of (128 + u)" "l \<le> 128 + y" "128 + y \<le> h"
      using tail_byte [of b1] tail_byte [of b2] tail_byte [of b3] by (auto simp: unat_byte_of)
    have g: "0x10000 \<le> 262144 * x + 4096 * y + 64 * z + u" "262144 * x + 4096 * y + 64 * z + u < 0x110000"
      using y 3 by (auto split: if_splits)
    then have "c = 262144 * x + 4096 * y + 64 * z + u" "n = 4"
      using assms decode_four [OF 3(2) y(1,3,5) g, of r] d(1) r 3(3) y by auto
    then show ?thesis
      using encode_four [OF 3(2) y(1,3,5) g(1)] d(1) r y 3(3) g by (auto simp: scalar_def)
  qed
qed

text \<open>
  C16: \<open>decode\<close> reads exactly the encodings of Unicode scalar values past ASCII:
  bytes decode to a character and a length just when they begin with that
  character's encoding, of that length; so overlong forms, surrogates and code
  points past U+10FFFF decode to nothing.
\<close>

theorem decode_iff_encoding:
  "decode bs = Some (c, n) \<longleftrightarrow>
   scalar c \<and> 0x80 \<le> c \<and> n = length (utf8_encode c) \<and> bs = utf8_encode c @ drop n bs"
  using decode_sound [of bs c n] decode_encode [of c "drop n bs"] by metis

end
