(* ===== verification/Vt_Parser.thy ===== *)
theory Vt_Parser
  imports Vt_Utf8
begin

text \<open>
  The terminal's parser (\<open>Parser\<close> of \<open>fux-vt/src/parser.rs\<close>), a byte at a
  time: its parameters, its states, and the transition each byte makes.  The
  screen it writes to, the sixel decoder and the sink are other components;
  what the parser asks of them is the list of actions a byte gives, in order.
\<close>

section \<open>Parameters\<close>

record params =
  pvalues :: "nat list"
  psub :: "32 word"
  plen :: nat
  pfull :: bool
  pgiven :: bool

definition SLOTS :: nat where
  "SLOTS = 32"

definition params_default :: params where
  "params_default = \<lparr>pvalues = replicate SLOTS 0, psub = 0, plen = 1, pfull = False, pgiven = False\<rparr>"

text \<open>\<open>slice::get_mut\<close> with an assignment: nothing where there is no such slot.\<close>

definition set_slot :: "nat \<Rightarrow> nat \<Rightarrow> params \<Rightarrow> params" where
  "set_slot i v p = p\<lparr>pvalues := (pvalues p)[i := v]\<rparr>"

definition params_digit :: "byte \<Rightarrow> params \<Rightarrow> params" where
  "params_digit b p =
     (if \<not> pfull p \<and> 1 \<le> plen p \<and> plen p - 1 < length (pvalues p) \<and> 0x30 \<le> b
      then set_slot (plen p - 1)
        (sat16 (min (pvalues p ! (plen p - 1) * 10) u16_max) (unat b - 0x30)) p
      else p)"

definition continue_group :: "nat \<Rightarrow> bool \<Rightarrow> params \<Rightarrow> params" where
  "continue_group i colon p = (if colon then p\<lparr>psub := psub p OR push_bit (i mod 32) 1\<rparr> else p)"

definition params_separator :: "bool \<Rightarrow> params \<Rightarrow> params" where
  "params_separator colon p =
     (if plen p + 1 \<le> length (pvalues p)
      then (continue_group (plen p) colon (set_slot (plen p) 0 p))\<lparr>plen := plen p + 1\<rparr>
      else p\<lparr>pfull := True\<rparr>)"

definition continues :: "params \<Rightarrow> nat \<Rightarrow> bool" where
  "continues p i \<longleftrightarrow> i < 32 \<and> bit (psub p) i"

definition params_end :: "nat \<Rightarrow> nat \<Rightarrow> params \<Rightarrow> params" where
  "params_end len v p = (if 1 \<le> len then set_slot (len - 1) v p else p)\<lparr>plen := len\<rparr>"

definition params_next :: "nat \<Rightarrow> nat \<Rightarrow> bool \<Rightarrow> params \<Rightarrow> (nat \<times> params) option" where
  "params_next len v colon p =
     (if len + 1 \<le> length (pvalues p) then Some (len + 1, continue_group len colon (params_end len v p))
      else None)"

definition params_clear :: "params \<Rightarrow> params" where
  "params_clear p = (set_slot 0 0 p)\<lparr>plen := 1, psub := 0, pfull := False\<rparr>"

text \<open>The groups: from each start, the values that continue it.\<close>

fun group_end :: "params \<Rightarrow> nat \<Rightarrow> nat \<Rightarrow> nat" where
  "group_end p 0 e = e"
| "group_end p (Suc n) e = (if psub p \<noteq> 0 \<and> e < plen p \<and> continues p e then group_end p n (Suc e) else e)"

lemma group_end_le: "e \<le> group_end p n e"
  by (induction p n e rule: group_end.induct) auto

function groups_from :: "params \<Rightarrow> nat \<Rightarrow> nat list list" where
  "groups_from p start =
     (if plen p \<le> start then []
      else let e = group_end p (plen p - (start + 1)) (start + 1)
           in if e \<le> length (pvalues p) then take (e - start) (drop start (pvalues p)) # groups_from p e else [])"
  by pat_completeness auto
termination
  by (relation "measure (\<lambda>(p, start). plen p - start)")
    (auto, metis Suc_le_lessD diff_less_mono2 group_end_le lessI less_le_trans linorder_not_le)

declare groups_from.simps [simp del]

definition params_groups :: "params \<Rightarrow> nat list list" where
  "params_groups p = groups_from p 0"

definition params_is_empty :: "params \<Rightarrow> bool" where
  "params_is_empty p \<longleftrightarrow> plen p = 1 \<and> get_at (pvalues p) 0 = Some 0"

definition params_grouped :: "params \<Rightarrow> nat \<Rightarrow> nat option" where
  "params_grouped p i =
     (case get_at (params_groups p) i of None \<Rightarrow> None | Some g \<Rightarrow> get_at g 0)"

definition params_first :: "params \<Rightarrow> nat \<Rightarrow> nat \<Rightarrow> nat" where
  "params_first p i d =
     (let v = (if psub p \<noteq> 0 then params_grouped p i
               else if plen p \<le> length (pvalues p) then get_at (take (plen p) (pvalues p)) i else None)
      in case v of Some n \<Rightarrow> if n = 0 then d else n | None \<Rightarrow> d)"

section \<open>States\<close>

datatype phase = Entry | Param "byte list" | Intermediate "byte list"

datatype pstate =
    Ground
  | Utf8 "byte list"
  | Escape "byte list"
  | EscapeIgnore
  | Csi phase
  | CsiIgnore
  | Dcs phase
  | IgnoreString
  | Sixel
  | Request "byte list option"
  | Osc bool

datatype next_phase = Next_Phase phase | Next_Ignore | Next_Control | Next_Final "byte list"

fun phase_read :: "phase \<Rightarrow> byte list" where
  "phase_read Entry = []"
| "phase_read (Param read) = read"
| "phase_read (Intermediate read) = read"

fun is_intermediate :: "phase \<Rightarrow> bool" where
  "is_intermediate (Intermediate _) = True"
| "is_intermediate _ = False"

definition note_given :: "byte list \<Rightarrow> params \<Rightarrow> params" where
  "note_given read p = p\<lparr>pgiven := pgiven p \<or> read \<noteq> []\<rparr>"

text \<open>\<open>Phase::next\<close>, its arms in the code's order.\<close>

definition phase_next :: "phase \<Rightarrow> byte \<Rightarrow> params \<Rightarrow> next_phase \<times> params" where
  "phase_next ph b p =
     (let read = phase_read ph in
      if b \<le> 0x1f then (Next_Control, p)
      else if 0x20 \<le> b \<and> b \<le> 0x2f then
        (case bytes_push 2 read b of
           None \<Rightarrow> (Next_Ignore, p)
         | Some read' \<Rightarrow> (Next_Phase (Intermediate read'), p))
      else if 0x30 \<le> b \<and> b \<le> 0x3f \<and> is_intermediate ph then (Next_Ignore, p)
      else if 0x30 \<le> b \<and> b \<le> 0x39 then (Next_Phase (Param read), note_given read (params_digit b p))
      else if b = 0x3b \<or> b = 0x3a then
        (Next_Phase (Param read), note_given read (params_separator (b = 0x3a) p))
      else if 0x3c \<le> b \<and> b \<le> 0x3f \<and> ph = Entry then
        (Next_Phase (Param (bytes_of 2 b)), p\<lparr>pgiven := False\<rparr>)
      else if 0x3c \<le> b \<and> b \<le> 0x3f then (Next_Ignore, p)
      else if 0x40 \<le> b \<and> b \<le> 0x7e then (Next_Final read, p)
      else (Next_Phase ph, p))"

section \<open>Options\<close>

datatype feature = Events | ExtendedReplies | ModeReports | InBandResize | SizeReports
  | ColorSchemeUpdates | KittyKeyboard | Reflow | Hyperlinks | PromptMarks | RectangleChecksums
  | SettingReports | Palette | Pictures

text \<open>\<open>feature as usize\<close>.\<close>

fun feature_index :: "feature \<Rightarrow> nat" where
  "feature_index Events = 0"
| "feature_index ExtendedReplies = 1"
| "feature_index ModeReports = 2"
| "feature_index InBandResize = 3"
| "feature_index SizeReports = 4"
| "feature_index ColorSchemeUpdates = 5"
| "feature_index KittyKeyboard = 6"
| "feature_index Reflow = 7"
| "feature_index Hyperlinks = 8"
| "feature_index PromptMarks = 9"
| "feature_index RectangleChecksums = 10"
| "feature_index SettingReports = 11"
| "feature_index Palette = 12"
| "feature_index Pictures = 13"

definition feature_count :: nat where
  "feature_count = 14"

record identity =
  id_name :: string
  id_version :: string

record options =
  opt_on :: "bool list"
  opt_identity :: "identity option"

definition options_new :: options where
  "options_new = \<lparr>opt_on = replicate feature_count False, opt_identity = None\<rparr>"

definition options_set :: "feature \<Rightarrow> bool \<Rightarrow> options \<Rightarrow> options" where
  "options_set f on opts =
     (if feature_index f < length (opt_on opts)
      then opts\<lparr>opt_on := (opt_on opts)[feature_index f := on]\<rparr> else opts)"

definition options_with :: "options \<Rightarrow> feature \<Rightarrow> options" where
  "options_with opts f = options_set f True opts"

definition has :: "options \<Rightarrow> feature \<Rightarrow> bool" where
  "has opts f = (get_at (opt_on opts) (feature_index f) = Some True)"

definition with_identity :: "identity option \<Rightarrow> options \<Rightarrow> options" where
  "with_identity i opts = opts\<lparr>opt_identity := i\<rparr>"

text \<open>\<open>FromIterator\<close>.\<close>

definition options_of :: "feature list \<Rightarrow> options" where
  "options_of fs = foldl options_with options_new fs"

section \<open>Actions\<close>

text \<open>
  What the parser asks of the screen, the sixel decoder and the sink.  Runs
  are what the fast paths hand over at once.
\<close>

datatype action =
    Print nat
  | Ascii "byte list"
  | Text "nat list"
  | Control byte
  | Line_End
  | Forget_Repeat
  | Cancel_Shift
  | Substitute
  | Bell
  | Csi_Seq params "byte list" byte
  | Esc_Seq "byte list" byte
  | Osc_Str "byte list" bool bool
  | Request_Str "byte list option"
  | Termcap_Reply
  | Sixel_Begin nat nat
  | Sixel_Byte byte
  | Sixel_End

record parser =
  p_opts :: options
  p_osc :: "byte list"
  p_limit :: nat
  p_state :: pstate
  p_params :: params
  p_sixel :: bool
  p_termcap :: bool

definition OSC_PAYLOAD_LIMIT :: nat where
  "OSC_PAYLOAD_LIMIT = 64 * 1024"

definition OSC_PREFIX :: nat where
  "OSC_PREFIX = 64"

definition REQUEST_LIMIT :: nat where
  "REQUEST_LIMIT = 4"

definition parser_new :: "options \<Rightarrow> parser" where
  "parser_new opts =
     \<lparr>p_opts = opts, p_osc = [],
      p_limit = (if has opts Events \<or> has opts Hyperlinks \<or> has opts Palette then OSC_PAYLOAD_LIMIT
                 else if has opts PromptMarks then OSC_PREFIX else 0),
      p_state = Ground, p_params = params_default, p_sixel = False, p_termcap = False\<rparr>"

text \<open>An OSC's payload: 00/08 to 00/13 and everything from 02/00 but DEL.\<close>

definition in_command_string :: "byte \<Rightarrow> bool" where
  "in_command_string b \<longleftrightarrow> \<not> (b \<le> 0x07 \<or> 0x0e \<le> b \<and> b \<le> 0x1f \<or> b = 0x7f)"

section \<open>One byte\<close>

definition control_acts :: "parser \<Rightarrow> byte \<Rightarrow> action list" where
  "control_acts p b = (if b = 7 \<and> has (p_opts p) Events then [Bell] else []) @ [Control b]"

definition REPLACEMENT :: nat where
  "REPLACEMENT = 0xfffd"

definition ground :: "byte \<Rightarrow> parser \<Rightarrow> parser \<times> action list" where
  "ground b p =
     (if b = 0x1b then (p\<lparr>p_state := Escape []\<rparr>, [Cancel_Shift])
      else if b \<le> 0x1f \<or> b = 0x7f then (p, control_acts p b @ [Forget_Repeat])
      else if 0x20 \<le> b \<and> b \<le> 0x7e then (p, [Print (unat b)])
      else if 0xc2 \<le> b \<and> b \<le> 0xf4 then (p\<lparr>p_state := Utf8 (bytes_of 4 b)\<rparr>, [])
      else (p, [Print REPLACEMENT]))"

definition first_byte :: "byte list \<Rightarrow> byte" where
  "first_byte bs = (case bs of [] \<Rightarrow> 0 | b # _ \<Rightarrow> b)"

definition continuation :: "byte list \<Rightarrow> byte \<Rightarrow> parser \<Rightarrow> parser \<times> action list" where
  "continuation read b p =
     (let (need, low, high) = (case lead (first_byte read) of Some l \<Rightarrow> l | None \<Rightarrow> (1, 0xff, 0));
          (low, high) = (if length read = 1 then (low, high) else (0x80, 0xbf));
          valid = (low \<le> b \<and> b \<le> high);
          p' = p\<lparr>p_state := Ground\<rparr>
      in case (if valid then bytes_push 4 read b else None) of
           Some read' \<Rightarrow>
             if length read' < need then (p'\<lparr>p_state := Utf8 read'\<rparr>, [])
             else (case decode read' of Some (c, _) \<Rightarrow> (p', [Print c]) | None \<Rightarrow> (p', []))
         | None \<Rightarrow> (case ground b p' of (p'', acts) \<Rightarrow> (p'', Print REPLACEMENT # acts)))"

definition cancel :: "byte \<Rightarrow> pstate \<Rightarrow> parser \<Rightarrow> parser \<times> action list" where
  "cancel b st p =
     (if b = 0x1a \<and> st = Sixel \<and> p_sixel p then (p, [Sixel_Byte 0x3f])
      else (p\<lparr>p_state := Ground, p_sixel := False, p_termcap := False\<rparr>,
            (if b = 0x1a \<and> st \<noteq> Sixel then [Substitute] else []) @ [Forget_Repeat]))"

definition dcs_string :: "byte list \<Rightarrow> byte \<Rightarrow> parser \<Rightarrow> parser \<times> action list" where
  "dcs_string read b p =
     (let request = (\<lambda>marker. has (p_opts p) SettingReports \<and> b = 0x71 \<and> read = marker
                       \<and> params_is_empty (p_params p));
          sixel = (b = 0x71 \<and> read = [])
      in if request [0x24] then (p\<lparr>p_state := Request (Some [])\<rparr>, [])
         else if request [0x2b] then (p\<lparr>p_termcap := True, p_state := IgnoreString\<rparr>, [])
         else if sixel \<and> has (p_opts p) Pictures then
           (p\<lparr>p_sixel := True, p_state := Sixel\<rparr>,
            [Sixel_Begin (params_first (p_params p) 0 0) (params_first (p_params p) 1 0)])
         else (p\<lparr>p_state := IgnoreString\<rparr>, []))"

text \<open>\<open>dispatch_osc\<close>: the payload is carried out and the buffer emptied.\<close>

definition dispatch_osc :: "bool \<Rightarrow> bool \<Rightarrow> parser \<Rightarrow> parser \<times> action list" where
  "dispatch_osc whole bel p = (p\<lparr>p_osc := []\<rparr>, [Osc_Str (p_osc p) whole bel])"

text \<open>What an ESC ends, its own state already \<open>Escape\<close>.\<close>

definition escape_ends :: "pstate \<Rightarrow> parser \<Rightarrow> parser \<times> action list" where
  "escape_ends st p =
     (case st of
        Osc whole \<Rightarrow> dispatch_osc whole False p
      | Request request \<Rightarrow> (p, [Request_Str request])
      | IgnoreString \<Rightarrow> (p\<lparr>p_termcap := False\<rparr>, if p_termcap p then [Termcap_Reply] else [])
      | Sixel \<Rightarrow> (p\<lparr>p_sixel := False\<rparr>, if p_sixel p then [Sixel_End] else [])
      | _ \<Rightarrow> (p, []))"

text \<open>A byte of an escape sequence after ESC.\<close>

definition escape_byte :: "byte list \<Rightarrow> byte \<Rightarrow> parser \<Rightarrow> parser \<times> action list" where
  "escape_byte read b p =
     (if b \<le> 0x1f then (p, control_acts p b)
      else if 0x20 \<le> b \<and> b \<le> 0x2f then
        (p\<lparr>p_state := (case bytes_push 2 read b of Some read' \<Rightarrow> Escape read' | None \<Rightarrow> EscapeIgnore)\<rparr>, [])
      else if 0x30 \<le> b \<and> b \<le> 0x7e then
        (if read = [] \<and> b = 0x5b then
           (p\<lparr>p_params := params_clear (p_params p), p_state := Csi Entry\<rparr>, [])
         else if read = [] \<and> b = 0x50 then
           (p\<lparr>p_params := params_clear (p_params p), p_state := Dcs Entry\<rparr>, [])
         else if read = [] \<and> b = 0x5d then (p\<lparr>p_osc := [], p_state := Osc True\<rparr>, [])
         else if read = [] \<and> (b = 0x58 \<or> b = 0x5e \<or> b = 0x5f) then (p\<lparr>p_state := IgnoreString\<rparr>, [])
         else (p\<lparr>p_state := Ground\<rparr>, [Esc_Seq read b]))
      else (p, []))"

text \<open>
  A byte in a state past ground, which is no CAN, SUB or ESC: the parser, the
  actions, and whether the arm returned at once, leaving REP's character.
\<close>

definition osc_byte :: "bool \<Rightarrow> byte \<Rightarrow> parser \<Rightarrow> (parser \<times> action list) \<times> bool" where
  "osc_byte whole b p =
     (if b = 0x07 then (dispatch_osc whole True (p\<lparr>p_state := Ground\<rparr>), False)
      else if \<not> whole \<or> \<not> in_command_string b then ((p, []), True)
      else if length (p_osc p) < p_limit p then ((p\<lparr>p_osc := p_osc p @ [b]\<rparr>, []), True)
      else ((p\<lparr>p_state := Osc False\<rparr>, []), True))"

definition inner_byte :: "pstate \<Rightarrow> byte \<Rightarrow> parser \<Rightarrow> (parser \<times> action list) \<times> bool" where
  "inner_byte st b p =
     (case st of
        Ground \<Rightarrow> ((p, []), False)
      | Utf8 _ \<Rightarrow> ((p, []), False)
      | Osc whole \<Rightarrow> osc_byte whole b p
      | Request request \<Rightarrow>
          if b < 0x20 then ((p, []), False)
          else ((p\<lparr>p_state := Request (case request of None \<Rightarrow> None | Some r \<Rightarrow> bytes_push REQUEST_LIMIT r b)\<rparr>, []), True)
      | IgnoreString \<Rightarrow> ((p, []), True)
      | Sixel \<Rightarrow>
          if b = 0x07 then ((p, control_acts p 0x07), True)
          else ((p, if p_sixel p then [Sixel_Byte b] else []), True)
      | Escape read \<Rightarrow> (escape_byte read b p, False)
      | EscapeIgnore \<Rightarrow>
          if b \<le> 0x1f then ((p, control_acts p b), False)
          else if 0x30 \<le> b \<and> b \<le> 0x7e then ((p\<lparr>p_state := Ground\<rparr>, []), False)
          else ((p, []), False)
      | Csi ph \<Rightarrow>
          (case phase_next ph b (p_params p) of
             (Next_Phase ph', ps) \<Rightarrow> ((p\<lparr>p_params := ps, p_state := Csi ph'\<rparr>, []), False)
           | (Next_Ignore, ps) \<Rightarrow> ((p\<lparr>p_params := ps, p_state := CsiIgnore\<rparr>, []), False)
           | (Next_Control, ps) \<Rightarrow> ((p\<lparr>p_params := ps\<rparr>, control_acts p b), False)
           | (Next_Final read, ps) \<Rightarrow> ((p\<lparr>p_params := ps, p_state := Ground\<rparr>, [Csi_Seq ps read b]), False))
      | CsiIgnore \<Rightarrow>
          if b \<le> 0x1f then ((p, control_acts p b), False)
          else if 0x40 \<le> b \<and> b \<le> 0x7e then ((p\<lparr>p_state := Ground\<rparr>, []), False)
          else ((p, []), False)
      | Dcs ph \<Rightarrow>
          (case phase_next ph b (p_params p) of
             (Next_Phase ph', ps) \<Rightarrow> ((p\<lparr>p_params := ps, p_state := Dcs ph'\<rparr>, []), False)
           | (Next_Ignore, ps) \<Rightarrow> ((p\<lparr>p_params := ps, p_state := IgnoreString\<rparr>, []), False)
           | (Next_Control, ps) \<Rightarrow> ((p\<lparr>p_params := ps\<rparr>, []), False)
           | (Next_Final read, ps) \<Rightarrow> (dcs_string read b (p\<lparr>p_params := ps\<rparr>), False)))"

text \<open>\<open>Parser::byte\<close>.\<close>

definition byte_step :: "byte \<Rightarrow> parser \<Rightarrow> parser \<times> action list" where
  "byte_step b p =
     (case p_state p of
        Ground \<Rightarrow> ground b p
      | Utf8 read \<Rightarrow> continuation read b p
      | st \<Rightarrow>
          if b = 0x18 \<or> b = 0x1a then cancel b st p
          else if b = 0x1b then escape_ends st (p\<lparr>p_state := Escape []\<rparr>)
          else (case inner_byte st b p of
                  ((p', acts), returned) \<Rightarrow>
                    if \<not> returned \<and> p_state p' = Ground then (p', acts @ [Forget_Repeat]) else (p', acts)))"

fun feed :: "byte list \<Rightarrow> parser \<Rightarrow> parser \<times> action list" where
  "feed [] p = (p, [])"
| "feed (b # bs) p =
     (case byte_step b p of (p', acts) \<Rightarrow> case feed bs p' of (p'', acts') \<Rightarrow> (p'', acts @ acts'))"

lemma feed_append:
  "feed (xs @ ys) p = (case feed xs p of (p', a) \<Rightarrow> case feed ys p' of (p'', a') \<Rightarrow> (p'', a @ a'))"
  by (induction xs arbitrary: p) (auto split: prod.splits)

end
