(* ===== verification/Vt_Fast.thy ===== *)
theory Vt_Fast
  imports Vt_Parser
begin

text \<open>
  The parser's fast paths (\<open>csi_sequence\<close>, \<open>osc_more\<close>, \<open>string\<close>, \<open>text\<close> and the
  loop \<open>run_on\<close> of \<open>fux-vt/src/parser.rs\<close>), and that each reads what the
  transitions byte by byte read: the same parser after it, and the same
  actions.
\<close>

section \<open>A CSI in its common shape\<close>

definition is_digit :: "byte \<Rightarrow> bool" where
  "is_digit b \<longleftrightarrow> 0x30 \<le> b \<and> b \<le> 0x39"

definition csi_stop :: "nat \<Rightarrow> nat \<Rightarrow> byte list \<Rightarrow> nat \<Rightarrow> parser \<Rightarrow> parser" where
  "csi_stop len v marker at p =
     p\<lparr>p_params := params_end len v (p_params p), p_state := Csi (if at = 2 then Entry else Param marker)\<rparr>"

fun csi_loop :: "byte list \<Rightarrow> nat \<Rightarrow> nat \<Rightarrow> byte list \<Rightarrow> nat \<Rightarrow> parser \<Rightarrow> (parser \<times> action list) \<times> nat" where
  "csi_loop [] len v marker at p = ((csi_stop len v marker at p, []), at)"
| "csi_loop (b # bs) len v marker at p =
     (if is_digit b then csi_loop bs len (min (v * 10 + (unat b - 0x30)) u16_max) marker (at + 1) p
      else if b = 0x3b \<or> b = 0x3a then
        (case params_next len v (b = 0x3a) (p_params p) of
           Some (len', ps) \<Rightarrow> csi_loop bs len' 0 marker (at + 1) (p\<lparr>p_params := ps\<rparr>)
         | None \<Rightarrow>
             ((p\<lparr>p_params := (params_end len v (p_params p))\<lparr>pfull := True\<rparr>, p_state := Csi (Param marker)\<rparr>, []),
              at + 1))
      else if 0x3c \<le> b \<and> b \<le> 0x3f \<and> at = 2 then
        (let given = (case bs of [] \<Rightarrow> False | c # _ \<Rightarrow> 0x30 \<le> c \<and> c \<le> 0x3b)
         in csi_loop bs len v (bytes_of 2 b) (at + 1) (p\<lparr>p_params := (p_params p)\<lparr>pgiven := given\<rparr>\<rparr>))
      else if 0x40 \<le> b \<and> b \<le> 0x7e then
        (let ps = params_end len v (p_params p)
         in ((p\<lparr>p_params := ps, p_state := Ground\<rparr>, [Csi_Seq ps marker b, Forget_Repeat]), at + 1))
      else ((csi_stop len v marker at p, []), at))"

text \<open>\<open>csi_sequence\<close>, of bytes that begin with ESC [ in ground; \<open>at\<close> counts the bytes taken.\<close>

definition csi_sequence :: "byte list \<Rightarrow> parser \<Rightarrow> (parser \<times> action list) \<times> nat" where
  "csi_sequence bs p = csi_loop (drop 2 bs) 1 0 [] 2 (p\<lparr>p_params := params_clear (p_params p)\<rparr>)"

text \<open>The slots as the code's array has them, and the value being read in one of them.\<close>

definition params_ok :: "params \<Rightarrow> bool" where
  "params_ok ps \<longleftrightarrow> length (pvalues ps) = SLOTS \<and> 1 \<le> plen ps \<and> plen ps \<le> SLOTS \<and> (\<forall>v \<in> set (pvalues ps). v \<le> u16_max)"

definition given_now :: "byte list \<Rightarrow> nat \<Rightarrow> params \<Rightarrow> bool" where
  "given_now marker at ps = (pgiven ps \<and> \<not> (marker \<noteq> [] \<and> at = 3))"

text \<open>The parser the bytes read so far leave byte by byte, from the one the loop keeps.\<close>

definition csi_now :: "nat \<Rightarrow> nat \<Rightarrow> byte list \<Rightarrow> nat \<Rightarrow> parser \<Rightarrow> parser" where
  "csi_now len v marker at p =
     p\<lparr>p_params := (params_end len v (p_params p))\<lparr>pgiven := given_now marker at (p_params p)\<rparr>,
       p_state := Csi (if at = 2 then Entry else Param marker)\<rparr>"

definition given_ok :: "byte list \<Rightarrow> nat \<Rightarrow> byte list \<Rightarrow> params \<Rightarrow> bool" where
  "given_ok marker at bs ps \<longleftrightarrow>
     (at = 2 \<longrightarrow> marker = [])
     \<and> (marker \<noteq> [] \<longrightarrow> (if at = 3 then pgiven ps = (case bs of [] \<Rightarrow> False | c # _ \<Rightarrow> 0x30 \<le> c \<and> c \<le> 0x3b)
                        else pgiven ps))"

lemma digit_saturates: "v \<le> u16_max \<Longrightarrow> sat16 (min (v * 10) u16_max) d = min (v * 10 + d) u16_max"
  by (auto simp: sat16_def)

lemma end_digit:
  assumes "length (pvalues ps) = SLOTS" "1 \<le> len" "len \<le> SLOTS" "v \<le> u16_max" "\<not> pfull ps" "0x30 \<le> b"
  shows "params_digit b (params_end len v ps) = params_end len (min (v * 10 + (unat b - 0x30)) u16_max) ps"
  using assms digit_saturates [of v "unat b - 0x30"]
  by (auto simp: params_digit_def params_end_def set_slot_def SLOTS_def)

lemma end_separator:
  assumes "length (pvalues ps) = SLOTS" "1 \<le> len" "params_next len v colon ps = Some (len', ps')"
  shows "params_separator colon (params_end len v ps) = params_end len' 0 ps'"
  using assms
  by (auto simp: params_separator_def params_end_def params_next_def set_slot_def continue_group_def SLOTS_def
      split: if_splits)

lemma end_full:
  assumes "length (pvalues ps) = SLOTS" "1 \<le> len" "params_next len v colon ps = None"
  shows "params_separator colon (params_end len v ps) = (params_end len v ps)\<lparr>pfull := True\<rparr>"
  using assms
  by (auto simp: params_separator_def params_end_def params_next_def set_slot_def SLOTS_def split: if_splits)

lemma params_end_more [simp]: "pgiven (params_end len v ps) = pgiven ps" "pfull (params_end len v ps) = pfull ps"
  "length (pvalues (params_end len v ps)) = length (pvalues ps)"
  by (simp_all add: params_end_def set_slot_def)

lemma digit_given [simp]: "params_digit b (ps\<lparr>pgiven := g\<rparr>) = (params_digit b ps)\<lparr>pgiven := g\<rparr>"
  by (simp add: params_digit_def set_slot_def)

lemma separator_given [simp]: "params_separator c (ps\<lparr>pgiven := g\<rparr>) = (params_separator c ps)\<lparr>pgiven := g\<rparr>"
  by (simp add: params_separator_def set_slot_def continue_group_def)

lemma byte_step_csi:
  assumes "b \<noteq> 0x18" "b \<noteq> 0x1a" "b \<noteq> 0x1b" "p_state q = Csi ph"
  shows "byte_step b q =
     (case phase_next ph b (p_params q) of
        (Next_Phase ph', ps) \<Rightarrow> (q\<lparr>p_params := ps, p_state := Csi ph'\<rparr>, [])
      | (Next_Ignore, ps) \<Rightarrow> (q\<lparr>p_params := ps, p_state := CsiIgnore\<rparr>, [])
      | (Next_Control, ps) \<Rightarrow> (q\<lparr>p_params := ps\<rparr>, control_acts q b)
      | (Next_Final read, ps) \<Rightarrow>
          (q\<lparr>p_params := ps, p_state := Ground\<rparr>, [Csi_Seq ps read b, Forget_Repeat]))"
  using assms by (auto simp: byte_step_def inner_byte_def split: next_phase.splits prod.splits)

text \<open>The arms of \<open>Phase::next\<close> the common shape takes.\<close>

lemma next_digit:
  "is_digit b \<Longrightarrow> \<not> is_intermediate ph \<Longrightarrow>
   phase_next ph b ps = (Next_Phase (Param (phase_read ph)), note_given (phase_read ph) (params_digit b ps))"
  unfolding is_digit_def phase_next_def Let_def word_le_nat_alt word_unat_eq_iff by simp

lemma next_separator:
  "b = 0x3b \<or> b = 0x3a \<Longrightarrow> \<not> is_intermediate ph \<Longrightarrow>
   phase_next ph b ps = (Next_Phase (Param (phase_read ph)), note_given (phase_read ph) (params_separator (b = 0x3a) ps))"
  unfolding phase_next_def Let_def word_le_nat_alt word_unat_eq_iff by auto

lemma next_marker:
  "0x3c \<le> b \<Longrightarrow> b \<le> 0x3f \<Longrightarrow> phase_next Entry b ps = (Next_Phase (Param (bytes_of 2 b)), ps\<lparr>pgiven := False\<rparr>)"
  unfolding phase_next_def Let_def word_le_nat_alt word_unat_eq_iff by simp

lemma next_final:
  "0x40 \<le> b \<Longrightarrow> b \<le> 0x7e \<Longrightarrow> phase_next ph b ps = (Next_Final (phase_read ph), ps)"
  unfolding phase_next_def Let_def word_le_nat_alt word_unat_eq_iff by simp

lemma no_escape:
  assumes "is_digit b \<or> b = 0x3b \<or> b = 0x3a \<or> 0x3c \<le> b \<and> b \<le> 0x3f \<or> 0x40 \<le> b \<and> b \<le> 0x7e"
  shows "b \<noteq> 0x18 \<and> b \<noteq> 0x1a \<and> b \<noteq> 0x1b"
  using assms unfolding is_digit_def word_le_nat_alt word_unat_eq_iff by auto

lemma bytes_of_two [simp]: "bytes_of 2 b = [b]"
  by (simp add: bytes_of_def bytes_push_def)

lemma given_stop:
  "given_ok marker at bs ps \<Longrightarrow> (case bs of [] \<Rightarrow> True | c # _ \<Rightarrow> \<not> (0x30 \<le> c \<and> c \<le> 0x3b)) \<Longrightarrow>
   given_now marker at ps = pgiven ps"
  by (auto simp: given_ok_def given_now_def split: list.splits if_splits)

lemma given_read:
  "given_ok marker at (c # bs) ps \<Longrightarrow> 0x30 \<le> c \<Longrightarrow> c \<le> 0x3b \<Longrightarrow> 2 \<le> at \<Longrightarrow>
   given_ok marker (Suc at) bs ps
   \<and> given_now marker (Suc at) ps = (given_now marker at ps \<or> marker \<noteq> [])"
  by (auto simp: given_ok_def given_now_def split: if_splits)

lemma digit_range: "is_digit b \<Longrightarrow> 0x30 \<le> b \<and> b \<le> 0x3b"
  unfolding is_digit_def word_le_nat_alt by simp

lemma separator_range: "b = 0x3b \<or> b = 0x3a \<Longrightarrow> 0x30 \<le> b \<and> b \<le> 0x3b" for b :: byte
  unfolding word_le_nat_alt by auto

lemma low_range: "0x30 \<le> b \<and> b \<le> 0x3b \<Longrightarrow> is_digit b \<or> b = 0x3b \<or> b = 0x3a" for b :: byte
  unfolding is_digit_def word_le_nat_alt word_unat_eq_iff by auto

lemma final_range: "0x40 \<le> b \<Longrightarrow> \<not> (0x30 \<le> b \<and> b \<le> 0x3b)" for b :: byte
  unfolding word_le_nat_alt by auto

lemma csi_now_phase:
  "given_ok marker at bs ps \<Longrightarrow> 2 \<le> at \<Longrightarrow>
   phase_read (if at = 2 then Entry else Param marker) = marker \<and> \<not> is_intermediate (if at = 2 then Entry else Param marker)"
  by (auto simp: given_ok_def)

lemma params_next_keeps:
  "params_next len v c ps = Some (len', ps') \<Longrightarrow> 1 \<le> len \<Longrightarrow>
   length (pvalues ps') = length (pvalues ps) \<and> len' = Suc len \<and> len' \<le> length (pvalues ps)
   \<and> pfull ps' = pfull ps \<and> pgiven ps' = pgiven ps"
  by (auto simp: params_next_def continue_group_def params_end_def set_slot_def split: if_splits)

lemma csi_loop_feeds:
  "length (pvalues (p_params p)) = SLOTS \<Longrightarrow> 1 \<le> len \<Longrightarrow> len \<le> SLOTS \<Longrightarrow> v \<le> u16_max \<Longrightarrow>
   \<not> pfull (p_params p) \<Longrightarrow> given_ok marker at bs (p_params p) \<Longrightarrow> 2 \<le> at \<Longrightarrow>
   csi_loop bs len v marker at p = (r, n) \<Longrightarrow>
   at \<le> n \<and> n \<le> at + length bs \<and> feed (take (n - at) bs) (csi_now len v marker at p) = r"
proof (induction bs len v marker at p arbitrary: r n rule: csi_loop.induct)
  case (1 len v marker at p)
  then show ?case
    using given_stop [OF "1.prems"(6)] by (auto simp: csi_stop_def csi_now_def)
next
  case (2 b bs len v marker at p)
  let ?ps = "p_params p" and ?ph = "if at = 2 then Entry else Param marker"
  let ?now = "csi_now len v marker at p"
  have now: "p_state ?now = Csi ?ph"
    "p_params ?now = (params_end len v ?ps)\<lparr>pgiven := given_now marker at ?ps\<rparr>"
    by (simp_all add: csi_now_def)
  note ph = csi_now_phase [OF "2.prems"(6,7)]
  have fed: "at \<le> n \<and> n \<le> at + length (b # bs) \<and> feed (take (n - at) (b # bs)) ?now = r"
    if "byte_step b ?now = (q, [])" "Suc at \<le> n \<and> n \<le> Suc at + length bs \<and> feed (take (n - Suc at) bs) q = r" for q
  proof -
    have "n - at = Suc (n - Suc at)" using that(2) Suc_diff_Suc [of at n] by linarith
    then show ?thesis using that by (auto split: prod.splits)
  qed
  consider (digit) "is_digit b" | (sep) "\<not> is_digit b" "b = 0x3b \<or> b = 0x3a"
    | (marker) "\<not> is_digit b" "\<not> (b = 0x3b \<or> b = 0x3a)" "0x3c \<le> b \<and> b \<le> 0x3f \<and> at = 2"
    | (final) "\<not> is_digit b" "\<not> (b = 0x3b \<or> b = 0x3a)" "\<not> (0x3c \<le> b \<and> b \<le> 0x3f \<and> at = 2)" "0x40 \<le> b \<and> b \<le> 0x7e"
    | (stop) "\<not> is_digit b" "\<not> (b = 0x3b \<or> b = 0x3a)" "\<not> (0x3c \<le> b \<and> b \<le> 0x3f \<and> at = 2)" "\<not> (0x40 \<le> b \<and> b \<le> 0x7e)"
    by blast
  then show ?case
  proof cases
    case digit
    let ?v = "min (v * 10 + (unat b - 0x30)) u16_max"
    note esc = no_escape [OF disjI1 [OF digit]]
    note g = given_read [OF "2.prems"(6) _ _ "2.prems"(7)]
    have "byte_step b ?now = (?now\<lparr>p_params := note_given marker (params_digit b (p_params ?now)), p_state := Csi (Param marker)\<rparr>, [])"
      using esc next_digit [OF digit, of ?ph] ph by (simp add: byte_step_csi [OF _ _ _ now(1)])
    then have "byte_step b ?now = (csi_now len ?v marker (Suc at) p, [])"
      using g digit_range [OF digit] "2.prems"(1-5,7)
      by (simp add: now(2) note_given_def end_digit csi_now_def)
    moreover have "Suc at \<le> n \<and> n \<le> Suc at + length bs \<and> feed (take (n - Suc at) bs) (csi_now len ?v marker (Suc at) p) = r"
      using "2.IH"(1) [OF digit] "2.prems" digit g digit_range [OF digit] by simp
    ultimately show ?thesis by (rule fed)
  next
    case sep
    have esc: "b \<noteq> 0x18 \<and> b \<noteq> 0x1a \<and> b \<noteq> 0x1b" using sep by (intro no_escape) blast
    note g = given_read [OF "2.prems"(6) _ _ "2.prems"(7)]
    have step: "byte_step b ?now =
       (?now\<lparr>p_params := note_given marker (params_separator (b = 0x3a) (p_params ?now)), p_state := Csi (Param marker)\<rparr>, [])"
      using esc next_separator [OF sep(2), of ?ph] ph by (simp add: byte_step_csi [OF _ _ _ now(1)])
    show ?thesis
    proof (cases "params_next len v (b = 0x3a) ?ps")
      case None
      have "r = ((p\<lparr>p_params := (params_end len v ?ps)\<lparr>pfull := True\<rparr>, p_state := Csi (Param marker)\<rparr>), [])" "n = Suc at"
        using "2.prems"(8) sep None by auto
      moreover have "given_now marker at ?ps \<or> marker \<noteq> [] \<longleftrightarrow> pgiven ?ps"
        using "2.prems"(6) separator_range [OF sep(2)] by (auto simp: given_now_def given_ok_def split: if_splits)
      ultimately show ?thesis
        using step end_full [OF "2.prems"(1,2) None] by (simp add: now(2) note_given_def csi_now_def)
    next
      case (Some lp)
      obtain len' ps' where lp: "lp = (len', ps')" by fastforce
      note keeps = params_next_keeps [OF Some [unfolded lp] "2.prems"(2)]
      have g': "given_ok marker (Suc at) bs ps'" "given_now marker (Suc at) ps' = (given_now marker at ?ps \<or> marker \<noteq> [])"
        using g separator_range [OF sep(2)] keeps by (auto simp: given_ok_def given_now_def)
      have "byte_step b ?now = (csi_now len' 0 marker (Suc at) (p\<lparr>p_params := ps'\<rparr>), [])"
        using step end_separator [OF "2.prems"(1,2) Some [unfolded lp]] g' "2.prems"(7)
        by (simp add: now(2) note_given_def csi_now_def)
      moreover have "Suc at \<le> n \<and> n \<le> Suc at + length bs
          \<and> feed (take (n - Suc at) bs) (csi_now len' 0 marker (Suc at) (p\<lparr>p_params := ps'\<rparr>)) = r"
        using "2.IH"(2) [OF sep Some [unfolded lp] refl] "2.prems" sep Some lp g' keeps by simp
      ultimately show ?thesis by (rule fed)
    qed
  next
    case marker
    let ?given = "case bs of [] \<Rightarrow> False | c # _ \<Rightarrow> 0x30 \<le> c \<and> c \<le> 0x3b"
    let ?p = "p\<lparr>p_params := ?ps\<lparr>pgiven := ?given\<rparr>\<rparr>"
    have esc: "b \<noteq> 0x18 \<and> b \<noteq> 0x1a \<and> b \<noteq> 0x1b" using marker by (intro no_escape) blast
    have "byte_step b ?now = (?now\<lparr>p_params := (p_params ?now)\<lparr>pgiven := False\<rparr>, p_state := Csi (Param [b])\<rparr>, [])"
      by (subst byte_step_csi [OF _ _ _ now(1)]) (use esc next_marker [of b] marker(3) in simp_all)
    then have "byte_step b ?now = (csi_now len v [b] (Suc at) ?p, [])"
      using marker(3) by (simp add: now(2) csi_now_def given_now_def params_end_def set_slot_def)
    moreover have "Suc at \<le> n \<and> n \<le> Suc at + length bs \<and> feed (take (n - Suc at) bs) (csi_now len v [b] (Suc at) ?p) = r"
      using "2.IH"(3) [OF marker refl] "2.prems" marker by (simp add: given_ok_def)
    ultimately show ?thesis by (rule fed)
  next
    case final
    have esc: "b \<noteq> 0x18 \<and> b \<noteq> 0x1a \<and> b \<noteq> 0x1b" using final(4) by (intro no_escape) blast
    have gs: "given_now marker at ?ps = pgiven ?ps"
      using given_stop [OF "2.prems"(6)] final_range [of b] final(4) by simp
    have r: "r = (p\<lparr>p_params := params_end len v ?ps, p_state := Ground\<rparr>, [Csi_Seq (params_end len v ?ps) marker b, Forget_Repeat])"
      "n = Suc at"
      using "2.prems"(8) final by (auto simp: Let_def)
    have "byte_step b ?now = (?now\<lparr>p_params := p_params ?now, p_state := Ground\<rparr>, [Csi_Seq (p_params ?now) marker b, Forget_Repeat])"
      using esc next_final [of b ?ph] final(4) ph by (simp add: byte_step_csi [OF _ _ _ now(1)])
    then have "byte_step b ?now = r"
      using gs unfolding r by (simp add: now(2) csi_now_def)
    then show ?thesis using r(2) by (cases r) simp
  next
    case stop
    have gs: "given_now marker at ?ps = pgiven ?ps"
      using given_stop [OF "2.prems"(6)] low_range [of b] stop by auto
    have "r = (csi_stop len v marker at p, [])" "n = at" using "2.prems"(8) stop by auto
    then show ?thesis using gs by (simp add: csi_stop_def csi_now_def)
  qed
qed

section \<open>Strings\<close>

text \<open>\<open>osc_more\<close>: runs up to a control are copied whole, to one byte past the limit.\<close>

definition osc_ends :: "byte \<Rightarrow> bool" where
  "osc_ends b \<longleftrightarrow> b = 0x07 \<or> b = 0x18 \<or> b = 0x1a \<or> b = 0x1b"

function osc_loop :: "byte list \<Rightarrow> byte list \<Rightarrow> nat \<Rightarrow> nat \<Rightarrow> byte list \<times> nat" where
  "osc_loop rest osc limit n =
     (let run = (case control_in rest of Some i \<Rightarrow> i | None \<Rightarrow> length rest);
          control = get_at rest run;
          ends = (case control of None \<Rightarrow> True | Some c \<Rightarrow> osc_ends c);
          held = (case control of None \<Rightarrow> False | Some c \<Rightarrow> in_command_string c);
          kept = min (run + (if held then 1 else 0)) (limit + 1 - length osc);
          osc' = osc @ take kept rest
      in if ends then (osc', n + run) else osc_loop (drop (run + 1) rest) osc' limit (n + run + 1))"
  by pat_completeness auto
termination
  by (relation "measure (\<lambda>(rest, osc, limit, n). length rest)")
    (auto split: option.splits simp: get_at_Some_iff)

declare osc_loop.simps [simp del]

definition osc_more :: "byte list \<Rightarrow> bool \<Rightarrow> parser \<Rightarrow> parser \<times> nat" where
  "osc_more bs whole p =
     (case osc_loop bs (p_osc p) (p_limit p) 0 of
        (osc', n) \<Rightarrow>
          (p\<lparr>p_state := Osc (whole \<and> length osc' \<le> p_limit p), p_osc := take (p_limit p) osc'\<rparr>, n))"

definition string_more :: "byte list \<Rightarrow> parser \<Rightarrow> (parser \<times> byte list) option" where
  "string_more bs p =
     (let (p', taken) =
        (case p_state p of
           Osc whole \<Rightarrow> osc_more bs whole p
         | IgnoreString \<Rightarrow> (p, case string_end bs of Some n \<Rightarrow> n | None \<Rightarrow> length bs)
         | _ \<Rightarrow> (p, 0))
      in if 0 < taken then Some (p', drop taken bs) else None)"

lemma control_or_kept: "\<not> (b < 0x20 \<or> b = 0x7f) \<Longrightarrow> in_command_string b \<and> \<not> osc_ends b"
  unfolding in_command_string_def osc_ends_def word_le_nat_alt word_less_nat_alt word_unat_eq_iff by auto

lemma ends_not_kept: "osc_ends b \<Longrightarrow> (b < 0x20 \<or> b = 0x7f) \<and> \<not> in_command_string b"
  unfolding in_command_string_def osc_ends_def word_le_nat_alt word_less_nat_alt word_unat_eq_iff by auto

definition osc_run :: "byte list \<Rightarrow> nat" where
  "osc_run bs = length (takeWhile (\<lambda>b. \<not> osc_ends b) bs)"

lemma position_decompose:
  assumes "(case position q bs of Some i \<Rightarrow> i | None \<Rightarrow> length bs) = n"
  shows "\<forall>b \<in> set (take n bs). \<not> q b" "n \<le> length bs" "n < length bs \<Longrightarrow> q (bs ! n)"
proof -
  show "\<forall>b \<in> set (take n bs). \<not> q b"
  proof (cases "position q bs")
    case (Some i)
    then show ?thesis using assms position_first [OF Some] by (auto simp: in_set_conv_nth)
  qed (use assms position_None_iff [of q bs] in \<open>auto dest: in_set_takeD\<close>)
  show "n \<le> length bs" "n < length bs \<Longrightarrow> q (bs ! n)"
    using assms position_Some [of q bs] by (auto split: option.splits)
qed

lemma osc_loop_keeps:
  "length osc \<le> limit + 1 \<Longrightarrow>
   osc_loop rest osc limit n
   = (take (limit + 1) (osc @ filter in_command_string (take (osc_run rest) rest)), n + osc_run rest)"
proof (induction "length rest" arbitrary: rest osc n rule: less_induct)
  case less
  let ?q = "\<lambda>b :: byte. b < 0x20 \<or> b = 0x7f"
  define run where "run = (case position ?q rest of Some i \<Rightarrow> i | None \<Rightarrow> length rest)"
  note d = position_decompose [OF run_def [symmetric]]
  have plain: "\<forall>b \<in> set (take run rest). in_command_string b \<and> \<not> osc_ends b"
    using d(1) control_or_kept by blast
  show ?case
  proof (cases "run < length rest")
    case False
    then have "run = length rest" using d(2) by simp
    then have f: "filter in_command_string rest = rest" and "takeWhile (\<lambda>b. \<not> osc_ends b) rest = rest"
      using plain by auto
    then have "osc_run rest = length rest" by (simp only: osc_run_def)
    then show ?thesis
      using \<open>run = length rest\<close> less.prems f
      by (simp add: osc_loop.simps [of rest] control_in_position run_def [symmetric] Let_def get_at_def min_def)
  next
    case True
    let ?c = "rest ! run"
    have split: "rest = take run rest @ ?c # drop (Suc run) rest" by (simp add: True id_take_nth_drop)
    have tw: "takeWhile (\<lambda>b. \<not> osc_ends b) rest
        = take run rest @ (if osc_ends ?c then [] else ?c # takeWhile (\<lambda>b. \<not> osc_ends b) (drop (Suc run) rest))"
      using plain by (subst split, subst takeWhile_append2) auto
    show ?thesis
    proof (cases "osc_ends ?c")
      case ends: True
      have "osc_run rest = run" using tw ends True by (simp add: osc_run_def)
      moreover have "filter in_command_string (take run rest) = take run rest" using plain by simp
      ultimately show ?thesis
        using True ends conjunct2 [OF ends_not_kept [OF ends]] less.prems
        by (simp add: osc_loop.simps [of rest] control_in_position run_def [symmetric] Let_def get_at_def min.commute)
    next
      case False
      let ?kept = "min (run + (if in_command_string ?c then 1 else 0)) (limit + 1 - length osc)"
      have step: "osc_loop rest osc limit n
          = osc_loop (drop (Suc run) rest) (osc @ take ?kept rest) limit (n + run + 1)"
        using True False
        by (simp add: osc_loop.simps [of rest] control_in_position run_def [symmetric] Let_def get_at_def)
      let ?osc = "osc @ take ?kept rest"
      have f: "filter in_command_string (take (Suc run) rest)
          = take (run + (if in_command_string ?c then 1 else 0)) rest"
        using plain True by (simp add: take_Suc_conv_app_nth)
      have osc: "?osc = take (limit + 1) (osc @ filter in_command_string (take (Suc run) rest))"
        unfolding f using less.prems by (simp add: min.commute)
      have run': "osc_run rest = Suc run + osc_run (drop (Suc run) rest)"
        using tw False True by (simp add: osc_run_def)
      have take': "take (osc_run rest) rest = take (Suc run) rest @ take (osc_run (drop (Suc run) rest)) (drop (Suc run) rest)"
        unfolding run' by (rule take_add)
      have "osc_loop (drop (Suc run) rest) ?osc limit (n + run + 1)
          = (take (limit + 1) (?osc @ filter in_command_string (take (osc_run (drop (Suc run) rest)) (drop (Suc run) rest))),
             n + run + 1 + osc_run (drop (Suc run) rest))"
        using True less.prems by (intro less.hyps) auto
      moreover have "take (limit + 1) (take (limit + 1) xs @ ys) = take (limit + 1) (xs @ ys)" for xs ys :: "byte list"
        by (cases "length xs \<le> limit") (simp_all add: min_def)
      ultimately show ?thesis
        unfolding take' unfolding step osc run' by (simp del: take_append take_Suc_conv_app_nth)
    qed
  qed
qed

text \<open>The same bytes one at a time.\<close>

lemma feed_osc:
  "p_state p = Osc whole \<Longrightarrow> length (p_osc p) \<le> p_limit p \<Longrightarrow> (\<not> whole \<Longrightarrow> length (p_osc p) = p_limit p) \<Longrightarrow>
   \<forall>b \<in> set bs. \<not> osc_ends b \<Longrightarrow>
   feed bs p =
     (let all = p_osc p @ filter in_command_string bs
      in (p\<lparr>p_state := Osc (whole \<and> length all \<le> p_limit p), p_osc := take (p_limit p) all\<rparr>, []))"
proof (induction bs arbitrary: p whole)
  case Nil
  then show ?case by (auto simp: Let_def)
next
  case (Cons b bs)
  then have b: "b \<noteq> 0x07" "b \<noteq> 0x18" "b \<noteq> 0x1a" "b \<noteq> 0x1b" by (auto simp: osc_ends_def)
  have step: "byte_step b p =
      (if \<not> whole \<or> \<not> in_command_string b then p
       else if length (p_osc p) < p_limit p then p\<lparr>p_osc := p_osc p @ [b]\<rparr> else p\<lparr>p_state := Osc False\<rparr>, [])"
    using b Cons.prems(1) by (auto simp: byte_step_def inner_byte_def osc_byte_def)
  have rest: "\<forall>b \<in> set bs. \<not> osc_ends b" using Cons.prems(4) by simp
  consider "\<not> in_command_string b" | "in_command_string b" "\<not> whole"
    | "in_command_string b" "whole" "length (p_osc p) < p_limit p"
    | "in_command_string b" "whole" "length (p_osc p) = p_limit p"
    using Cons.prems(2) by linarith
  then show ?case
  proof cases
    case 1
    then show ?thesis using step Cons.IH [OF Cons.prems(1-3) rest] by simp
  next
    case 2
    then show ?thesis using step Cons.IH [OF Cons.prems(1-3) rest] Cons.prems(3) by (simp add: Let_def)
  next
    case 3
    then show ?thesis using step Cons.IH [of "p\<lparr>p_osc := p_osc p @ [b]\<rparr>" whole] Cons.prems(1) rest by (simp add: Let_def)
  next
    case 4
    then show ?thesis using step Cons.IH [of "p\<lparr>p_state := Osc False\<rparr>" False] rest by (simp add: Let_def)
  qed
qed

lemma take_past:
  "length (take (m + 1) xs) \<le> m \<longleftrightarrow> length xs \<le> m" "take m (take (m + 1) xs) = take m xs"
  by (auto simp: min_def)

lemma osc_more_feeds:
  assumes "p_state p = Osc whole" "length (p_osc p) \<le> p_limit p" "\<not> whole \<Longrightarrow> length (p_osc p) = p_limit p"
    "osc_more bs whole p = (p', n)"
  shows "n \<le> length bs \<and> feed (take n bs) p = (p', [])"
proof -
  let ?all = "p_osc p @ filter in_command_string (take (osc_run bs) bs)"
  have "osc_more bs whole p =
      (p\<lparr>p_state := Osc (whole \<and> length ?all \<le> p_limit p), p_osc := take (p_limit p) ?all\<rparr>, osc_run bs)"
    by (simp only: osc_more_def osc_loop_keeps [OF trans_le_add1 [OF assms(2)]] prod.case add_0 take_past)
  then have n: "n = osc_run bs"
    and p': "p' = p\<lparr>p_state := Osc (whole \<and> length ?all \<le> p_limit p), p_osc := take (p_limit p) ?all\<rparr>"
    unfolding assms(4) by blast+
  have "take (osc_run bs) bs = takeWhile (\<lambda>b. \<not> osc_ends b) bs"
    unfolding osc_run_def by (rule takeWhile_eq_take [symmetric])
  then have "\<forall>b \<in> set (take (osc_run bs) bs). \<not> osc_ends b" by (auto dest: set_takeWhileD)
  then have "feed (take n bs) p = (p', [])"
    unfolding n p' by (subst feed_osc [OF assms(1,2)]) (simp_all add: Let_def assms(3))
  moreover have "n \<le> length bs" unfolding n osc_run_def by (rule length_takeWhile_le)
  ultimately show ?thesis by simp
qed

lemma feed_ignored:
  "p_state p = IgnoreString \<Longrightarrow> \<forall>b \<in> set bs. \<not> (b = 0x18 \<or> b = 0x1a \<or> b = 0x1b) \<Longrightarrow> feed bs p = (p, [])"
  by (induction bs) (auto simp: byte_step_def inner_byte_def)

text \<open>What holds of the buffer an OSC's payload is kept in.\<close>

definition osc_ok :: "parser \<Rightarrow> bool" where
  "osc_ok p \<longleftrightarrow> length (p_osc p) \<le> p_limit p \<and> (p_state p = Osc False \<longrightarrow> length (p_osc p) = p_limit p)"

lemma string_more_feeds:
  assumes "osc_ok p" "string_more bs p = Some (p', rest)"
  shows "\<exists>n. 0 < n \<and> n \<le> length bs \<and> rest = drop n bs \<and> feed (take n bs) p = (p', [])"
proof (cases "p_state p")
  case IgnoreString
  let ?q = "\<lambda>b :: byte. b = 0x18 \<or> b = 0x1a \<or> b = 0x1b"
  define n where "n = (case position ?q bs of Some n \<Rightarrow> n | None \<Rightarrow> length bs)"
  note d = position_decompose [OF n_def [symmetric]]
  have "feed (take n bs) p = (p, [])" by (rule feed_ignored [OF IgnoreString d(1)])
  then show ?thesis
    using assms(2) IgnoreString d(2) n_def
    by (auto simp: string_more_def string_end_position Let_def split: if_splits)
next
  case (Osc whole)
  obtain q n where q: "osc_more bs whole p = (q, n)" by fastforce
  have "n \<le> length bs \<and> feed (take n bs) p = (q, [])"
    using assms(1) Osc by (intro osc_more_feeds [OF Osc _ _ q]) (auto simp: osc_ok_def)
  then show ?thesis using assms(2) Osc q by (auto simp: string_more_def split: if_splits)
qed (use assms(2) in \<open>auto simp: string_more_def split: if_splits\<close>)

end
