(* ===== verification/Vt_Check.thy ===== *)
theory Vt_Check
  imports Vt_Fast
begin

text \<open>
  The checks the parser has of its own state (\<open>check_osc\<close>, \<open>check_params\<close>,
  \<open>check_sixel\<close>, \<open>check_termcap\<close> and \<open>check_utf8\<close> of
  \<open>fux-vt/src/parser.rs\<close>), the invariant they are part of, and that every
  byte keeps it, whatever it is.
\<close>

section \<open>The code's checks\<close>

text \<open>The buffer's capacity, which \<open>check_osc\<close> bounds too, is not modelled; nor is the decoder's own check.\<close>

definition check_osc :: "parser \<Rightarrow> bool" where
  "check_osc p =
     (let inside = (case p_state p of Osc _ \<Rightarrow> 1 | _ \<Rightarrow> 0) in length (p_osc p) \<le> p_limit p + inside)"

definition check_params :: "parser \<Rightarrow> bool" where
  "check_params p = (1 \<le> plen (p_params p) \<and> plen (p_params p) \<le> length (pvalues (p_params p)))"

definition check_sixel :: "parser \<Rightarrow> bool" where
  "check_sixel p = ((p_state p = Sixel) = p_sixel p)"

definition check_termcap :: "parser \<Rightarrow> bool" where
  "check_termcap p = (\<not> p_termcap p \<or> p_state p = IgnoreString)"

definition check_utf8 :: "parser \<Rightarrow> bool" where
  "check_utf8 p =
     (case p_state p of
        Utf8 read \<Rightarrow>
          let need = (case lead (first_byte read) of Some (need, _, _) \<Rightarrow> need | None \<Rightarrow> 0)
          in 1 \<le> length read \<and> length read < need
      | _ \<Rightarrow> True)"

section \<open>The invariant\<close>

text \<open>The bytes after a lead byte that can go on its character.\<close>

fun tail_ok :: "byte \<Rightarrow> byte \<Rightarrow> byte list \<Rightarrow> bool" where
  "tail_ok low high [] = True"
| "tail_ok low high (b # bs) = (low \<le> b \<and> b \<le> high \<and> tail_ok 0x80 0xbf bs)"

definition partial_char :: "byte list \<Rightarrow> bool" where
  "partial_char read =
     (case read of
        [] \<Rightarrow> False
      | first # rest \<Rightarrow>
          (case lead first of
             None \<Rightarrow> False
           | Some (n, low, high) \<Rightarrow> length read < n \<and> tail_ok low high rest))"

fun state_ok :: "pstate \<Rightarrow> bool" where
  "state_ok (Utf8 read) = partial_char read"
| "state_ok (Escape read) = (length read \<le> 2)"
| "state_ok (Csi ph) = (length (phase_read ph) \<le> 2)"
| "state_ok (Dcs ph) = (length (phase_read ph) \<le> 2)"
| "state_ok (Request (Some read)) = (length read \<le> REQUEST_LIMIT)"
| "state_ok _ = True"

definition parser_ok :: "parser \<Rightarrow> bool" where
  "parser_ok p \<longleftrightarrow>
     params_ok (p_params p) \<and> osc_ok p \<and> check_sixel p \<and> check_termcap p \<and> state_ok (p_state p)"

lemma parser_ok_checks:
  assumes "parser_ok p"
  shows "check_osc p \<and> check_params p \<and> check_sixel p \<and> check_termcap p \<and> check_utf8 p"
  using assms
  by (auto simp: parser_ok_def check_osc_def check_params_def check_utf8_def params_ok_def osc_ok_def
      partial_char_def first_byte_def Let_def split: pstate.splits list.splits option.splits)

lemma parser_ok_new: "parser_ok (parser_new opts)"
  by (simp add: parser_ok_def parser_new_def params_ok_def params_default_def osc_ok_def check_sixel_def
      check_termcap_def SLOTS_def u16_max_def)

subsection \<open>Parameters\<close>

named_theorems params_keeps

lemma params_ok_slot: "params_ok ps \<Longrightarrow> v \<le> u16_max \<Longrightarrow> params_ok (set_slot i v ps)"
  by (auto simp: params_ok_def set_slot_def dest!: set_update_subset_insert [THEN subsetD])

lemma params_ok_digit [params_keeps]: "params_ok ps \<Longrightarrow> params_ok (params_digit b ps)"
  by (simp add: params_digit_def params_ok_slot sat16_def)

lemma params_ok_separator [params_keeps]: "params_ok ps \<Longrightarrow> params_ok (params_separator c ps)"
  using params_ok_slot [of ps 0 "plen ps"]
  by (auto simp: params_separator_def continue_group_def params_ok_def set_slot_def)

lemma params_ok_note [params_keeps]: "params_ok ps \<Longrightarrow> params_ok (note_given read ps)"
  by (simp add: note_given_def params_ok_def)

lemma params_ok_given [params_keeps]: "params_ok ps \<Longrightarrow> params_ok (ps\<lparr>pgiven := g\<rparr>)"
  by (simp add: params_ok_def)

lemma params_ok_clear [params_keeps]: "params_ok ps \<Longrightarrow> params_ok (params_clear ps)"
  using params_ok_slot [of ps 0 0] by (simp add: params_clear_def params_ok_def set_slot_def SLOTS_def)

lemma bytes_push_length: "bytes_push n r b = Some r' \<Longrightarrow> length r' \<le> n"
  by (auto simp: bytes_push_def split: if_splits)

lemma phase_next_ok:
  assumes "phase_next ph b ps = (nx, ps')" "params_ok ps" "length (phase_read ph) \<le> 2"
  shows "params_ok ps' \<and> (\<forall>ph'. nx = Next_Phase ph' \<longrightarrow> length (phase_read ph') \<le> 2)"
  using assms
  by (auto simp: phase_next_def Let_def params_keeps split: if_splits option.splits dest: bytes_push_length)

subsection \<open>Every byte\<close>

lemma lead_some: "0xc2 \<le> b \<Longrightarrow> b \<le> 0xf4 \<Longrightarrow> \<exists>n low high. lead b = Some (n, low, high) \<and> 2 \<le> n"
  unfolding lead_def word_le_nat_alt word_unat_eq_iff by auto

lemma lead_four: "lead b = Some (n, low, high) \<Longrightarrow> n \<le> 4"
  by (auto simp: lead_def split: if_splits)

lemma ground_ok: "parser_ok p \<Longrightarrow> p_state p = Ground \<Longrightarrow> ground b p = (p', acts) \<Longrightarrow> parser_ok p'"
  using lead_some [of b]
  by (auto simp: ground_def parser_ok_def osc_ok_def check_sixel_def check_termcap_def partial_char_def bytes_of_def
      bytes_push_def split: if_splits)

lemma parser_ok_ground: "parser_ok p \<Longrightarrow> \<not> p_sixel p \<Longrightarrow> \<not> p_termcap p \<Longrightarrow> parser_ok (p\<lparr>p_state := Ground\<rparr>)"
  by (simp add: parser_ok_def osc_ok_def check_sixel_def check_termcap_def)

lemma tail_ok_snoc:
  "tail_ok low high (bs @ [b]) =
     (tail_ok low high bs \<and> (if bs = [] then low \<le> b \<and> b \<le> high else 0x80 \<le> b \<and> b \<le> 0xbf))"
  by (induction low high bs rule: tail_ok.induct) auto

lemma tail_ok_prefix: "tail_ok low high (xs @ ys) \<Longrightarrow> tail_ok low high xs"
  by (induction low high xs rule: tail_ok.induct) auto

lemma continuation_ok:
  assumes "parser_ok p" "p_state p = Utf8 read" "continuation read b p = (p', acts)"
  shows "parser_ok p'"
proof -
  have flags: "\<not> p_sixel p" "\<not> p_termcap p" using assms(1,2) by (auto simp: parser_ok_def check_sixel_def check_termcap_def)
  note g = parser_ok_ground [OF assms(1) flags]
  obtain first rest n low high where r: "read = first # rest" "lead first = Some (n, low, high)"
      "length read < n" "tail_ok low high rest"
    using assms(1,2) by (auto simp: parser_ok_def partial_char_def split: list.splits option.splits)
  have ground: "parser_ok q" if "ground b (p\<lparr>p_state := Ground\<rparr>) = (q, acts)" for q acts
    using ground_ok [OF g _ that] by simp
  have utf8: "parser_ok (p\<lparr>p_state := Utf8 (read @ [b])\<rparr>)"
    if "length (read @ [b]) < n" "if rest = [] then low \<le> b \<and> b \<le> high else 0x80 \<le> b \<and> b \<le> 0xbf"
    using assms(1) flags r that
    by (auto simp: parser_ok_def osc_ok_def check_sixel_def check_termcap_def partial_char_def tail_ok_snoc)
  show ?thesis
    using assms(3) g utf8 ground r(1-3)
    by (auto simp: continuation_def first_byte_def bytes_push_def Let_def split: if_splits option.splits prod.splits)
qed

lemma flags_off:
  "parser_ok p \<Longrightarrow> p_state p \<noteq> Sixel \<Longrightarrow> p_state p \<noteq> IgnoreString \<Longrightarrow> \<not> p_sixel p \<and> \<not> p_termcap p"
  by (auto simp: parser_ok_def check_sixel_def check_termcap_def)

text \<open>A change of state to one past ground that needs no flag, the flags off.\<close>

lemma parser_ok_to:
  assumes "parser_ok p" "\<not> p_sixel p" "\<not> p_termcap p" "state_ok st" "st \<noteq> Sixel" "st \<noteq> Osc False"
  shows "parser_ok (p\<lparr>p_state := st\<rparr>)" "parser_ok (p\<lparr>p_osc := [], p_state := st\<rparr>)"
    "params_ok ps \<Longrightarrow> parser_ok (p\<lparr>p_params := ps, p_state := st\<rparr>)"
  using assms by (simp_all add: parser_ok_def osc_ok_def check_sixel_def check_termcap_def)

lemma parser_ok_params: "parser_ok p \<Longrightarrow> params_ok (p_params p)"
  by (simp add: parser_ok_def)

lemma osc_byte_ok:
  assumes "parser_ok p" "p_state p = Osc whole" "osc_byte whole b p = ((p', acts), r)"
  shows "parser_ok p'"
  using assms
  by (auto simp: osc_byte_def dispatch_osc_def parser_ok_def osc_ok_def check_sixel_def check_termcap_def split: if_splits)

lemma escape_byte_ok:
  assumes "parser_ok p" "p_state p = Escape read" "escape_byte read b p = (p', acts)"
  shows "parser_ok p'"
proof -
  have off: "\<not> p_sixel p" "\<not> p_termcap p" using flags_off [OF assms(1)] assms(2) by auto
  note to = parser_ok_to [OF assms(1) off]
  note ps = parser_ok_params [OF assms(1)] params_ok_clear [OF parser_ok_params [OF assms(1)]]
  show ?thesis
    using assms(1,3)
    by (auto simp: escape_byte_def to ps split: if_splits option.splits dest: bytes_push_length)
qed

lemma dcs_string_ok:
  assumes "parser_ok p" "p_state p = Dcs ph" "dcs_string read b (p\<lparr>p_params := ps\<rparr>) = (p', acts)" "params_ok ps"
  shows "parser_ok p'"
  using assms
  by (auto simp: dcs_string_def Let_def parser_ok_def osc_ok_def check_sixel_def check_termcap_def split: if_splits)

lemma phased_ok:
  assumes "parser_ok p" "p_state p = Csi ph \<or> p_state p = Dcs ph" "phase_next ph b (p_params p) = (nx, ps)"
  shows "params_ok ps" "nx = Next_Phase ph' \<Longrightarrow> length (phase_read ph') \<le> 2"
proof -
  have "length (phase_read ph) \<le> 2" using assms(1,2) by (auto simp: parser_ok_def)
  then show "params_ok ps" "nx = Next_Phase ph' \<Longrightarrow> length (phase_read ph') \<le> 2"
    using phase_next_ok [OF assms(3) parser_ok_params [OF assms(1)]] by auto
qed

lemma inner_byte_ok:
  assumes ok: "parser_ok p" and st: "p_state p = st" and step: "inner_byte st b p = ((p', acts), r)"
  shows "parser_ok p'"
proof (cases st)
  case (Osc whole)
  then show ?thesis using osc_byte_ok [OF ok] st step by (simp add: inner_byte_def)
next
  case (Escape read)
  then show ?thesis using escape_byte_ok [OF ok st [unfolded Escape]] step by (auto simp: inner_byte_def)
next
  case (Csi ph)
  have off: "\<not> p_sixel p" "\<not> p_termcap p" using flags_off [OF ok] st Csi by auto
  note to = parser_ok_to [OF ok off]
  obtain nx ps where n: "phase_next ph b (p_params p) = (nx, ps)" by fastforce
  note f = phased_ok [OF ok disjI1 [OF st [unfolded Csi]] n]
  have keep: "parser_ok (p\<lparr>p_params := ps\<rparr>)"
    using ok f(1) by (simp add: parser_ok_def osc_ok_def check_sixel_def check_termcap_def)
  show ?thesis
    using step f keep by (cases nx) (auto simp: inner_byte_def Csi n intro!: to)
next
  case (Dcs ph)
  have off: "\<not> p_sixel p" "\<not> p_termcap p" using flags_off [OF ok] st Dcs by auto
  note to = parser_ok_to [OF ok off]
  obtain nx ps where n: "phase_next ph b (p_params p) = (nx, ps)" by fastforce
  note f = phased_ok [OF ok disjI2 [OF st [unfolded Dcs]] n]
  have keep: "parser_ok (p\<lparr>p_params := ps\<rparr>)"
    using ok f(1) by (simp add: parser_ok_def osc_ok_def check_sixel_def check_termcap_def)
  show ?thesis
    using step f keep dcs_string_ok [OF ok st [unfolded Dcs]]
    by (cases nx) (auto simp: inner_byte_def Dcs n intro!: to)
next
  case EscapeIgnore
  have off: "\<not> p_sixel p" "\<not> p_termcap p" using flags_off [OF ok] st EscapeIgnore by auto
  show ?thesis using step ok parser_ok_to(1) [OF ok off, of Ground]
    by (auto simp: inner_byte_def EscapeIgnore split: if_splits)
next
  case CsiIgnore
  have off: "\<not> p_sixel p" "\<not> p_termcap p" using flags_off [OF ok] st CsiIgnore by auto
  show ?thesis using step ok parser_ok_to(1) [OF ok off, of Ground]
    by (auto simp: inner_byte_def CsiIgnore split: if_splits)
next
  case (Request request)
  have off: "\<not> p_sixel p" "\<not> p_termcap p" using flags_off [OF ok] st Request by auto
  note to = parser_ok_to(1) [OF ok off]
  have "state_ok (Request (case request of None \<Rightarrow> None | Some r \<Rightarrow> bytes_push REQUEST_LIMIT r b))"
    by (cases request; cases "bytes_push REQUEST_LIMIT (the request) b") (auto dest: bytes_push_length)
  then show ?thesis using step ok to by (auto simp: inner_byte_def Request split: if_splits)
qed (use ok st step in \<open>auto simp: inner_byte_def split: if_splits\<close>)

lemma escape_ends_ok:
  assumes "parser_ok p" "p_state p = st" "escape_ends st (p\<lparr>p_state := Escape []\<rparr>) = (p', acts)"
  shows "parser_ok p'"
  using assms
  by (cases st) (auto simp: escape_ends_def dispatch_osc_def parser_ok_def osc_ok_def check_sixel_def check_termcap_def)

lemma cancel_ok:
  assumes "parser_ok p" "p_state p = st" "cancel b st p = (p', acts)"
  shows "parser_ok p'"
  using assms by (auto simp: cancel_def parser_ok_def osc_ok_def check_sixel_def check_termcap_def split: if_splits)

lemma byte_step_ok:
  assumes ok: "parser_ok p" and step: "byte_step b p = (p', acts)"
  shows "parser_ok p'"
proof -
  consider (ground) "p_state p = Ground" | (utf8) read where "p_state p = Utf8 read"
    | (other) "byte_step b p =
        (if b = 0x18 \<or> b = 0x1a then cancel b (p_state p) p
         else if b = 0x1b then escape_ends (p_state p) (p\<lparr>p_state := Escape []\<rparr>)
         else (case inner_byte (p_state p) b p of
                 ((p', acts), returned) \<Rightarrow>
                   if \<not> returned \<and> p_state p' = Ground then (p', acts @ [Forget_Repeat]) else (p', acts)))"
    by (cases "p_state p") (auto simp: byte_step_def)
  then show ?thesis
  proof cases
    case ground
    then show ?thesis using ground_ok [OF ok ground] step by (simp add: byte_step_def)
  next
    case utf8
    then show ?thesis using continuation_ok [OF ok utf8] step by (simp add: byte_step_def)
  next
    case other
    obtain q acts' r where i: "inner_byte (p_state p) b p = ((q, acts'), r)" by (metis surj_pair)
    consider "cancel b (p_state p) p = (p', acts)" | "escape_ends (p_state p) (p\<lparr>p_state := Escape []\<rparr>) = (p', acts)" | "q = p'"
      using step other i by (auto split: if_splits)
    then show ?thesis
      by cases (use cancel_ok [OF ok refl] escape_ends_ok [OF ok refl] inner_byte_ok [OF ok refl i] in blast)+
  qed
qed

lemma escape_state:
  assumes "parser_ok p" "byte_step b p = (p', acts)"
  shows "(b = 0x1b \<longrightarrow> p_state p' = Escape [] \<and> \<not> p_sixel p' \<and> \<not> p_termcap p')
    \<and> (b = 0x18 \<or> b = 0x1a \<and> p_state p \<noteq> Sixel \<longrightarrow> p_state p' = Ground \<and> \<not> p_sixel p' \<and> \<not> p_termcap p')
    \<and> (b = 0x1a \<and> p_state p = Sixel \<longrightarrow> p' = p \<and> acts = [Sixel_Byte 0x3f])"
proof (cases "p_state p")
  case (Utf8 read)
  have off: "\<not> p_sixel p" "\<not> p_termcap p" using flags_off [OF assms(1)] Utf8 by auto
  obtain first rest n low high where r: "read = first # rest" "lead first = Some (n, low, high)"
    using assms(1) Utf8 by (auto simp: parser_ok_def partial_char_def split: list.splits option.splits)
  then have "0x80 \<le> low" by (auto simp: lead_def split: if_splits)
  then have "\<not> (low \<le> b)" if "b = 0x1b \<or> b = 0x18 \<or> b = 0x1a"
    using that unfolding word_le_nat_alt by auto
  then show ?thesis
    using assms(2) Utf8 r off by (auto simp: byte_step_def continuation_def first_byte_def ground_def Let_def split: if_splits)
qed (use assms in \<open>auto simp: byte_step_def ground_def cancel_def escape_ends_def dispatch_osc_def parser_ok_def
      check_sixel_def check_termcap_def split: if_splits\<close>)

lemma feed_ok: "parser_ok p \<Longrightarrow> parser_ok (fst (feed bs p))"
proof (induction bs arbitrary: p)
  case (Cons b bs)
  then show ?case using byte_step_ok [OF Cons.prems] by (auto split: prod.splits) (metis fst_conv)
qed simp


text \<open>
  C26: ESC, CAN and SUB end whatever the parser is in: an ESC always leaves it
  just past that ESC, and a CAN or a SUB in ground, but for a SUB in sixel
  data, which is a blank sixel there.
\<close>

theorem escape_resets:
  assumes "parser_ok p" "byte_step b p = (p', acts)"
  shows "(b = 0x1b \<longrightarrow> p_state p' = Escape [] \<and> \<not> p_sixel p' \<and> \<not> p_termcap p')
    \<and> (b = 0x18 \<or> b = 0x1a \<and> p_state p \<noteq> Sixel \<longrightarrow> p_state p' = Ground \<and> \<not> p_sixel p' \<and> \<not> p_termcap p')
    \<and> (b = 0x1a \<and> p_state p = Sixel \<longrightarrow> p' = p \<and> acts = [Sixel_Byte 0x3f])"
  using escape_state [OF assms] .

theorem escape_resets_witness:
  "p_state (fst (byte_step 0x1b ((parser_new options_new)\<lparr>p_state := Osc True\<rparr>))) = Escape []"
proof -
  have "parser_ok ((parser_new options_new)\<lparr>p_state := Osc True\<rparr>)"
    by (simp add: parser_ok_def parser_new_def params_ok_def params_default_def osc_ok_def check_sixel_def
      check_termcap_def SLOTS_def u16_max_def)
  then show ?thesis using escape_resets [OF _ surjective_pairing [of "byte_step _ _"]] by blast
qed

end
