(* ===== verification/Vt_Run.thy ===== *)
theory Vt_Run
  imports Vt_Check
begin

text \<open>
  The parser's loop over the bytes it is given (\<open>run_on\<close>, \<open>text\<close>, \<open>over\<close>,
  \<open>over_after\<close>, \<open>in_string\<close> and \<open>process_all\<close> of \<open>fux-vt/src/parser.rs\<close>),
  which takes runs of bytes at once where it can and may stop between two
  steps.  However it takes them, it reads what the transitions read a byte at
  a time.
\<close>

section \<open>What the loop asks of the screen and the budget\<close>

datatype stop = Begun | Ended | Budget

text \<open>
  The screen and the work counters are other components: a record of their
  answers, by the step of the loop that asks.  \<open>h_ascii\<close>: a run was stopped
  after that many bytes; \<open>h_text\<close>: how many characters are taken of those
  offered; \<open>h_framed\<close>: whether the sequence carried out began or ended a
  frame; \<open>h_stopped\<close>: printing found the budget spent; \<open>h_spent\<close>: the work
  spent has reached the budget.  Of a call as a whole: \<open>h_owed\<close>, the call
  before ended a frame past the budget; \<open>h_left\<close>, it left work over;
  \<open>h_resumed\<close>, carrying that out spent the budget again; \<open>h_refused\<close>, room
  was refused on the way.
\<close>

record host =
  h_ascii :: "nat \<Rightarrow> nat option"
  h_text :: "nat \<Rightarrow> nat"
  h_framed :: "nat \<Rightarrow> stop option"
  h_stopped :: "nat \<Rightarrow> bool"
  h_spent :: "nat \<Rightarrow> bool"
  h_owed :: bool
  h_left :: bool
  h_resumed :: bool
  h_refused :: bool

definition over :: "host \<Rightarrow> nat \<Rightarrow> stop option" where
  "over h n = (if h_spent h n then Some Budget else None)"

definition over_after :: "host \<Rightarrow> nat \<Rightarrow> bool \<Rightarrow> bool \<Rightarrow> parser \<Rightarrow> stop option" where
  "over_after h n sequence fed p =
     (if fed \<or> h_stopped h n \<or> sequence \<and> (p_state p = Ground \<or> p_state p = Sixel) then over h n else None)"

definition in_string :: "parser \<Rightarrow> bool" where
  "in_string p =
     (case p_state p of
        Dcs _ \<Rightarrow> True | IgnoreString \<Rightarrow> True | Sixel \<Rightarrow> True | Request _ \<Rightarrow> True | Osc _ \<Rightarrow> True | _ \<Rightarrow> False)"

text \<open>\<open>Parser::text\<close>, where the screen takes at most \<open>room\<close> characters.\<close>

definition text_run :: "nat \<Rightarrow> byte list \<Rightarrow> (nat list \<times> nat) option" where
  "text_run room bs = (case chars room bs of (cs, taken) \<Rightarrow> if 0 < taken then Some (cs, taken) else None)"

text \<open>Whether what was carried out is a sequence, whose stop is the screen's to tell.\<close>

definition sequence_stop :: "host \<Rightarrow> nat \<Rightarrow> action list \<Rightarrow> stop option" where
  "sequence_stop h n acts =
     (if list_ex (\<lambda>a. case a of Csi_Seq _ _ _ \<Rightarrow> True | Esc_Seq _ _ \<Rightarrow> True | _ \<Rightarrow> False) acts
      then h_framed h n else None)"

definition or_else :: "'a option \<Rightarrow> 'a option \<Rightarrow> 'a option" where
  "or_else a b = (case a of None \<Rightarrow> b | Some x \<Rightarrow> Some x)"

definition line_feed :: "byte \<Rightarrow> bool" where
  "line_feed b \<longleftrightarrow> 0x0a \<le> b \<and> b \<le> 0x0c"

section \<open>The loop\<close>

text \<open>One turn of it, of bytes that are not empty: the parser, the actions, the bytes left, the stop.\<close>

definition run_step :: "host \<Rightarrow> nat \<Rightarrow> byte list \<Rightarrow> parser \<Rightarrow> parser \<times> action list \<times> byte list \<times> stop option" where
  "run_step h n bs p =
     (let b = hd bs; more = tl bs; ground = (p_state p = Ground) in
      if ground \<and> printing b then
        (let len = printable bs; run = take len bs in
         case h_ascii h n of
           Some taken \<Rightarrow> (p, [Ascii (take taken run)], drop (min taken len) bs, Some Budget)
         | None \<Rightarrow> (p, [Ascii run], drop len bs, over h n))
      else if ground \<and> b < 0x20 \<and> b \<noteq> 0x1b then
        (if b = 0x0d \<and> get_at bs 1 = Some 0x0a
         then (p, [Line_End, Forget_Repeat], drop 2 bs, over_after h n False True p)
         else (p, control_acts p b @ [Forget_Repeat], more, over_after h n False (line_feed b) p))
      else
        (case (if ground \<and> 0x80 \<le> b then text_run (h_text h n) bs else None) of
           Some (cs, taken) \<Rightarrow> (p, [Text cs], drop taken bs, over h n)
         | None \<Rightarrow>
             if ground \<and> b = 0x1b \<and> get_at bs 1 = Some 0x5b then
               (case csi_sequence bs p of
                  ((p', acts), len) \<Rightarrow>
                    (p', Cancel_Shift # acts, drop len bs,
                     or_else (sequence_stop h n acts) (over_after h n True False p')))
             else
               (case string_more bs p of
                  Some (p', rest) \<Rightarrow> (p', [], rest, None)
                | None \<Rightarrow>
                    (case byte_step b p of
                       (p', acts) \<Rightarrow>
                         (p', acts, more,
                          or_else (sequence_stop h n acts)
                            (over_after h n True (line_feed b \<and> \<not> in_string p) p'))))))"

lemma csi_loop_forward: "csi_loop bs len v marker at p = (r, n) \<Longrightarrow> at \<le> n \<and> n \<le> at + length bs"
  by (induction bs len v marker at p arbitrary: r n rule: csi_loop.induct)
    (fastforce simp: Let_def split: if_splits option.splits)+

lemma csi_sequence_forward:
  "csi_sequence bs p = (r, n) \<Longrightarrow> 2 \<le> length bs \<Longrightarrow> 2 \<le> n \<and> n \<le> length bs"
  using csi_loop_forward [of "drop 2 bs"] unfolding csi_sequence_def by fastforce

lemma decode_length: "decode bs = Some (c, n) \<Longrightarrow> 0 < n \<and> n \<le> length bs"
  using decode_sound [of bs c n] by (auto simp: utf8_encode_def dest: arg_cong [of _ _ length])

lemma chars_length: "chars n bs = (cs, taken) \<Longrightarrow> taken \<le> length bs"
proof (induction n bs arbitrary: cs taken rule: chars.induct)
  case (2 n bs)
  then show ?case
    using decode_length [of bs]
    by (fastforce split: option.splits prod.splits)
qed simp

lemma printing_run: "printing (hd bs) \<Longrightarrow> bs \<noteq> [] \<Longrightarrow> 0 < printable bs \<and> printable bs \<le> length bs"
  using printable_takeWhile [of bs "hd bs" "tl bs"] length_takeWhile_le [of printing bs]
  by (cases bs) auto

lemma string_more_drops: "string_more bs p = Some (p', rest) \<Longrightarrow> \<exists>k. 0 < k \<and> rest = drop k bs"
  by (auto simp: string_more_def Let_def split: if_splits prod.splits)

text \<open>The ways a turn of the loop can go.\<close>

lemma run_step_cases:
  assumes "run_step h n bs p = (p', acts, rest, st)"
  obtains
    (ascii) k where "p_state p = Ground" "printing (hd bs)" "k \<le> printable bs" "p' = p" "acts = [Ascii (take k bs)]"
      "rest = drop k bs" "st = None \<Longrightarrow> k = printable bs"
  | (line) "p_state p = Ground" "hd bs = 0x0d" "get_at bs 1 = Some 0x0a" "p' = p" "acts = [Line_End, Forget_Repeat]"
      "rest = drop 2 bs"
  | (control) "p_state p = Ground" "hd bs < 0x20" "hd bs \<noteq> 0x1b" "p' = p" "acts = control_acts p (hd bs) @ [Forget_Repeat]"
      "rest = tl bs"
  | (chars) cs taken where "p_state p = Ground" "chars (h_text h n) bs = (cs, taken)" "0 < taken" "p' = p" "acts = [Text cs]"
      "rest = drop taken bs"
  | (csi) acts' len where "p_state p = Ground" "hd bs = 0x1b" "get_at bs 1 = Some 0x5b"
      "csi_sequence bs p = ((p', acts'), len)" "acts = Cancel_Shift # acts'" "rest = drop len bs"
  | (string) "string_more bs p = Some (p', rest)" "acts = []"
  | (byte) "byte_step (hd bs) p = (p', acts)" "rest = tl bs"
proof -
  let ?g = "p_state p = Ground" and ?b = "hd bs"
  let ?text = "if ?g \<and> 0x80 \<le> ?b then text_run (h_text h n) bs else None"
  consider (a) "?g \<and> printing ?b" | (c) "\<not> (?g \<and> printing ?b)" "?g \<and> ?b < 0x20 \<and> ?b \<noteq> 0x1b"
    | (t) x where "\<not> (?g \<and> printing ?b)" "\<not> (?g \<and> ?b < 0x20 \<and> ?b \<noteq> 0x1b)" "?text = Some x"
    | (e) "\<not> (?g \<and> printing ?b)" "\<not> (?g \<and> ?b < 0x20 \<and> ?b \<noteq> 0x1b)" "?text = None" "?g \<and> ?b = 0x1b \<and> get_at bs 1 = Some 0x5b"
    | (s) "\<not> (?g \<and> printing ?b)" "\<not> (?g \<and> ?b < 0x20 \<and> ?b \<noteq> 0x1b)" "?text = None" "\<not> (?g \<and> ?b = 0x1b \<and> get_at bs 1 = Some 0x5b)"
    by (cases ?text) blast+
  then show ?thesis
  proof cases
    case a
    show ?thesis
    proof (cases "h_ascii h n")
      case None
      then show ?thesis using a assms by (intro ascii [of "printable bs"]) (simp_all add: run_step_def Let_def)
    next
      case (Some taken)
      then show ?thesis
        using a assms by (intro ascii [of "min taken (printable bs)"]) (simp_all add: run_step_def Let_def)
    qed
  next
    case c
    then have r: "(if ?b = 0x0d \<and> get_at bs 1 = Some 0x0a
         then (p, [Line_End, Forget_Repeat], drop 2 bs, over_after h n False True p)
         else (p, control_acts p ?b @ [Forget_Repeat], tl bs, over_after h n False (line_feed ?b) p)) = (p', acts, rest, st)"
      using assms unfolding run_step_def Let_def by (simp only: if_True if_False simp_thms)
    show ?thesis using c r line control by (auto split: if_splits)
  next
    case t
    then have r: "(case x of (cs, taken) \<Rightarrow> (p, [Text cs], drop taken bs, over h n)) = (p', acts, rest, st)"
      using assms unfolding run_step_def Let_def by (simp only: if_False option.case)
    show ?thesis using t(3) r chars by (auto simp: text_run_def split: if_splits prod.splits)
  next
    case e
    then have r: "(case csi_sequence bs p of ((p', acts), len) \<Rightarrow>
          (p', Cancel_Shift # acts, drop len bs, or_else (sequence_stop h n acts) (over_after h n True False p'))) = (p', acts, rest, st)"
      using assms unfolding run_step_def Let_def by (simp only: if_False if_True option.case simp_thms)
    show ?thesis using e(4) r csi by (auto split: prod.splits)
  next
    case s
    then have r: "(case string_more bs p of
          Some (p', rest) \<Rightarrow> (p', [], rest, None)
        | None \<Rightarrow> (case byte_step ?b p of (p', acts) \<Rightarrow>
            (p', acts, tl bs, or_else (sequence_stop h n acts) (over_after h n True (line_feed ?b \<and> \<not> in_string p) p'))))
       = (p', acts, rest, st)"
      using assms unfolding run_step_def Let_def by (simp only: if_False option.case)
    show ?thesis using r string byte by (auto split: option.splits prod.splits)
  qed
qed

lemma get_at_Suc_length: "get_at xs i = Some x \<Longrightarrow> Suc i \<le> length xs"
  by (simp add: get_at_Some_iff)

lemma run_step_shorter:
  assumes "bs \<noteq> []" "run_step h n bs p = (p', acts, rest, None)"
  shows "length rest < length bs"
  using assms(2)
proof (cases rule: run_step_cases)
  case (csi acts' len)
  then show ?thesis using assms(1) csi_sequence_forward [OF csi(4)] get_at_Suc_length [OF csi(3)] by simp
next
  case string
  then show ?thesis using assms(1) string_more_drops by fastforce
qed (use assms(1) printing_run [of bs] in auto)

function run_loop :: "host \<Rightarrow> nat \<Rightarrow> byte list \<Rightarrow> parser \<Rightarrow> parser \<times> action list \<times> byte list \<times> stop option" where
  "run_loop h n bs p =
     (if bs = [] then (p, [], [], None)
      else (case run_step h n bs p of
              (p', acts, rest, Some s) \<Rightarrow> (p', acts, rest, Some s)
            | (p', acts, rest, None) \<Rightarrow>
                (case run_loop h (n + 1) rest p' of (p'', acts', rest', s) \<Rightarrow> (p'', acts @ acts', rest', s))))"
  by pat_completeness auto
termination
  by (relation "measure (\<lambda>(h, n, bs, p). length bs)") (auto dest: run_step_shorter [OF _ sym])

declare run_loop.simps [simp del]

text \<open>\<open>run_on\<close>: what it returns, and the bytes left.\<close>

datatype outcome = Stopped stop | Finished | Capacity

definition run_on :: "host \<Rightarrow> byte list \<Rightarrow> parser \<Rightarrow> parser \<times> action list \<times> byte list \<times> outcome" where
  "run_on h bs p =
     (if bs = [] \<and> \<not> h_left h then (p, [], bs, Finished)
      else if h_owed h then (p, [], bs, Stopped Budget)
      else if h_left h \<and> h_resumed h then (p, [], bs, Stopped Budget)
      else (case run_loop h 0 bs p of
              (p', acts, rest, Some s) \<Rightarrow> (p', acts, rest, Stopped s)
            | (p', acts, rest, None) \<Rightarrow> (p', acts, rest, if h_refused h then Capacity else Finished)))"

text \<open>\<open>process_all\<close>: its calls of \<open>run_on\<close> one after another, of at most \<open>fuel\<close>.\<close>

fun process_all :: "nat \<Rightarrow> (nat \<Rightarrow> host) \<Rightarrow> byte list \<Rightarrow> parser \<Rightarrow> (parser \<times> action list) option" where
  "process_all 0 hs bs p = None"
| "process_all (Suc fuel) hs bs p =
     (case run_on (hs 0) bs p of
        (p', acts, rest, Stopped _) \<Rightarrow>
          map_option (\<lambda>(p'', acts'). (p'', acts @ acts')) (process_all fuel (hs \<circ> Suc) rest p')
      | (p', acts, rest, _) \<Rightarrow> Some (p', acts))"

section \<open>What the actions come to\<close>

text \<open>Runs as the single actions they stand for, as the screen has them too.\<close>

fun expand_one :: "action \<Rightarrow> action list" where
  "expand_one (Ascii bs) = map (\<lambda>b. Print (unat b)) bs"
| "expand_one (Text cs) = map Print cs"
| "expand_one Line_End = [Control 0x0d, Forget_Repeat, Control 0x0a]"
| "expand_one a = [a]"

definition expand :: "action list \<Rightarrow> action list" where
  "expand acts = concat (map expand_one acts)"

lemma expand_simps [simp]: "expand [] = []" "expand (a # acts) = expand_one a @ expand acts" "expand (xs @ ys) = expand xs @ expand ys"
  by (simp_all add: expand_def)

fun plain :: "action \<Rightarrow> bool" where
  "plain (Ascii _) = False"
| "plain (Text _) = False"
| "plain Line_End = False"
| "plain _ = True"

lemma expand_plain: "list_all plain acts \<Longrightarrow> expand acts = acts"
proof (induction acts)
  case (Cons a acts)
  then show ?case by (cases a) simp_all
qed simp

lemma control_plain [simp]: "list_all plain (control_acts p b)"
  by (simp add: control_acts_def)

lemma ground_plain: "ground b p = (p', acts) \<Longrightarrow> list_all plain acts"
  by (auto simp: ground_def split: if_splits)

lemma continuation_plain: "continuation read b p = (p', acts) \<Longrightarrow> list_all plain acts"
  using ground_plain by (fastforce simp: continuation_def Let_def split: if_splits option.splits prod.splits)

lemma inner_plain: "inner_byte st b p = ((p', acts), r) \<Longrightarrow> list_all plain acts"
  by (cases st)
    (auto simp: inner_byte_def osc_byte_def dispatch_osc_def escape_byte_def dcs_string_def Let_def
      split: if_splits option.splits prod.splits next_phase.splits)

lemma byte_step_plain: "byte_step b p = (p', acts) \<Longrightarrow> list_all plain acts"
proof (cases "p_state p")
  case Ground
  then show "byte_step b p = (p', acts) \<Longrightarrow> list_all plain acts" using ground_plain by (simp add: byte_step_def)
next
  case (Utf8 read)
  then show "byte_step b p = (p', acts) \<Longrightarrow> list_all plain acts" using continuation_plain by (simp add: byte_step_def)
qed (auto simp: byte_step_def cancel_def escape_ends_def dispatch_osc_def split: if_splits prod.splits dest: inner_plain)

lemma feed_plain: "feed bs p = (p', acts) \<Longrightarrow> list_all plain acts"
  by (induction bs p arbitrary: p' acts rule: feed.induct) (auto split: prod.splits dest: byte_step_plain)

section \<open>Each turn reads what the transitions read\<close>

lemma feed_printing:
  "p_state p = Ground \<Longrightarrow> list_all printing bs \<Longrightarrow> feed bs p = (p, map (\<lambda>b. Print (unat b)) bs)"
proof (induction bs)
  case (Cons b bs)
  have "b \<noteq> 0x1b" "\<not> b \<le> 0x1f" "b \<noteq> 0x7f" "0x20 \<le> b" "b \<le> 0x7e"
    using Cons.prems(2) unfolding list.pred_inject(2) printing_def word_le_nat_alt word_unat_eq_iff by auto
  then have "byte_step b p = (p, [Print (unat b)])" using Cons.prems(1) by (simp add: byte_step_def ground_def)
  then show ?case using Cons by simp
qed simp

text \<open>A character's bytes after the first, one at a time.\<close>

lemma feed_tail:
  assumes "lead (hd read) = Some (n, low, high)" "p_state p = Utf8 read" "read \<noteq> []" "ys \<noteq> []"
    "length (read @ ys) = n" "tail_ok low high (tl read @ ys)" "decode (read @ ys) = Some (c, m)"
  shows "feed ys p = (p\<lparr>p_state := Ground\<rparr>, [Print c])"
  using assms
proof (induction ys arbitrary: read p)
  case (Cons b ys)
  obtain first rest where r: "read = first # rest" using Cons.prems(3) by (cases read) auto
  have n: "n \<le> 4" using Cons.prems(1) by (rule lead_four)
  have ok: "if rest = [] then low \<le> b \<and> b \<le> high else 0x80 \<le> b \<and> b \<le> 0xbf"
    using Cons.prems(6) tail_ok_prefix [of low high "rest @ [b]" ys] r by (simp add: tail_ok_snoc)
  show ?case
  proof (cases ys)
    case Nil
    then have "byte_step b p = (p\<lparr>p_state := Ground\<rparr>, [Print c])"
      using Cons.prems r n ok
      by (auto simp: byte_step_def continuation_def first_byte_def bytes_push_def Let_def)
    then show ?thesis using Nil by simp
  next
    case (Cons b' ys')
    then have "byte_step b p = (p\<lparr>p_state := Utf8 (read @ [b])\<rparr>, [])"
      using Cons.prems r n ok
      by (auto simp: byte_step_def continuation_def first_byte_def bytes_push_def Let_def)
    then show ?thesis
      using Cons.IH [of "read @ [b]" "p\<lparr>p_state := Utf8 (read @ [b])\<rparr>"] Cons.prems Cons r by simp
  qed
qed simp

lemma decode_rest_tail_ok: "decode_rest low high code bs = Some c \<Longrightarrow> tail_ok low high bs"
  by (induction low high code bs rule: decode_rest.induct) (auto split: if_splits)

lemma decode_feeds:
  assumes "p_state p = Ground" "decode bs = Some (c, n)"
  shows "feed (take n bs) p = (p, [Print c])"
proof -
  obtain first rest low high code where d: "bs = first # rest" "lead first = Some (n, low, high)" "n \<le> length bs"
      "decode_rest low high code (take (n - 1) rest) = Some c"
    using assms(2) unfolding decode_def char_from_def
    by (auto split: list.splits option.splits if_splits)
  have n: "2 \<le> n" using d(2) by (auto simp: lead_def split: if_splits)
  have t: "take n bs = first # take (n - 1) rest" using n d(1) by (simp add: take_Cons')
  have len: "length (take n bs) = n" using d(3) by simp
  have "decode (take n bs) = Some (c, n)"
    using decode_sound [OF assms(2)] decode_encode [of c "[]"] by (metis append_eq_conv_conj self_append_conv)
  then have "feed (take (n - 1) rest) (p\<lparr>p_state := Utf8 [first]\<rparr>) = (p\<lparr>p_state := Ground\<rparr>, [Print c])"
    using d n t len decode_rest_tail_ok [OF d(4)]
    by (subst feed_tail [of "[first]" n low high _ _ c n]) (auto simp: Suc_le_eq)
  moreover have "byte_step first p = (p\<lparr>p_state := Utf8 [first]\<rparr>, [])"
  proof -
    have "0xc2 \<le> first \<and> first \<le> 0xf4" using d(2) unfolding lead_def word_le_nat_alt word_unat_eq_iff
      by (auto split: if_splits)
    moreover from this have "first \<noteq> 0x1b \<and> \<not> first \<le> 0x1f \<and> first \<noteq> 0x7f \<and> \<not> first \<le> 0x7e"
      unfolding word_le_nat_alt word_unat_eq_iff by auto
    ultimately show ?thesis using assms(1) by (simp add: byte_step_def ground_def bytes_of_def bytes_push_def)
  qed
  moreover have "p\<lparr>p_state := Ground\<rparr> = p" using assms(1) by simp
  ultimately show ?thesis by (simp add: t)
qed

lemma chars_feed:
  "p_state p = Ground \<Longrightarrow> chars n bs = (cs, taken) \<Longrightarrow> feed (take taken bs) p = (p, map Print cs)"
proof (induction n bs arbitrary: cs taken rule: chars.induct)
  case (2 n bs)
  show ?case
  proof (cases "decode bs")
    case None
    then show ?thesis using "2.prems" by simp
  next
    case (Some cl)
    obtain c len where cl: "cl = (c, len)" by fastforce
    obtain cs' t where rec: "chars n (drop len bs) = (cs', t)" by fastforce
    have "feed (take t (drop len bs)) p = (p, map Print cs')"
      using "2.IH" [OF Some cl [symmetric]] "2.prems"(1) rec by blast
    moreover have "cs = c # cs'" "taken = len + t" using "2.prems"(2) Some cl rec by auto
    ultimately show ?thesis
      using decode_feeds [OF "2.prems"(1) Some [unfolded cl]] by (simp add: take_add feed_append)
  qed
qed simp

lemma csi_sequence_feeds:
  assumes "parser_ok p" "p_state p = Ground" "hd bs = 0x1b" "get_at bs 1 = Some 0x5b" "csi_sequence bs p = ((p', acts), n)"
  shows "feed (take n bs) p = (p', Cancel_Shift # acts)"
proof -
  obtain rest where bs: "bs = 0x1b # 0x5b # rest"
    using assms(3,4) by (cases bs; cases "tl bs") (auto simp: get_at_Some_iff)
  let ?ps = "params_clear (p_params p)" and ?q = "p\<lparr>p_params := params_clear (p_params p)\<rparr>"
  have len: "length (pvalues (p_params p)) = SLOTS" using assms(1) by (simp add: parser_ok_def params_ok_def)
  then have ps: "length (pvalues ?ps) = SLOTS" "\<not> pfull ?ps"
    by (simp_all add: params_clear_def set_slot_def)
  have "csi_loop rest 1 0 [] 2 ?q = ((p', acts), n)" using assms(5) bs by (simp add: csi_sequence_def)
  from csi_loop_feeds [OF _ _ _ _ _ _ _ this]
  have loop: "2 \<le> n \<and> feed (take (n - 2) rest) (csi_now 1 0 [] 2 ?q) = (p', acts)"
    using ps by (simp add: SLOTS_def given_ok_def)
  have now: "csi_now 1 0 [] 2 ?q = p\<lparr>p_params := ?ps, p_state := Csi Entry\<rparr>"
    by (simp add: csi_now_def given_now_def params_end_def params_clear_def set_slot_def)
  have "feed [0x1b, 0x5b] p = (p\<lparr>p_params := ?ps, p_state := Csi Entry\<rparr>, [Cancel_Shift])"
    using assms(2) by (simp add: byte_step_def ground_def inner_byte_def escape_byte_def word_le_nat_alt)
  moreover have "take n bs = [0x1b, 0x5b] @ take (n - 2) rest" using bs loop by (simp add: take_Cons' numeral_2_eq_2)
  ultimately show ?thesis using loop now by (simp only: feed_append prod.case) simp
qed

lemma run_step_feeds:
  assumes "parser_ok p" "bs \<noteq> []" "run_step h n bs p = (p', acts, rest, st)"
  shows "\<exists>k \<le> length bs. rest = drop k bs \<and> feed (take k bs) p = (p', expand acts)"
  using assms(3)
proof (cases rule: run_step_cases)
  case (ascii k)
  note pr = printable_takeWhile [of bs "hd bs" "tl bs"]
  have "printable bs = length (takeWhile printing bs)" using pr ascii(2) assms(2) by simp
  then have k: "take k bs = take k (takeWhile printing bs)" using ascii(3)
    by (metis min.absorb2 min.commute take_take takeWhile_eq_take)
  have "list_all printing (take k bs)"
    unfolding k using set_takeWhileD set_take_subset by (fastforce simp: list_all_iff)
  then have "feed (take k bs) p = (p, map (\<lambda>b. Print (unat b)) (take k bs))" by (rule feed_printing [OF ascii(1)])
  moreover have "k \<le> length bs" using ascii(2,3) assms(2) printing_run [of bs] by simp
  ultimately show ?thesis using ascii(4-6) by auto
next
  case line
  obtain r where bs: "bs = 0x0d # 0x0a # r"
    using line(2,3) assms(2) by (cases bs; cases "tl bs") (auto simp: get_at_Some_iff)
  have "feed [0x0d, 0x0a] p = (p, [Control 0x0d, Forget_Repeat, Control 0x0a, Forget_Repeat])"
    using line(1) by (simp add: byte_step_def ground_def control_acts_def word_le_nat_alt)
  then show ?thesis using line bs by (intro exI [of _ 2]) (simp add: numeral_2_eq_2)
next
  case control
  have le: "hd bs \<le> 0x1f" using control(2) unfolding word_le_nat_alt word_less_nat_alt by simp
  then have "byte_step (hd bs) p = (p, control_acts p (hd bs) @ [Forget_Repeat])"
    using control(1,3) by (simp add: byte_step_def ground_def)
  then show ?thesis
    using control(4-6) assms(2) by (cases bs) (auto simp: expand_plain intro!: exI [of _ 1])
next
  case (chars cs taken)
  then show ?thesis using chars_feed [OF chars(1,2)] chars_length [OF chars(2)] by auto
next
  case (csi acts' len)
  have f: "feed (take len bs) p = (p', Cancel_Shift # acts')" by (rule csi_sequence_feeds [OF assms(1) csi(1-4)])
  have "expand (Cancel_Shift # acts') = Cancel_Shift # acts'" by (rule expand_plain [OF feed_plain [OF f]])
  moreover have "len \<le> length bs" using csi_sequence_forward [OF csi(4)] get_at_Suc_length [OF csi(3)] by simp
  ultimately show ?thesis using f csi(5,6) by auto
next
  case string
  then show ?thesis using assms(1) string_more_feeds [OF _ string(1)] by (auto simp: parser_ok_def)
next
  case byte
  then show ?thesis
    using assms(2) expand_plain [OF byte_step_plain [OF byte(1)]] by (cases bs) (auto intro!: exI [of _ 1])
qed

section \<open>The loop as a whole\<close>

lemma drop_take_feed:
  assumes "feed (take k bs) p = (q, a)" "feed (take j (drop k bs)) q = (r, c)"
  shows "feed (take (k + j) bs) p = (r, a @ c)"
  using assms by (simp add: take_add feed_append)

lemma run_loop_feeds:
  "parser_ok p \<Longrightarrow> run_loop h n bs p = (p', acts, rest, st) \<Longrightarrow>
   \<exists>k \<le> length bs. rest = drop k bs \<and> feed (take k bs) p = (p', expand acts) \<and> (st = None \<longrightarrow> rest = [])"
proof (induction h n bs p arbitrary: p' acts rest st rule: run_loop.induct)
  case (1 h n bs p)
  show ?case
  proof (cases "bs = []")
    case True
    then show ?thesis using "1.prems"(2) by (simp add: run_loop.simps [of h n "[]"])
  next
    case False
    obtain q a r s where step: "run_step h n bs p = (q, a, r, s)" by (metis surj_pair)
    obtain k where k: "k \<le> length bs" "r = drop k bs" "feed (take k bs) p = (q, expand a)"
      using run_step_feeds [OF "1.prems"(1) False step] by auto
    show ?thesis
    proof (cases s)
      case (Some stop)
      then show ?thesis using "1.prems"(2) False step k by (auto simp: run_loop.simps [of h n bs])
    next
      case None
      obtain q' a' r' s' where loop: "run_loop h (n + 1) r q = (q', a', r', s')" by (metis surj_pair)
      have ok: "parser_ok q" using feed_ok [OF "1.prems"(1), of "take k bs"] k(3) by simp
      obtain j where j: "j \<le> length r" "r' = drop j r" "feed (take j r) q = (q', expand a')" "s' = None \<longrightarrow> r' = []"
        using "1.IH" [OF False step [symmetric] refl refl None ok loop] by auto
      have e: "p' = q'" "acts = a @ a'" "rest = r'" "st = s'"
        using "1.prems"(2) False step None loop by (auto simp: run_loop.simps [of h n bs])
      have "feed (take (k + j) bs) p = (q', expand a @ expand a')"
        using drop_take_feed [OF k(3)] j(3) k(2) by simp
      then show ?thesis using e j k by (intro exI [of _ "k + j"]) (auto simp: add.commute)
    qed
  qed
qed

lemma run_on_feeds:
  assumes "parser_ok p" "run_on h bs p = (p', acts, rest, res)"
  shows "\<exists>k \<le> length bs. rest = drop k bs \<and> feed (take k bs) p = (p', expand acts)
    \<and> ((\<exists>s. res = Stopped s) \<or> rest = [])"
proof -
  obtain q a r s where loop: "run_loop h 0 bs p = (q, a, r, s)" by (metis surj_pair)
  obtain k where k: "k \<le> length bs" "r = drop k bs" "feed (take k bs) p = (q, expand a)" "s = None \<longrightarrow> r = []"
    using run_loop_feeds [OF assms(1) loop] by auto
  show ?thesis
    using assms(2) loop k by (auto simp: run_on_def split: if_splits option.splits intro: exI [of _ 0])
qed

text \<open>A call that is not held up before any byte takes one, if it is given one.\<close>

definition lively :: "host \<Rightarrow> bool" where
  "lively h \<longleftrightarrow> \<not> h_owed h \<and> \<not> (h_left h \<and> h_resumed h) \<and> (\<forall>n. h_ascii h n \<noteq> Some 0)"

lemma run_step_lively:
  assumes "bs \<noteq> []" "h_ascii h n \<noteq> Some 0" "run_step h n bs p = (p', acts, rest, st)"
  shows "length rest < length bs"
  using assms(3)
proof (cases rule: run_step_cases)
  case (csi acts' len)
  then show ?thesis using assms(1) csi_sequence_forward [OF csi(4)] get_at_Suc_length [OF csi(3)] by simp
next
  case string
  then show ?thesis using assms(1) string_more_drops by fastforce
next
  case (ascii k)
  have "rest = drop (case h_ascii h n of Some t \<Rightarrow> min t (printable bs) | None \<Rightarrow> printable bs) bs"
    using assms(3) ascii(1,2) by (auto simp: run_step_def Let_def split: option.splits)
  then show ?thesis using assms(1,2) printing_run [OF ascii(2) assms(1)] by (auto split: option.splits)
qed (use assms(1) in auto)

lemma run_loop_lively:
  assumes "parser_ok p" "bs \<noteq> []" "\<forall>n. h_ascii h n \<noteq> Some 0" "run_loop h n bs p = (p', acts, rest, st)"
  shows "length rest < length bs"
proof -
  obtain q a r s where step: "run_step h n bs p = (q, a, r, s)" by (metis surj_pair)
  have less: "length r < length bs" using run_step_lively [OF assms(2) _ step] assms(3) by simp
  show ?thesis
  proof (cases s)
    case (Some stop)
    then show ?thesis using assms(2,4) step less by (simp add: run_loop.simps [of h n bs])
  next
    case None
    obtain q' a' r' s' where loop: "run_loop h (n + 1) r q = (q', a', r', s')" by (metis surj_pair)
    have "parser_ok q"
      using run_step_feeds [OF assms(1,2) step] feed_ok [OF assms(1)] by (metis fst_conv)
    then have "length r' \<le> length r" using run_loop_feeds [OF _ loop] by fastforce
    then show ?thesis using assms(2,4) step less None loop by (simp add: run_loop.simps [of h n bs])
  qed
qed

lemma run_on_lively:
  assumes "parser_ok p" "lively h" "run_on h bs p = (p', acts, rest, Stopped s)"
  shows "length rest < length bs"
proof -
  obtain q a r st where loop: "run_loop h 0 bs p = (q, a, r, st)" by (metis surj_pair)
  have "bs \<noteq> []" using assms(2,3) by (auto simp: run_on_def lively_def run_loop.simps [of h 0 "[]"] split: if_splits)
  then show ?thesis
    using assms(2,3) loop run_loop_lively [OF assms(1) _ _ loop]
    by (auto simp: run_on_def lively_def split: option.splits if_splits)
qed

lemma process_all_total:
  "parser_ok p \<Longrightarrow> lively (hs d) \<Longrightarrow> \<forall>i. \<exists>j < gap. lively (hs (i + j)) \<Longrightarrow> gap * length bs + d < fuel \<Longrightarrow>
   \<exists>p' acts. process_all fuel hs bs p = Some (p', acts) \<and> feed bs p = (p', expand acts)"
proof (induction fuel arbitrary: d hs bs p)
  case (Suc fuel)
  obtain q a r res where run: "run_on (hs 0) bs p = (q, a, r, res)" by (metis surj_pair)
  obtain k where k: "k \<le> length bs" "r = drop k bs" "feed (take k bs) p = (q, expand a)" "(\<exists>s. res = Stopped s) \<or> r = []"
    using run_on_feeds [OF Suc.prems(1) run] by auto
  have ok: "parser_ok q" using feed_ok [OF Suc.prems(1), of "take k bs"] k(3) by simp
  show ?case
  proof (cases "\<exists>s. res = Stopped s")
    case False
    then have "process_all (Suc fuel) hs bs p = Some (q, a)" using run by (cases res) auto
    moreover have "take k bs = bs" using k(2,4) False by simp
    ultimately show ?thesis using k(3) by auto
  next
    case True
    then obtain s where s: "res = Stopped s" by blast
    have gap: "\<forall>i. \<exists>j < gap. lively ((hs \<circ> Suc) (i + j))"
      using Suc.prems(3) by (metis add_Suc comp_apply)
    have "\<exists>d'. lively ((hs \<circ> Suc) d') \<and> gap * length r + d' < fuel"
    proof (cases d)
      case 0
      obtain d' where d': "d' < gap" "lively ((hs \<circ> Suc) d')" using gap by (metis add_0)
      have "length r < length bs" using run_on_lively [OF Suc.prems(1) _ run [unfolded s]] Suc.prems(2) 0 by simp
      then have "gap * Suc (length r) \<le> gap * length bs" by (intro mult_le_mono2) simp
      then show ?thesis using d' Suc.prems(4) by (intro exI [of _ d']) auto
    next
      case (Suc e)
      have "gap * length r \<le> gap * length bs" using k(2) by (intro mult_le_mono2) simp
      then have "gap * length r + e < fuel" using Suc.prems(4) Suc by linarith
      then show ?thesis using Suc.prems(2) Suc by auto
    qed
    then obtain d' where "lively ((hs \<circ> Suc) d')" "gap * length r + d' < fuel" by blast
    from Suc.IH [OF ok this(1) gap this(2)]
    obtain p' a' where rec: "process_all fuel (hs \<circ> Suc) r q = Some (p', a')" "feed r q = (p', expand a')" by blast
    have "feed bs p = (p', expand a @ expand a')"
      using drop_take_feed [OF k(3), of "length r" p' "expand a'"] rec(2) k(1,2) by simp
    then show ?thesis using run s rec(1) by simp
  qed
qed simp

section \<open>Properties\<close>

text \<open>
  C3: The parser's loop, in any state it keeps and whatever the screen and the
  budget answer, has read the bytes before those it leaves exactly as the
  transitions read them one at a time: the same state after them, and the same
  actions in the same order (a run of characters as each of them printed, CR LF
  as the two); and it leaves none but at a stop.
\<close>

theorem run_on_reads:
  assumes "parser_ok p" "run_on h bs p = (p', acts, rest, res)"
  shows "\<exists>k \<le> length bs. rest = drop k bs \<and> feed (take k bs) p = (p', expand acts)
    \<and> ((\<exists>s. res = Stopped s) \<or> rest = [])"
  using run_on_feeds [OF assms] .

text \<open>
  C10: \<open>process_all\<close> returns with every byte read as the transitions read it,
  however the loop stops on the way, if among any so many calls in a row one
  is not held up before its first byte (its budget spent by what the last call
  left): that many calls a byte, and as many more, are enough.
\<close>

theorem process_all_reads:
  assumes "parser_ok p" "\<forall>i. \<exists>j < gap. lively (hs (i + j))" "gap * (length bs + 1) \<le> fuel"
  shows "\<exists>p' acts. process_all fuel hs bs p = Some (p', acts) \<and> feed bs p = (p', expand acts)"
proof -
  obtain d where "d < gap" "lively (hs d)" using assms(2) by (metis add_0)
  then show ?thesis using process_all_total [OF assms(1) _ assms(2), of d bs fuel] assms(3) by simp
qed

text \<open>A host that stops each run of printable bytes after one of them, every other call before any.\<close>

definition short_host :: "nat \<Rightarrow> host" where
  "short_host i =
     \<lparr>h_ascii = (\<lambda>_. Some 1), h_text = (\<lambda>_. 1), h_framed = (\<lambda>_. None), h_stopped = (\<lambda>_. False),
      h_spent = (\<lambda>_. False), h_owed = odd i, h_left = False, h_resumed = False, h_refused = False\<rparr>"

theorem run_on_reads_witness:
  "\<exists>k \<le> 2. [0x42] = drop k [0x41, 0x42 :: byte]
     \<and> feed (take k [0x41, 0x42]) (parser_new options_new) = (parser_new options_new, expand [Ascii [0x41]])"
proof -
  have p: "p_state (parser_new options_new) = Ground" by (simp add: parser_new_def)
  have pr: "printable [0x41, 0x42] = 2" by code_simp
  have "run_on (short_host 0) [0x41, 0x42] (parser_new options_new)
      = (parser_new options_new, [Ascii [0x41]], [0x42], Stopped Budget)"
    using p pr by (simp add: run_on_def run_loop.simps [of _ 0 "[_, _]"] run_step_def Let_def short_host_def
        printing_def word_le_nat_alt)
  from run_on_reads [OF parser_ok_new this] show ?thesis by (simp add: numeral_2_eq_2)
qed

theorem process_all_reads_witness:
  "\<exists>p' acts. process_all 6 short_host [0x41, 0x42] (parser_new options_new) = Some (p', acts)
     \<and> feed [0x41, 0x42] (parser_new options_new) = (p', expand acts)"
proof (rule process_all_reads [OF parser_ok_new])
  show "\<forall>i. \<exists>j < 2. lively (short_host (i + j))"
  proof
    fix i
    show "\<exists>j < 2. lively (short_host (i + j))"
      by (rule exI [of _ "i mod 2"]) (auto simp: lively_def short_host_def)
  qed
qed simp

end
