(* ===== verification/Vt_Mode.thy ===== *)
theory Vt_Mode
  imports Vt_Parser
begin

text \<open>
  The modes a program sets and resets by number (\<open>fux-vt/src/mode.rs\<close>): the
  table, one row a mode in the code's order, what it expands to, and the set
  of modes as the bits of a 64-bit word.
\<close>

section \<open>The table\<close>

datatype mouse_protocol = Mouse_None | Mouse_Press | Mouse_PressRelease | Mouse_Highlight | Mouse_ButtonMotion | Mouse_AnyMotion

datatype mouse_encoding = Enc_Default | Enc_Utf8 | Enc_Sgr | Enc_Urxvt

datatype switch = Switch_Plain | Switch_ClearedOnLeaving | Switch_SavingCursor

datatype mode_kind =
    K_Flag | K_Margins | K_Frame | K_SizeReport | K_Origin | K_CursorBlink
  | K_Screen switch
  | K_SaveCursor
  | K_Permanent bool
  | K_Mouse mouse_protocol
  | K_Encoding mouse_encoding

datatype mode =
    M_Insert | M_NewLine | M_ApplicationCursor | M_SmoothScroll
  | M_ReverseVideo | M_Origin | M_Autowrap | M_AutoRepeat
  | M_MousePress | M_CursorBlink | M_ShowCursor | M_MoreFix
  | M_ReverseWrap | M_AlternateScreen | M_HorizontalCursorCoupling | M_ApplicationKeypad
  | M_BackarrowSendsBackspace | M_LeftRightMargins | M_SixelDisplay | M_MousePressRelease
  | M_MouseHighlight | M_MouseButtonMotion | M_MouseAnyMotion | M_FocusReporting
  | M_MouseUtf8 | M_MouseSgr | M_AlternateScroll | M_MouseUrxvt
  | M_MouseSgrPixels | M_ExtendedReverseWrap | M_AlternateScreenCleared | M_SaveCursor
  | M_AlternateScreenSaveCursor | M_BracketedPaste | M_SynchronizedOutput | M_ColorSchemeUpdates
  | M_InBandResize | M_GraphemeClustering

text \<open>A row: its number, private or not, the feature it needs, its marks, where it is kept.\<close>

record mode_entry =
  row_private :: bool
  row_number :: nat
  row_feature :: "feature option"
  row_default :: bool
  row_soft :: bool
  row_kind :: mode_kind

definition row :: "bool \<Rightarrow> nat \<Rightarrow> feature option \<Rightarrow> bool \<Rightarrow> bool \<Rightarrow> mode_kind \<Rightarrow> mode_entry" where
  "row private n feature is_default soft k =
     \<lparr>row_private = private, row_number = n, row_feature = feature, row_default = is_default, row_soft = soft, row_kind = k\<rparr>"

fun mode_row :: "mode \<Rightarrow> mode_entry" where
  "mode_row M_Insert = row False 4 None False True K_Flag"
| "mode_row M_NewLine = row False 20 None False False K_Flag"
| "mode_row M_ApplicationCursor = row True 1 None False True K_Flag"
| "mode_row M_SmoothScroll = row True 4 None False False K_Flag"
| "mode_row M_ReverseVideo = row True 5 None False False K_Flag"
| "mode_row M_Origin = row True 6 None False False (K_Origin)"
| "mode_row M_Autowrap = row True 7 None True True K_Flag"
| "mode_row M_AutoRepeat = row True 8 None False False (K_Permanent False)"
| "mode_row M_MousePress = row True 9 None False False (K_Mouse Mouse_Press)"
| "mode_row M_CursorBlink = row True 12 None False False (K_CursorBlink)"
| "mode_row M_ShowCursor = row True 25 None True True K_Flag"
| "mode_row M_MoreFix = row True 41 None False False K_Flag"
| "mode_row M_ReverseWrap = row True 45 None False True K_Flag"
| "mode_row M_AlternateScreen = row True 47 None False False (K_Screen Switch_Plain)"
| "mode_row M_HorizontalCursorCoupling = row True 60 None False False (K_Permanent False)"
| "mode_row M_ApplicationKeypad = row True 66 None False True K_Flag"
| "mode_row M_BackarrowSendsBackspace = row True 67 None False False K_Flag"
| "mode_row M_LeftRightMargins = row True 69 None False True (K_Margins)"
| "mode_row M_SixelDisplay = row True 80 None False False K_Flag"
| "mode_row M_MousePressRelease = row True 1000 None False False (K_Mouse Mouse_PressRelease)"
| "mode_row M_MouseHighlight = row True 1001 None False False (K_Mouse Mouse_Highlight)"
| "mode_row M_MouseButtonMotion = row True 1002 None False False (K_Mouse Mouse_ButtonMotion)"
| "mode_row M_MouseAnyMotion = row True 1003 None False False (K_Mouse Mouse_AnyMotion)"
| "mode_row M_FocusReporting = row True 1004 None False False K_Flag"
| "mode_row M_MouseUtf8 = row True 1005 None False False (K_Encoding Enc_Utf8)"
| "mode_row M_MouseSgr = row True 1006 None False False (K_Encoding Enc_Sgr)"
| "mode_row M_AlternateScroll = row True 1007 None False False K_Flag"
| "mode_row M_MouseUrxvt = row True 1015 None False False (K_Encoding Enc_Urxvt)"
| "mode_row M_MouseSgrPixels = row True 1016 None False False (K_Permanent False)"
| "mode_row M_ExtendedReverseWrap = row True 1045 None False True K_Flag"
| "mode_row M_AlternateScreenCleared = row True 1047 None False False (K_Screen Switch_ClearedOnLeaving)"
| "mode_row M_SaveCursor = row True 1048 None False False (K_SaveCursor)"
| "mode_row M_AlternateScreenSaveCursor = row True 1049 None False False (K_Screen Switch_SavingCursor)"
| "mode_row M_BracketedPaste = row True 2004 None False False K_Flag"
| "mode_row M_SynchronizedOutput = row True 2026 None False True (K_Frame)"
| "mode_row M_ColorSchemeUpdates = row True 2031 (Some ColorSchemeUpdates) False False K_Flag"
| "mode_row M_InBandResize = row True 2048 (Some InBandResize) False False (K_SizeReport)"
| "mode_row M_GraphemeClustering = row True 2027 None False False (K_Permanent True)"

text \<open>\<open>Mode::ALL\<close>.\<close>

definition mode_all :: "mode list" where
  "mode_all =
    [M_Insert, M_NewLine, M_ApplicationCursor, M_SmoothScroll,
     M_ReverseVideo, M_Origin, M_Autowrap, M_AutoRepeat,
     M_MousePress, M_CursorBlink, M_ShowCursor, M_MoreFix,
     M_ReverseWrap, M_AlternateScreen, M_HorizontalCursorCoupling, M_ApplicationKeypad,
     M_BackarrowSendsBackspace, M_LeftRightMargins, M_SixelDisplay, M_MousePressRelease,
     M_MouseHighlight, M_MouseButtonMotion, M_MouseAnyMotion, M_FocusReporting,
     M_MouseUtf8, M_MouseSgr, M_AlternateScroll, M_MouseUrxvt,
     M_MouseSgrPixels, M_ExtendedReverseWrap, M_AlternateScreenCleared, M_SaveCursor,
     M_AlternateScreenSaveCursor, M_BracketedPaste, M_SynchronizedOutput, M_ColorSchemeUpdates,
     M_InBandResize, M_GraphemeClustering]"

definition mode_number :: "mode \<Rightarrow> bool \<times> nat" where
  "mode_number m = (row_private (mode_row m), row_number (mode_row m))"

definition kind :: "mode \<Rightarrow> mode_kind" where
  "kind m = row_kind (mode_row m)"

text \<open>\<open>Mode::of\<close>: its match takes the first row of the number.\<close>

definition mode_of :: "nat \<Rightarrow> bool \<Rightarrow> options \<Rightarrow> mode option" where
  "mode_of n private opts =
     (case List.find (\<lambda>m. mode_number m = (private, n)) mode_all of
        None \<Rightarrow> None
      | Some m \<Rightarrow>
          (case row_feature (mode_row m) of
             None \<Rightarrow> Some m
           | Some f \<Rightarrow> if has opts f then Some m else None))"

definition RESET_FOR_GOOD :: "nat list" where
  "RESET_FOR_GOOD = [1, 2, 3, 5, 6, 7, 8, 9, 10, 11, 13, 14, 15, 16, 17, 18, 19]"

definition SET_FOR_GOOD :: "nat list" where
  "SET_FOR_GOOD = [12, 21, 22]"

datatype mode_status = NotRecognized | Is_Set | Is_Reset | PermanentlySet | PermanentlyReset

fun status_number :: "mode_status \<Rightarrow> nat" where
  "status_number NotRecognized = 0"
| "status_number Is_Set = 1"
| "status_number Is_Reset = 2"
| "status_number PermanentlySet = 3"
| "status_number PermanentlyReset = 4"

definition fixed :: "mode \<Rightarrow> mode_status option" where
  "fixed m =
     (case kind m of
        K_SaveCursor \<Rightarrow> Some NotRecognized
      | K_Permanent True \<Rightarrow> Some PermanentlySet
      | K_Permanent False \<Rightarrow> Some PermanentlyReset
      | _ \<Rightarrow> None)"

section \<open>Sets of modes\<close>

type_synonym modes = "64 word"

text \<open>\<open>mode as u32\<close>, its place in the table, and its bit.\<close>

definition mode_index :: "mode \<Rightarrow> nat" where
  "mode_index m = (case position (\<lambda>k. k = m) mode_all of Some i \<Rightarrow> i | None \<Rightarrow> 0)"

definition mode_bit :: "mode \<Rightarrow> modes" where
  "mode_bit m = push_bit (mode_index m mod 64) 1"

definition modes_contains :: "modes \<Rightarrow> mode \<Rightarrow> bool" where
  "modes_contains ms m = (ms AND mode_bit m \<noteq> 0)"

definition modes_set :: "mode \<Rightarrow> bool \<Rightarrow> modes \<Rightarrow> modes" where
  "modes_set m on ms = (ms AND NOT (mode_bit m)) OR (if on then mode_bit m else 0)"

definition DEFAULT :: modes where
  "DEFAULT = foldl (\<lambda>ms m. if row_default (mode_row m) then ms OR mode_bit m else ms) 0 mode_all"

definition SOFT_RESET :: modes where
  "SOFT_RESET = foldl (\<lambda>ms m. if row_soft (mode_row m) then ms OR mode_bit m else ms) 0 mode_all"

definition modes_reset :: "modes \<Rightarrow> modes \<Rightarrow> modes" where
  "modes_reset which ms = (ms AND NOT which) OR (DEFAULT AND which)"

section \<open>Laws\<close>

lemma in_mode_all [simp]: "m \<in> set mode_all"
  by (cases m) (simp_all add: mode_all_def)

lemma numbers_distinct: "distinct (map mode_number mode_all)"
  by (simp add: mode_all_def mode_number_def row_def)

lemma mode_number_inject: "mode_number m = mode_number k \<longleftrightarrow> m = k"
proof -
  have "inj_on mode_number (set mode_all)" using numbers_distinct by (simp only: distinct_map)
  then show ?thesis by (meson in_mode_all inj_on_eq_iff)
qed

lemma find_number: "List.find (\<lambda>m. mode_number m = pn) mode_all = Some m \<longleftrightarrow> mode_number m = pn"
proof
  assume m: "mode_number m = pn"
  then have "List.find (\<lambda>m. mode_number m = pn) mode_all \<noteq> None"
    using in_mode_all [of m] by (simp only: find_None_iff) blast
  then obtain k where k: "List.find (\<lambda>m. mode_number m = pn) mode_all = Some k" by blast
  then have "mode_number k = pn" by (auto simp: find_Some_iff)
  then have "k = m" using m mode_number_inject by metis
  then show "List.find (\<lambda>m. mode_number m = pn) mode_all = Some m" using k by simp
qed (auto simp: find_Some_iff)

lemma mode_of_some:
  "mode_of n private opts = Some m \<longleftrightarrow>
   mode_number m = (private, n) \<and> (\<forall>f. row_feature (mode_row m) = Some f \<longrightarrow> has opts f)"
proof (cases "List.find (\<lambda>m. mode_number m = (private, n)) mode_all")
  case None
  then have "mode_number m \<noteq> (private, n)" using find_number [of "(private, n)" m] by simp
  then show ?thesis by (simp add: mode_of_def None)
next
  case (Some k)
  then have "mode_number k = (private, n)" by (simp only: find_number)
  then have "mode_number m = (private, n) \<longleftrightarrow> k = m" using mode_number_inject by metis
  then show ?thesis by (auto simp add: mode_of_def Some split: option.splits)
qed

lemma mode_index_nth: "mode_index m < 38 \<and> mode_all ! mode_index m = m"
proof (cases "position (\<lambda>k. k = m) mode_all")
  case None
  then show ?thesis using position_None_iff [of "\<lambda>k. k = m" mode_all] in_mode_all [of m] by auto
next
  case (Some i)
  then have "i < length mode_all \<and> mode_all ! i = m" using position_Some [of "\<lambda>k. k = m" mode_all i] by auto
  then show ?thesis using Some by (simp add: mode_index_def mode_all_def)
qed

lemma mode_index_inject: "mode_index m = mode_index k \<longleftrightarrow> m = k"
  using mode_index_nth by metis

lemma mode_bit_bit: "bit (mode_bit m) i \<longleftrightarrow> i = mode_index m"
proof -
  have "mode_index m mod 64 = mode_index m" "mode_index m < 64" using mode_index_nth [of m] by simp_all
  then show ?thesis by (auto simp add: mode_bit_def bit_exp_iff)
qed

lemma modes_contains_bit: "modes_contains ms m = bit ms (mode_index m)"
proof -
  have "ms AND mode_bit m = 0" if "\<not> bit ms (mode_index m)"
    using that by (intro bit_eqI) (auto simp: bit_and_iff mode_bit_bit)
  moreover have "bit (ms AND mode_bit m) (mode_index m)" if "bit ms (mode_index m)"
    using that by (simp add: bit_and_iff mode_bit_bit)
  ultimately show ?thesis unfolding modes_contains_def by (metis bit_0_eq bot_apply bot_bool_def)
qed

lemma modes_set_contains: "modes_contains (modes_set m on ms) k = (if k = m then on else modes_contains ms k)"
proof -
  have len: "mode_index k < LENGTH(64)" using mode_index_nth [of k] by simp
  show ?thesis
    using mode_index_inject [of k m] len
    by (auto simp: modes_contains_bit modes_set_def bit_simps mode_bit_bit)
qed

lemma modes_reset_contains:
  "modes_contains (modes_reset which ms) k = (if modes_contains which k then modes_contains DEFAULT k else modes_contains ms k)"
proof -
  have "mode_index k < LENGTH(64)" using mode_index_nth [of k] by simp
  then show ?thesis by (auto simp: modes_contains_bit modes_reset_def bit_simps)
qed

lemma marked_contains:
  "modes_contains (foldl (\<lambda>ms m. if q m then ms OR mode_bit m else ms) ms0 xs) k
   \<longleftrightarrow> modes_contains ms0 k \<or> k \<in> set xs \<and> q k"
proof (induction xs arbitrary: ms0)
  case (Cons x xs)
  have "mode_index k < LENGTH(64)" using mode_index_nth [of k] by simp
  then have "modes_contains (ms0 OR mode_bit x) k \<longleftrightarrow> modes_contains ms0 k \<or> k = x"
    using mode_index_inject [of k x] by (auto simp: modes_contains_bit bit_simps mode_bit_bit)
  then show ?case using Cons by auto
qed simp

lemma DEFAULT_contains: "modes_contains DEFAULT k = row_default (mode_row k)"
  by (simp add: DEFAULT_def marked_contains) (simp add: modes_contains_def)

lemma SOFT_RESET_contains: "modes_contains SOFT_RESET k = row_soft (mode_row k)"
  by (simp add: SOFT_RESET_def marked_contains) (simp add: modes_contains_def)

text \<open>
  A number names the mode whose number it is, if the options have the
  feature that mode needs, and no other: a mode is found by its own number and
  no two share one.
\<close>

lemma mode_of_finds:
  "mode_of n private opts = Some m \<longleftrightarrow>
   mode_number m = (private, n) \<and> (case row_feature (mode_row m) of None \<Rightarrow> True | Some f \<Rightarrow> has opts f)"
  by (auto simp: mode_of_some split: option.splits)

text \<open>
  The word of bits is a set of modes: setting or resetting one changes
  that one alone, and a reset of some puts exactly those back as they are by
  default, which is the rows marked so.
\<close>

lemma modes_are_a_set:
  "modes_contains (modes_set m on ms) k = (if k = m then on else modes_contains ms k)
   \<and> modes_contains (modes_reset SOFT_RESET ms) k
     = (if row_soft (mode_row k) then row_default (mode_row k) else modes_contains ms k)"
  by (simp add: modes_set_contains modes_reset_contains DEFAULT_contains SOFT_RESET_contains)

end
