(* ===== verification/Vt_Frame.thy ===== *)
theory Vt_Frame
  imports Vt_Run Vt_Mode
begin

text \<open>
  The frame scan (\<open>FrameScan\<close> of \<open>fux-vt/src/parser.rs\<close>): it finds where a
  frame of synchronized output ends in the bytes held after its beginning,
  without carrying anything out.  It skips to each ESC a word at a time and
  goes on from where it stopped; it ends a frame just where the parser,
  reading the same bytes, would carry out what ends it.
\<close>

section \<open>The scan\<close>

datatype pending = P_Ground | P_Escape bool | P_Csi phase | P_CsiIgnore

record scan =
  s_from :: nat
  s_pending :: pending
  s_params :: params
  s_opts :: options
  s_saved :: bool

text \<open>\<open>Parser::frame_scan\<close>; whether XTSAVE holds the mode set is the screen's to tell.\<close>

definition frame_scan :: "options \<Rightarrow> bool \<Rightarrow> scan" where
  "frame_scan opts saved =
     \<lparr>s_from = 0, s_pending = P_Ground, s_params = params_default, s_opts = opts, s_saved = saved\<rparr>"

definition RESET :: bool where
  "RESET = (\<not> modes_contains DEFAULT M_SynchronizedOutput)"

definition SOFT :: bool where
  "SOFT = (RESET \<and> modes_contains SOFT_RESET M_SynchronizedOutput)"

text \<open>Whether the parameters name synchronized output.\<close>

definition names_sync :: "options \<Rightarrow> params \<Rightarrow> bool" where
  "names_sync opts ps =
     list_ex (\<lambda>g. case g of [n] \<Rightarrow> mode_of n True opts = Some M_SynchronizedOutput | _ \<Rightarrow> False) (params_groups ps)"

text \<open>\<open>FrameScan::ends\<close>: what XTSAVE then holds, and whether the frame ends.\<close>

definition csi_ends :: "options \<Rightarrow> bool \<Rightarrow> params \<Rightarrow> byte list \<Rightarrow> byte \<Rightarrow> bool \<times> bool" where
  "csi_ends opts saved ps read b =
     (if read = [0x3f] \<and> b = 0x6c then (saved, names_sync opts ps)
      else if read = [0x3f] \<and> b = 0x72 then (saved, \<not> saved \<and> names_sync opts ps)
      else if read = [0x3f] \<and> b = 0x73 then (saved \<or> names_sync opts ps, False)
      else if read = [0x21] \<and> b = 0x70 then (saved, SOFT)
      else if read = [0x22] \<and> b = 0x70 then (saved, SOFT \<and> (params_first ps 0 0 = 61 \<or> params_first ps 0 0 = 62))
      else (saved, False))"

text \<open>\<open>FrameScan::step\<close>, its arms in the code's order.\<close>

definition scan_step :: "byte \<Rightarrow> scan \<Rightarrow> scan \<times> bool" where
  "scan_step b s =
     (let pend = s_pending s in
      if b = 0x1b then (s\<lparr>s_pending := P_Escape True\<rparr>, False)
      else if pend = P_Ground \<or> b = 0x18 \<or> b = 0x1a then (s\<lparr>s_pending := P_Ground\<rparr>, False)
      else (case pend of
          P_Ground \<Rightarrow> (s, False)
        | P_Escape simple \<Rightarrow>
            if 0x20 \<le> b \<and> b \<le> 0x2f then (s\<lparr>s_pending := P_Escape False\<rparr>, False)
            else if simple \<and> b = 0x5b then
              (s\<lparr>s_params := params_clear (s_params s), s_pending := P_Csi Entry\<rparr>, False)
            else if simple \<and> b = 0x63 then (s\<lparr>s_pending := P_Ground\<rparr>, RESET)
            else if 0x30 \<le> b \<and> b \<le> 0x7e then (s\<lparr>s_pending := P_Ground\<rparr>, False)
            else (s, False)
        | P_CsiIgnore \<Rightarrow>
            if 0x40 \<le> b \<and> b \<le> 0x7e then (s\<lparr>s_pending := P_Ground\<rparr>, False) else (s, False)
        | P_Csi ph \<Rightarrow>
            (case phase_next ph b (s_params s) of
               (Next_Phase ph', ps) \<Rightarrow> (s\<lparr>s_params := ps, s_pending := P_Csi ph'\<rparr>, False)
             | (Next_Ignore, ps) \<Rightarrow> (s\<lparr>s_params := ps, s_pending := P_CsiIgnore\<rparr>, False)
             | (Next_Control, ps) \<Rightarrow> (s\<lparr>s_params := ps\<rparr>, False)
             | (Next_Final read, ps) \<Rightarrow>
                 (case csi_ends (s_opts s) (s_saved s) ps read b of
                    (saved, ended) \<Rightarrow> (s\<lparr>s_params := ps, s_saved := saved, s_pending := P_Ground\<rparr>, ended)))))"

lemma scan_step_from: "s_from (fst (scan_step b s)) = s_from s"
  by (auto simp: scan_step_def Let_def split: pending.splits prod.splits next_phase.splits)

text \<open>\<open>FrameScan::end\<close>.\<close>

function scan_end :: "byte list \<Rightarrow> scan \<Rightarrow> scan \<times> nat option" where
  "scan_end held s =
     (if s_pending s = P_Ground \<and> length held < s_from s then (s, None)
      else (case (if s_pending s = P_Ground then esc_in (drop (s_from s) held) else Some 0) of
              None \<Rightarrow> (s\<lparr>s_from := length held\<rparr>, None)
            | Some esc \<Rightarrow>
                let s1 = s\<lparr>s_from := s_from s + esc\<rparr>
                in (case get_at held (s_from s1) of
                      None \<Rightarrow> (s1, None)
                    | Some b \<Rightarrow>
                        (case scan_step b (s1\<lparr>s_from := s_from s1 + 1\<rparr>) of
                           (s2, True) \<Rightarrow> (s2, Some (s_from s2))
                         | (s2, False) \<Rightarrow> scan_end held s2))))"
  by pat_completeness auto
termination
proof (relation "measure (\<lambda>(held, s). length held - s_from s)", simp, goal_cases)
  case (1 held s esc s1 b s2 e)
  then have "scan_step b (s1\<lparr>s_from := s_from s1 + 1\<rparr>) = (s2, False)" by simp
  then have "s_from s2 = s_from s1 + 1"
    using scan_step_from [of b "s1\<lparr>s_from := s_from s1 + 1\<rparr>"] by simp
  then show ?case using 1(3) get_at_Suc_length [OF 1(4)] by simp
qed

declare scan_end.simps [simp del]

text \<open>The check of the scan's own state (\<open>FrameScan::check\<close>).\<close>

definition check_from :: "byte list \<Rightarrow> scan \<Rightarrow> bool" where
  "check_from held s = (s_from s \<le> length held)"

section \<open>The scan a byte at a time\<close>

fun scan_plain :: "byte list \<Rightarrow> scan \<Rightarrow> scan \<times> nat option" where
  "scan_plain [] s = (s, None)"
| "scan_plain (b # bs) s =
     (case scan_step b s of
        (s', True) \<Rightarrow> (s', Some 1)
      | (s', False) \<Rightarrow> (case scan_plain bs s' of (s'', k) \<Rightarrow> (s'', map_option Suc k)))"

lemma scan_step_set_from [simp]:
  "scan_step b (s\<lparr>s_from := n\<rparr>) = (case scan_step b s of (s', e) \<Rightarrow> (s'\<lparr>s_from := n\<rparr>, e))"
  by (auto simp: scan_step_def Let_def split: pending.splits prod.splits next_phase.splits)

lemma scan_plain_set_from [simp]:
  "scan_plain bs (s\<lparr>s_from := n\<rparr>) = (case scan_plain bs s of (s', e) \<Rightarrow> (s'\<lparr>s_from := n\<rparr>, e))"
  by (induction bs s rule: scan_plain.induct) (auto split: prod.splits bool.splits)

lemma scan_plain_skip:
  "s_pending s = P_Ground \<Longrightarrow> \<forall>b \<in> set xs. b \<noteq> 0x1b \<Longrightarrow>
   scan_plain (xs @ ys) s = (case scan_plain ys s of (s', k) \<Rightarrow> (s', map_option (\<lambda>k. length xs + k) k))"
proof (induction xs)
  case Nil
  then show ?case by (simp add: option.map_ident split: prod.splits)
next
  case (Cons b xs)
  have "scan_step b s = (s, False)" using Cons.prems by (auto simp: scan_step_def)
  then show ?case using Cons by (auto simp: option.map_comp comp_def split: prod.splits)
qed

lemma scan_end_plain:
  "s_from s \<le> length held \<Longrightarrow>
   scan_end held s =
     (case scan_plain (drop (s_from s) held) s of
        (s', None) \<Rightarrow> (s'\<lparr>s_from := length held\<rparr>, None)
      | (s', Some k) \<Rightarrow> (s'\<lparr>s_from := s_from s + k\<rparr>, Some (s_from s + k)))"
proof (induction held s rule: scan_end.induct)
  case (1 held s)
  let ?rest = "drop (s_from s) held"
  let ?esc = "if s_pending s = P_Ground then esc_in ?rest else Some 0"
  show ?case
  proof (cases ?esc)
    case None
    then have g: "s_pending s = P_Ground" "position (\<lambda>b. b = 0x1b) ?rest = None"
      by (auto simp: esc_in_position split: if_splits)
    then have "scan_plain (?rest @ []) s = (s, None)"
      using scan_plain_skip [OF g(1), of ?rest "[]"] position_None_iff [of "\<lambda>b. b = 0x1b" ?rest] by simp
    then show ?thesis using None "1.prems" by (simp add: scan_end.simps [of held s])
  next
    case (Some esc)
    let ?at = "s_from s + esc"
    have skip: "scan_plain ?rest s = (case scan_plain (drop ?at held) s of (s', k) \<Rightarrow> (s', map_option (\<lambda>k. esc + k) k))
        \<and> ?at \<le> length held"
    proof (cases "s_pending s = P_Ground")
      case True
      then have pos: "position (\<lambda>b. b = 0x1b) ?rest = Some esc" using Some by (simp add: esc_in_position)
      have lt: "esc < length ?rest" using position_Some [OF pos] by simp
      have "\<forall>b \<in> set (take esc ?rest). b \<noteq> 0x1b" using position_first [OF pos] by (auto simp: in_set_conv_nth)
      note skip = scan_plain_skip [OF True this, of "drop esc ?rest"]
      have "length (take esc ?rest) = esc" "drop esc ?rest = drop ?at held" using lt by (simp_all add: add.commute)
      then show ?thesis using skip lt unfolding append_take_drop_id by simp
    next
      case False
      then show ?thesis using Some "1.prems" by (simp add: option.map_ident split: prod.splits)
    qed
    show ?thesis
    proof (cases "get_at held ?at")
      case None
      then have "?at = length held" using skip by (simp add: get_at_None_iff)
      then show ?thesis using Some None "1.prems" skip by (simp add: scan_end.simps [of held s])
    next
      case (Some b)
      obtain s2 e where step: "scan_step b s = (s2, e)" by fastforce
      have at: "?at < length held" "held ! ?at = b" using Some by (auto simp: get_at_Some_iff)
      have d: "drop ?at held = b # drop (Suc ?at) held" using at by (simp add: Cons_nth_drop_Suc [symmetric])
      show ?thesis
      proof (cases e)
        case True
        then show ?thesis
          using \<open>?esc = Some esc\<close> Some step skip d "1.prems" by (simp add: scan_end.simps [of held s] Let_def)
      next
        case False
        let ?s2 = "s2\<lparr>s_from := Suc ?at\<rparr>"
        have rec: "scan_end held ?s2 = (case scan_plain (drop (Suc ?at) held) s2 of
            (s', None) \<Rightarrow> (s'\<lparr>s_from := length held\<rparr>, None)
          | (s', Some k) \<Rightarrow> (s'\<lparr>s_from := Suc ?at + k\<rparr>, Some (Suc ?at + k)))"
          using "1.IH" [of esc "s\<lparr>s_from := ?at\<rparr>" b ?s2 False] \<open>?esc = Some esc\<close> Some step False "1.prems" at
          by (auto split: prod.splits option.splits)
        show ?thesis
          using \<open>?esc = Some esc\<close> Some step False skip d "1.prems" rec
          by (auto simp: scan_end.simps [of held s] Let_def split: prod.splits option.splits)
      qed
    qed
  qed
qed

section \<open>The scan alongside the parser\<close>

text \<open>The parameters both read: the slots past the last hold what sequences before left there.\<close>

definition params_like :: "params \<Rightarrow> params \<Rightarrow> bool" where
  "params_like a b \<longleftrightarrow>
     length (pvalues a) = SLOTS \<and> length (pvalues b) = SLOTS \<and> plen a = plen b \<and> 1 \<le> plen b \<and> plen b \<le> SLOTS
     \<and> psub a = psub b \<and> pfull a = pfull b \<and> take (plen b) (pvalues a) = take (plen b) (pvalues b)"

lemma like_nth: "params_like a b \<Longrightarrow> i < plen a \<Longrightarrow> pvalues a ! i = pvalues b ! i"
  unfolding params_like_def by (metis nth_take)

lemma like_slot:
  "params_like a b \<Longrightarrow> params_like (set_slot i v a) (set_slot i v b)"
  by (auto simp: params_like_def set_slot_def take_update_swap)

lemma like_digit: "params_like a b \<Longrightarrow> params_like (params_digit c a) (params_digit c b)"
proof -
  assume l: "params_like a b"
  then have eq: "plen b = plen a" "pfull b = pfull a" "length (pvalues b) = length (pvalues a)" "0 < plen a"
    by (auto simp: params_like_def)
  have "pvalues b ! (plen a - 1) = pvalues a ! (plen a - 1)" using like_nth [OF l, of "plen a - 1"] eq(4) by simp
  then show ?thesis using l like_slot [OF l] by (simp add: params_digit_def eq)
qed

lemma like_separator: "params_like a b \<Longrightarrow> params_like (params_separator c a) (params_separator c b)"
proof -
  assume l: "params_like a b"
  have more: "take (Suc (plen b)) ((pvalues a)[plen b := 0]) = take (Suc (plen b)) ((pvalues b)[plen b := 0])"
    if "plen b < SLOTS"
    using l that by (simp add: params_like_def take_Suc_conv_app_nth)
  show ?thesis
    using l more by (auto simp: params_separator_def continue_group_def set_slot_def params_like_def)
qed

lemma like_note: "params_like a b \<Longrightarrow> params_like (note_given r a) (note_given r b)"
  by (simp add: params_like_def note_given_def)

lemma like_given: "params_like a b \<Longrightarrow> params_like (a\<lparr>pgiven := g\<rparr>) (b\<lparr>pgiven := g'\<rparr>)"
  by (simp add: params_like_def)

lemma like_clear:
  "length (pvalues a) = SLOTS \<Longrightarrow> length (pvalues b) = SLOTS \<Longrightarrow> params_like (params_clear a) (params_clear b)"
  by (cases "pvalues a"; cases "pvalues b") (auto simp: params_like_def params_clear_def set_slot_def SLOTS_def)

definition like_step :: "next_phase \<times> params \<Rightarrow> next_phase \<times> params \<Rightarrow> bool" where
  "like_step x y \<longleftrightarrow> fst x = fst y \<and> params_like (snd x) (snd y)"

lemma like_step_if: "like_step x x' \<Longrightarrow> like_step y y' \<Longrightarrow> like_step (if c then x else y) (if c then x' else y')"
  by simp

lemma like_phase_next: "params_like a b \<Longrightarrow> like_step (phase_next ph c a) (phase_next ph c b)"
  unfolding phase_next_def Let_def
  by (intro like_step_if)
    (simp_all add: like_step_def like_digit like_separator like_note like_given split: option.split)

lemma like_group_end: "params_like a b \<Longrightarrow> group_end a n e = group_end b n e"
  by (induction a n e rule: group_end.induct) (auto simp: params_like_def continues_def)

lemma group_end_bound: "e \<le> plen p \<Longrightarrow> group_end p n e \<le> plen p"
  by (induction p n e rule: group_end.induct) auto

lemma like_groups_from: "params_like a b \<Longrightarrow> groups_from a i = groups_from b i"
proof (induction a i rule: groups_from.induct)
  case (1 a i)
  note l = "1.prems"
  have eq: "plen b = plen a" "length (pvalues b) = length (pvalues a)" using l by (auto simp: params_like_def)
  let ?e = "group_end a (plen a - (i + 1)) (i + 1)"
  show ?case
  proof (cases "plen a \<le> i")
    case False
    have e: "?e \<le> plen a" using False by (intro group_end_bound) simp
    have "take (?e - i) (drop i (pvalues a)) = take (?e - i) (drop i (pvalues b))"
    proof -
      have "take (?e - i) (drop i xs) = drop i (take ?e (take (plen b) xs))" for xs :: "nat list"
        using e eq(1) by (simp add: drop_take min_absorb1)
      moreover have "take (plen b) (pvalues a) = take (plen b) (pvalues b)" using l by (simp add: params_like_def)
      ultimately show ?thesis by (simp only:)
    qed
    then show ?thesis
      using False "1.IH" [OF False refl _ l] eq like_group_end [OF l]
      by (simp add: groups_from.simps [of a i] groups_from.simps [of b i] Let_def)
  qed (use eq in \<open>simp add: groups_from.simps [of a i] groups_from.simps [of b i]\<close>)
qed

lemma like_groups: "params_like a b \<Longrightarrow> params_groups a = params_groups b"
  by (simp add: params_groups_def like_groups_from)

lemma like_first: "params_like a b \<Longrightarrow> params_first a i d = params_first b i d"
  by (frule like_groups) (simp add: params_first_def params_grouped_def params_like_def)

lemma like_csi_ends: "params_like a b \<Longrightarrow> csi_ends opts saved a read c = csi_ends opts saved b read c"
  by (simp add: csi_ends_def names_sync_def like_groups like_first)

text \<open>What an action the parser gives makes of a frame: what XTSAVE holds then, and whether the frame ends.\<close>

fun action_ends :: "options \<Rightarrow> bool \<Rightarrow> action \<Rightarrow> bool \<times> bool" where
  "action_ends opts saved (Csi_Seq ps read b) = csi_ends opts saved ps read b"
| "action_ends opts saved (Esc_Seq read b) = (saved, read = [] \<and> b = 0x63 \<and> RESET)"
| "action_ends opts saved _ = (saved, False)"

fun actions_end :: "options \<Rightarrow> bool \<Rightarrow> action list \<Rightarrow> bool \<times> bool" where
  "actions_end opts saved [] = (saved, False)"
| "actions_end opts saved (a # acts) =
     (case action_ends opts saved a of
        (saved', True) \<Rightarrow> (saved', True)
      | (saved', False) \<Rightarrow> actions_end opts saved' acts)"

lemma actions_end_append:
  "actions_end opts saved (xs @ ys) =
     (case actions_end opts saved xs of (s, True) \<Rightarrow> (s, True) | (s, False) \<Rightarrow> actions_end opts s ys)"
  by (induction xs arbitrary: saved) (auto split: prod.splits bool.splits)

fun alongside :: "pstate \<Rightarrow> params \<Rightarrow> pending \<Rightarrow> params \<Rightarrow> bool" where
  "alongside (Escape read) ps pend qs = (pend = P_Escape (read = []))"
| "alongside EscapeIgnore ps pend qs = (pend = P_Escape False)"
| "alongside (Csi ph) ps pend qs = (pend = P_Csi ph \<and> params_like ps qs)"
| "alongside CsiIgnore ps pend qs = (pend = P_CsiIgnore)"
| "alongside _ ps pend qs = (pend = P_Ground)"

definition sim :: "parser \<Rightarrow> scan \<Rightarrow> bool" where
  "sim p s \<longleftrightarrow> alongside (p_state p) (p_params p) (s_pending s) (s_params s) \<and> length (pvalues (s_params s)) = SLOTS
     \<and> length (pvalues (p_params p)) = SLOTS"

lemma like_refl: "params_ok ps \<Longrightarrow> params_like ps ps"
  by (simp add: params_like_def params_ok_def)

lemma escape_not_printed: "b = 0x18 \<or> b = 0x1a \<or> b = 0x1b \<Longrightarrow> \<not> (0x20 \<le> b)" for b :: byte
  unfolding word_le_nat_alt by auto

lemma control_ends [simp]: "actions_end opts saved (control_acts p b) = (saved, False)"
  "actions_end opts saved (control_acts p b @ acts) = actions_end opts saved acts"
  by (simp_all add: control_acts_def)

lemma ground_ends:
  "ground b p = (p', acts) \<Longrightarrow> actions_end opts saved acts = (saved, False)
     \<and> p_params p' = p_params p \<and> (if b = 0x1b then p_state p' = Escape [] else p_state p = Ground \<longrightarrow> (\<forall>ps qs pend. alongside (p_state p') ps pend qs = (pend = P_Ground)))"
  by (auto simp: ground_def split: if_splits)

lemma continuation_ends:
  assumes "parser_ok p" "p_state p = Utf8 read" "continuation read b p = (p', acts)"
  shows "actions_end opts saved acts = (saved, False)
     \<and> p_params p' = p_params p \<and> (if b = 0x1b then p_state p' = Escape [] else \<forall>ps qs pend. alongside (p_state p') ps pend qs = (pend = P_Ground))"
proof -
  obtain first rest n low high where r: "read = first # rest" "lead first = Some (n, low, high)"
    using assms(1,2) by (auto simp: parser_ok_def partial_char_def split: list.splits option.splits)
  define lo hi where "lo = (if rest = [] then low else 0x80)" and "hi = (if rest = [] then high else 0xbf)"
  have "lo \<noteq> 0" "\<not> (lo \<le> 0x1b)"
    using r(2) by (auto simp: lo_def lead_def split: if_splits)
  then have esc: "lo \<le> b \<Longrightarrow> b \<noteq> 0x1b" by auto
  have c: "continuation read b p =
      (let p' = p\<lparr>p_state := Ground\<rparr> in
       case (if lo \<le> b \<and> b \<le> hi then bytes_push 4 read b else None) of
         Some read' \<Rightarrow>
           if length read' < n then (p'\<lparr>p_state := Utf8 read'\<rparr>, [])
           else (case decode read' of Some (c, _) \<Rightarrow> (p', [Print c]) | None \<Rightarrow> (p', []))
       | None \<Rightarrow> (case ground b p' of (p'', acts) \<Rightarrow> (p'', Print REPLACEMENT # acts)))"
    using r by (simp add: continuation_def first_byte_def lo_def hi_def Let_def)
  obtain q a where g: "ground b (p\<lparr>p_state := Ground\<rparr>) = (q, a)" by fastforce
  show ?thesis
  proof (cases "if lo \<le> b \<and> b \<le> hi then bytes_push 4 read b else None")
    case None
    then show ?thesis using assms(3) c g ground_ends [OF g] by (auto simp: Let_def)
  next
    case (Some read')
    then have "b \<noteq> 0x1b" using esc by (auto split: if_splits)
    then show ?thesis using assms(3) c Some by (auto simp: Let_def split: if_splits option.splits)
  qed
qed

text \<open>One byte read by both.\<close>

definition in_step :: "parser \<Rightarrow> scan \<Rightarrow> parser \<times> action list \<Rightarrow> scan \<times> bool \<Rightarrow> bool" where
  "in_step p s pa se \<longleftrightarrow>
     (case pa of (p', acts) \<Rightarrow> case se of (s', e) \<Rightarrow>
        actions_end (s_opts s) (s_saved s) acts = (s_saved s', e)
        \<and> alongside (p_state p') (p_params p') (s_pending s') (s_params s')
        \<and> length (pvalues (s_params s')) = SLOTS \<and> s_opts s' = s_opts s)"

lemma in_step_ends:
  "actions_end opts saved (snd (escape_ends st p)) = (saved, False) \<and> p_params (fst (escape_ends st p)) = p_params p
   \<and> p_state (fst (escape_ends st p)) = p_state p"
  by (cases st) (auto simp: escape_ends_def dispatch_osc_def)

lemma in_step_anywhere:
  assumes "p_state p = st" "st \<noteq> Ground" "\<forall>read. st \<noteq> Utf8 read" "sim p s" "b = 0x18 \<or> b = 0x1a \<or> b = 0x1b"
  shows "in_step p s (byte_step b p) (scan_step b s)"
proof -
  have len: "length (pvalues (s_params s)) = SLOTS" using assms(4) by (simp add: sim_def)
  show ?thesis
  proof (cases "b = 0x1b")
    case True
    then have "byte_step b p = escape_ends st (p\<lparr>p_state := Escape []\<rparr>)"
      using assms(1-3) by (auto simp: byte_step_def split: pstate.splits)
    then show ?thesis
      using True len in_step_ends [of "s_opts s" "s_saved s" st "p\<lparr>p_state := Escape []\<rparr>"]
      by (auto simp: in_step_def scan_step_def split: prod.splits)
  next
    case False
    then have "byte_step b p = cancel b st p"
      using assms(1-3,5) by (auto simp: byte_step_def split: pstate.splits)
    then show ?thesis
      using False assms(1,5) len by (auto simp: in_step_def scan_step_def cancel_def Let_def)
  qed
qed

definition no_sequence :: "options \<Rightarrow> bool \<Rightarrow> parser \<times> action list \<Rightarrow> bool" where
  "no_sequence opts saved pa \<longleftrightarrow>
     actions_end opts saved (snd pa) = (saved, False)
     \<and> (\<forall>ps qs pend. alongside (p_state (fst pa)) ps pend qs = (pend = P_Ground))"

lemma no_sequence_dcs: "no_sequence opts saved (dcs_string read b p)"
  by (simp add: no_sequence_def dcs_string_def Let_def)

lemma no_sequence_osc: "p_state p = Osc w \<Longrightarrow> no_sequence opts saved (fst (osc_byte w b p))"
  by (simp add: no_sequence_def osc_byte_def dispatch_osc_def)

lemma inner_strings:
  assumes "st = IgnoreString \<or> st = Sixel \<or> st = Request rq \<or> st = Osc w \<or> st = Dcs ph" "p_state p = st"
  shows "no_sequence opts saved (fst (inner_byte st b p))"
proof -
  consider "st = IgnoreString" | "st = Sixel" | "st = Request rq" | "st = Osc w" | "st = Dcs ph" using assms(1) by blast
  then show ?thesis
  proof cases
    case 5
    obtain nx ps where "phase_next ph b (p_params p) = (nx, ps)" by fastforce
    then show ?thesis
      using 5 assms(2) no_sequence_dcs
      by (cases nx) (simp_all add: inner_byte_def no_sequence_def)
  qed (use assms(2) no_sequence_osc in \<open>simp_all add: inner_byte_def, simp_all add: no_sequence_def\<close>)
qed

lemma in_step_inner:
  assumes "p_state p = st" "st \<noteq> Ground" "\<forall>read. st \<noteq> Utf8 read" "b \<noteq> 0x18" "b \<noteq> 0x1a" "b \<noteq> 0x1b"
    "in_step p s (fst (inner_byte st b p)) (scan_step b s)"
  shows "in_step p s (byte_step b p) (scan_step b s)"
proof -
  obtain q acts r where i: "inner_byte st b p = ((q, acts), r)" by (metis surj_pair)
  have "byte_step b p = (if \<not> r \<and> p_state q = Ground then (q, acts @ [Forget_Repeat]) else (q, acts))"
    using assms(1-6) i by (auto simp: byte_step_def split: pstate.splits)
  moreover have "actions_end opts saved (acts @ [Forget_Repeat]) = actions_end opts saved acts" for opts saved
    by (auto simp: actions_end_append split: prod.splits bool.splits)
  ultimately show ?thesis using assms(7) i by (auto simp: in_step_def split: if_splits)
qed

lemma in_step_csi:
  assumes "p_state p = Csi ph" "sim p s" "b \<noteq> 0x18" "b \<noteq> 0x1a" "b \<noteq> 0x1b"
  shows "in_step p s (fst (inner_byte (Csi ph) b p)) (scan_step b s)"
proof -
  have a: "s_pending s = P_Csi ph" "params_like (p_params p) (s_params s)" using assms(1,2) by (auto simp: sim_def)
  obtain nx ps where n: "phase_next ph b (p_params p) = (nx, ps)" by fastforce
  obtain nx' qs where m: "phase_next ph b (s_params s) = (nx', qs)" by fastforce
  have l: "nx' = nx" "params_like ps qs" using like_phase_next [OF a(2), of ph b] n m by (auto simp: like_step_def)
  have len: "length (pvalues qs) = SLOTS" using l(2) by (simp add: params_like_def)
  show ?thesis
  proof (cases nx)
    case (Next_Final read)
    then show ?thesis
      using a(1) assms(3-5) n m l len like_csi_ends [OF l(2), of "s_opts s" "s_saved s" read b]
      by (auto simp: in_step_def inner_byte_def scan_step_def split: prod.splits bool.splits)
  next
    case Next_Control
    have "ps = p_params p" "qs = s_params s" if "nx = Next_Control"
      using that n m l(1) by (auto simp: phase_next_def Let_def split: if_splits option.splits)
    then show ?thesis
      using Next_Control a assms n m l len by (auto simp: in_step_def inner_byte_def scan_step_def)
  qed (use a(1) assms(3-5) n m l len in \<open>auto simp: in_step_def inner_byte_def scan_step_def\<close>)
qed

lemma in_step_escape:
  assumes "p_state p = Escape read" "sim p s" "b \<noteq> 0x18" "b \<noteq> 0x1a" "b \<noteq> 0x1b"
  shows "in_step p s (fst (inner_byte (Escape read) b p)) (scan_step b s)"
proof -
  have a: "s_pending s = P_Escape (read = [])" "length (pvalues (s_params s)) = SLOTS" "length (pvalues (p_params p)) = SLOTS"
    using assms(1,2) by (auto simp: sim_def)
  have b: "\<not> (b \<le> 0x1f \<and> (0x20 \<le> b \<or> b = 0x5b \<or> b = 0x63 \<or> 0x30 \<le> b))"
    "0x20 \<le> b \<and> b \<le> 0x2f \<Longrightarrow> b \<noteq> 0x5b \<and> b \<noteq> 0x63" "\<not> (0x30 \<le> b \<and> b \<le> 0x7e) \<Longrightarrow> b \<noteq> 0x5b \<and> b \<noteq> 0x63"
    unfolding word_le_nat_alt word_unat_eq_iff by auto
  have push: "bytes_push 2 read b = Some read' \<Longrightarrow> read' \<noteq> []" for read' by (auto simp: bytes_push_def split: if_splits)
  consider "b \<le> 0x1f" | "\<not> b \<le> 0x1f" "0x20 \<le> b \<and> b \<le> 0x2f" | "\<not> b \<le> 0x1f" "\<not> (0x20 \<le> b \<and> b \<le> 0x2f)" by blast
  then show ?thesis
  proof cases
    case 1
    then show ?thesis using a assms b(1) by (simp add: in_step_def inner_byte_def scan_step_def escape_byte_def)
  next
    case 2
    then show ?thesis
      using a assms push
      by (auto simp: in_step_def inner_byte_def scan_step_def escape_byte_def split: option.splits)
  next
    case 3
    show ?thesis
    proof (cases "0x30 \<le> b \<and> b \<le> 0x7e")
      case False
      then show ?thesis
        using a assms b(3) [OF False] by (simp add: in_step_def inner_byte_def scan_step_def escape_byte_def 3 False)
    next
      case True
      then show ?thesis
        using 3 a assms like_clear [OF a(3,2)]
        by (auto simp: in_step_def inner_byte_def scan_step_def escape_byte_def params_like_def split: bool.splits)
    qed
  qed
qed

lemma in_step_byte:
  assumes ok: "parser_ok p" and sim: "sim p s"
  shows "in_step p s (byte_step b p) (scan_step b s)"
proof -
  have len: "length (pvalues (s_params s)) = SLOTS" using sim by (simp add: sim_def)
  obtain p' acts where step: "byte_step b p = (p', acts)" by fastforce
  consider (ground) "p_state p = Ground" | (utf8) read where "p_state p = Utf8 read"
    | (anywhere) "p_state p \<noteq> Ground" "\<forall>read. p_state p \<noteq> Utf8 read" "b = 0x18 \<or> b = 0x1a \<or> b = 0x1b"
    | (inner) "p_state p \<noteq> Ground" "\<forall>read. p_state p \<noteq> Utf8 read" "b \<noteq> 0x18" "b \<noteq> 0x1a" "b \<noteq> 0x1b"
    by blast
  then show ?thesis
  proof cases
    case ground
    then have "ground b p = (p', acts)" using step by (simp add: byte_step_def)
    then show ?thesis
      using ground_ends [of b p p' acts "s_opts s" "s_saved s"] ground sim len step
      by (auto simp: in_step_def scan_step_def sim_def split: if_splits)
  next
    case utf8
    then have "continuation read b p = (p', acts)" using step by (simp add: byte_step_def)
    then show ?thesis
      using continuation_ends [OF ok utf8, of b p' acts "s_opts s" "s_saved s"] utf8 sim len step
      by (auto simp: in_step_def scan_step_def sim_def split: if_splits)
  next
    case anywhere
    then show ?thesis by (intro in_step_anywhere [OF refl _ _ sim])
  next
    case inner
    have "in_step p s (fst (inner_byte (p_state p) b p)) (scan_step b s)"
    proof (cases "p_state p")
      case (Csi ph)
      then show ?thesis using in_step_csi [OF Csi sim inner(3-5)] by simp
    next
      case (Escape read)
      then show ?thesis using in_step_escape [OF Escape sim inner(3-5)] by simp
    next
      case EscapeIgnore
      have "0x30 \<le> b \<Longrightarrow> \<not> b \<le> 0x2f \<and> \<not> b \<le> 0x1f" "0x20 \<le> b \<Longrightarrow> \<not> b \<le> 0x1f" unfolding word_le_nat_alt by auto
      then show ?thesis
        using EscapeIgnore inner sim len
        by (auto simp: in_step_def inner_byte_def scan_step_def sim_def Let_def)
    next
      case CsiIgnore
      have "0x40 \<le> b \<Longrightarrow> \<not> b \<le> 0x1f" unfolding word_le_nat_alt by auto
      then show ?thesis
        using CsiIgnore inner sim len
        by (auto simp: in_step_def inner_byte_def scan_step_def sim_def Let_def)
    next
      case Ground
      then show ?thesis using inner by simp
    next
      case (Utf8 read)
      then show ?thesis using inner by simp
    qed (use inner_strings [OF _ refl, of p _ _ _ "s_opts s" "s_saved s" b] inner sim len in
        \<open>auto simp: in_step_def no_sequence_def scan_step_def sim_def split: prod.splits\<close>)
    then show ?thesis by (rule in_step_inner [OF refl inner])
  qed
qed

text \<open>Where the actions of the bytes first end the frame.\<close>

definition frame_ends :: "bool \<Rightarrow> parser \<Rightarrow> options \<Rightarrow> byte list \<Rightarrow> bool" where
  "frame_ends saved p opts bs = snd (actions_end opts saved (snd (feed bs p)))"

lemma frame_ends_Cons:
  assumes "in_step p s (byte_step b p) (scan_step b s)" "byte_step b p = (p', acts)" "scan_step b s = (s', e)"
  shows "frame_ends (s_saved s) p (s_opts s) (b # bs) = (e \<or> frame_ends (s_saved s') p' (s_opts s') bs)"
  using assms by (auto simp: frame_ends_def in_step_def actions_end_append split: prod.splits bool.splits)

lemma scan_plain_follows:
  "parser_ok p \<Longrightarrow> sim p s \<Longrightarrow>
   (case snd (scan_plain bs s) of
      Some k \<Rightarrow> 0 < k \<and> k \<le> length bs \<and> frame_ends (s_saved s) p (s_opts s) (take k bs)
        \<and> \<not> frame_ends (s_saved s) p (s_opts s) (take (k - 1) bs)
    | None \<Rightarrow> \<not> frame_ends (s_saved s) p (s_opts s) bs)"
proof (induction bs arbitrary: p s)
  case Nil
  then show ?case by (simp add: frame_ends_def)
next
  case (Cons b bs)
  obtain p' acts where step: "byte_step b p = (p', acts)" by fastforce
  obtain s' e where scan: "scan_step b s = (s', e)" by fastforce
  note i = in_step_byte [OF Cons.prems, of b]
  note ends = frame_ends_Cons [OF i step scan]
  have ok: "parser_ok p'" by (rule byte_step_ok [OF Cons.prems(1) step])
  then have sim: "sim p' s'"
    using i step scan by (simp add: in_step_def sim_def parser_ok_def params_ok_def)
  have none: "\<not> frame_ends (s_saved s) p (s_opts s) []" by (simp add: frame_ends_def)
  show ?case
  proof (cases e)
    case True
    then show ?thesis using scan ends none by simp
  next
    case False
    obtain r k where rec: "scan_plain bs s' = (r, k)" by fastforce
    have "snd (scan_plain (b # bs) s) = map_option Suc k" using scan False rec by simp
    then show ?thesis
      using Cons.IH [OF ok sim] rec ends False none
      by (auto split: option.splits simp: take_Cons' gr0_conv_Suc)
  qed
qed

lemma sim_begins: "parser_ok p \<Longrightarrow> p_state p = Ground \<Longrightarrow> sim p (frame_scan opts saved)"
  by (simp add: sim_def frame_scan_def params_default_def parser_ok_def params_ok_def)

section \<open>Properties\<close>

text \<open>
  C20: The frame scan, skipping to each ESC a word at a time and going on from
  where it stopped before, finds what reading every byte in turn finds: the
  first byte whose step ends the frame, in the bytes past where it stopped, or
  none, every byte then read; and where it goes on is within the bytes it was
  given, as it checks.
\<close>

theorem scan_reads_every_byte:
  assumes "check_from held s"
  shows "scan_end held s =
     (case scan_plain (drop (s_from s) held) s of
        (s', None) \<Rightarrow> (s'\<lparr>s_from := length held\<rparr>, None)
      | (s', Some k) \<Rightarrow> (s'\<lparr>s_from := s_from s + k\<rparr>, Some (s_from s + k)))
    \<and> check_from held (fst (scan_end held s))"
proof -
  have le: "case snd (scan_plain bs t) of None \<Rightarrow> True | Some k \<Rightarrow> k \<le> length bs" for bs t
    by (induction bs t rule: scan_plain.induct) (auto split: prod.splits bool.splits option.splits)
  have eq: "scan_end held s =
     (case scan_plain (drop (s_from s) held) s of
        (s', None) \<Rightarrow> (s'\<lparr>s_from := length held\<rparr>, None)
      | (s', Some k) \<Rightarrow> (s'\<lparr>s_from := s_from s + k\<rparr>, Some (s_from s + k)))"
    by (rule scan_end_plain) (use assms in \<open>simp add: check_from_def\<close>)
  show ?thesis
    using assms le [of "drop (s_from s) held" s] unfolding eq
    by (auto simp: check_from_def split: prod.splits option.splits)
qed

theorem scan_reads_every_byte_witness:
  "check_from [0x41, 0x1b, 0x63] (fst (scan_end [0x41, 0x1b, 0x63] (frame_scan options_new False)))"
proof -
  have "check_from [0x41, 0x1b, 0x63] (frame_scan options_new False)" by (simp add: check_from_def frame_scan_def)
  from scan_reads_every_byte [OF this] show ?thesis by blast
qed



end
