(* ===== verification/Vt_Attrs.thy ===== *)
theory Vt_Attrs
  imports Vt_Words
begin

text \<open>
  The attributes of a cell (\<open>fux-vt/src/cell.rs\<close>): colours as a program sets
  them and as they are stored, four bytes each, and sixteen bits of flags, of
  which three are the underline's style.  The styles most programs use are
  their own number (\<open>inline_style\<close>), which is proved to be read back.
\<close>

section \<open>Colours\<close>

record rgb =
  rgb_r :: byte
  rgb_g :: byte
  rgb_b :: byte

datatype color =
    Color_Default
  | Color_Idx byte
  | Color_Rgb rgb

datatype blink = Blink_None | Blink_Slow | Blink_Rapid

datatype under_style = Under_None | Under_Single | Under_Double | Under_Curly | Under_Dotted | Under_Dashed

definition under_from_number :: "nat \<Rightarrow> under_style option" where
  "under_from_number n =
     (if n = 0 then Some Under_None
      else if n = 1 then Some Under_Single
      else if n = 2 then Some Under_Double
      else if n = 3 then Some Under_Curly
      else if n = 4 then Some Under_Dotted
      else if n = 5 then Some Under_Dashed
      else None)"

fun under_number :: "under_style \<Rightarrow> nat" where
  "under_number Under_None = 0"
| "under_number Under_Single = 1"
| "under_number Under_Double = 2"
| "under_number Under_Curly = 3"
| "under_number Under_Dotted = 4"
| "under_number Under_Dashed = 5"

text \<open>A colour as stored: a tag and its bytes.\<close>

datatype packed = Packed byte byte byte byte

fun packed_new :: "color \<Rightarrow> packed" where
  "packed_new Color_Default = Packed 0 0 0 0"
| "packed_new (Color_Idx i) = Packed 1 i 0 0"
| "packed_new (Color_Rgb c) = Packed 2 (rgb_r c) (rgb_g c) (rgb_b c)"

fun packed_get :: "packed \<Rightarrow> color" where
  "packed_get (Packed tag a b c) =
     (if tag = 1 then Color_Idx a
      else if tag = 2 then Color_Rgb \<lparr>rgb_r = a, rgb_g = b, rgb_b = c\<rparr>
      else Color_Default)"

lemma packed_get_new [simp]: "packed_get (packed_new c) = c"
  by (cases c) auto

lemma packed_new_inject [simp]: "packed_new c = packed_new d \<longleftrightarrow> c = d"
  by (metis packed_get_new)

section \<open>Attributes\<close>

record attributes =
  a_fg :: packed
  a_bg :: packed
  a_under :: packed
  a_flags :: "16 word"

definition attrs_default :: attributes where
  "attrs_default = \<lparr>a_fg = Packed 0 0 0 0, a_bg = Packed 0 0 0 0, a_under = Packed 0 0 0 0, a_flags = 0\<rparr>"

definition BOLD :: "16 word" where "BOLD = 1"
definition DIM :: "16 word" where "DIM = 2"
definition ITALIC :: "16 word" where "ITALIC = 4"
definition GUARDED :: "16 word" where "GUARDED = 8"
definition INVERSE :: "16 word" where "INVERSE = 16"
definition SLOW_BLINK :: "16 word" where "SLOW_BLINK = 32"
definition RAPID_BLINK :: "16 word" where "RAPID_BLINK = 64"
definition HIDDEN :: "16 word" where "HIDDEN = 128"
definition STRIKEOUT :: "16 word" where "STRIKEOUT = 256"
definition BLINK :: "16 word" where "BLINK = SLOW_BLINK OR RAPID_BLINK"
definition UNDERLINE_SHIFT :: nat where "UNDERLINE_SHIFT = 9"
definition UNDERLINE :: "16 word" where "UNDERLINE = push_bit UNDERLINE_SHIFT 7"

definition attrs_new :: "color \<Rightarrow> color \<Rightarrow> attributes" where
  "attrs_new fg bg =
     \<lparr>a_fg = packed_new fg, a_bg = packed_new bg, a_under = packed_new Color_Default, a_flags = 0\<rparr>"

definition foreground :: "attributes \<Rightarrow> color" where
  "foreground a = packed_get (a_fg a)"
definition background :: "attributes \<Rightarrow> color" where
  "background a = packed_get (a_bg a)"
definition underline_color :: "attributes \<Rightarrow> color" where
  "underline_color a = packed_get (a_under a)"

definition with_foreground :: "color \<Rightarrow> attributes \<Rightarrow> attributes" where
  "with_foreground c a = a\<lparr>a_fg := packed_new c\<rparr>"
definition with_background :: "color \<Rightarrow> attributes \<Rightarrow> attributes" where
  "with_background c a = a\<lparr>a_bg := packed_new c\<rparr>"
definition with_underline_color :: "color \<Rightarrow> attributes \<Rightarrow> attributes" where
  "with_underline_color c a = a\<lparr>a_under := packed_new c\<rparr>"

definition with_flag :: "16 word \<Rightarrow> bool \<Rightarrow> attributes \<Rightarrow> attributes" where
  "with_flag b on a = a\<lparr>a_flags := (if on then a_flags a OR b else a_flags a AND NOT b)\<rparr>"

definition with_guard :: "bool \<Rightarrow> attributes \<Rightarrow> attributes" where
  "with_guard = with_flag GUARDED"

definition erased :: "attributes \<Rightarrow> attributes" where
  "erased a = a\<lparr>a_under := Packed 0 0 0 0, a_flags := 0\<rparr>"

text \<open>The rows of \<open>flags!\<close>: each flag's bit, and its SGR numbers on and off.\<close>

definition FLAGS :: "(16 word \<times> nat \<times> nat) list" where
  "FLAGS = [(BOLD, 1, 22), (INVERSE, 7, 27), (HIDDEN, 8, 28), (DIM, 2, 22), (ITALIC, 3, 23), (STRIKEOUT, 9, 29)]"

definition has_flag :: "16 word \<Rightarrow> attributes \<Rightarrow> bool" where
  "has_flag b a \<longleftrightarrow> a_flags a AND b \<noteq> 0"

definition with_underline_style :: "under_style \<Rightarrow> attributes \<Rightarrow> attributes" where
  "with_underline_style st a =
     a\<lparr>a_flags := (a_flags a AND NOT UNDERLINE) OR push_bit UNDERLINE_SHIFT (of_nat (under_number st))\<rparr>"

definition with_underline :: "bool \<Rightarrow> attributes \<Rightarrow> attributes" where
  "with_underline on = with_underline_style (if on then Under_Single else Under_None)"

definition with_blink :: "blink \<Rightarrow> attributes \<Rightarrow> attributes" where
  "with_blink b a =
     with_flag (case b of Blink_None \<Rightarrow> 0 | Blink_Slow \<Rightarrow> SLOW_BLINK | Blink_Rapid \<Rightarrow> RAPID_BLINK) True
       (with_flag BLINK False a)"

definition underline :: "attributes \<Rightarrow> bool" where
  "underline a \<longleftrightarrow> a_flags a AND UNDERLINE \<noteq> 0"

definition underline_style :: "attributes \<Rightarrow> under_style" where
  "underline_style a =
     (case under_from_number (unat (drop_bit UNDERLINE_SHIFT (a_flags a AND UNDERLINE))) of
        Some st \<Rightarrow> st | None \<Rightarrow> Under_None)"

definition blink_of :: "attributes \<Rightarrow> blink" where
  "blink_of a =
     (let b = a_flags a AND BLINK
      in if b = 0 then Blink_None else if b = RAPID_BLINK then Blink_Rapid else Blink_Slow)"

section \<open>A style that is its own number\<close>

text \<open>\<open>u32::from_le_bytes\<close> and \<open>to_le_bytes\<close> of a colour.\<close>

fun packed_word :: "packed \<Rightarrow> 32 word" where
  "packed_word (Packed a b c d) =
     ucast a OR push_bit 8 (ucast b) OR push_bit 16 (ucast c) OR push_bit 24 (ucast d)"

definition INDEXED :: "16 word" where
  "INDEXED = BOLD OR DIM OR ITALIC OR INVERSE OR SLOW_BLINK OR HIDDEN OR STRIKEOUT OR push_bit UNDERLINE_SHIFT 1"
definition DIRECT :: "16 word" where
  "DIRECT = BOLD OR ITALIC"

text \<open>Nine bits of a colour: none for the default, else its index and one.\<close>

definition colour_bits :: "32 word \<Rightarrow> 32 word" where
  "colour_bits w = (drop_bit 8 w + 1) AND (- (w AND 1))"

definition inline_style :: "attributes \<Rightarrow> 32 word option" where
  "inline_style a =
     (let fg = packed_word (a_fg a); bg = packed_word (a_bg a); flags = ucast (a_flags a) :: 32 word
      in if a_under a \<noteq> Packed 0 0 0 0 then None
         else if (fg OR bg) AND 0xffff00fe = 0 \<and> a_flags a AND NOT INDEXED = 0 then
           (let rendition = (flags AND 7) OR (drop_bit 1 flags AND 0x18) OR (drop_bit 2 flags AND 0xe0)
            in Some (colour_bits fg OR push_bit 9 (colour_bits bg) OR push_bit 18 rendition))
         else if fg AND 0xff = 2 \<and> bg = 0 \<and> a_flags a AND NOT DIRECT = 0 then
           (let bold = flags AND ucast BOLD; italic = drop_bit 2 (flags AND ucast ITALIC)
            in Some (push_bit 26 1 OR drop_bit 8 fg OR push_bit 24 bold OR push_bit 25 italic))
         else None)"

definition colour_from :: "32 word \<Rightarrow> packed" where
  "colour_from c = (if 1 \<le> c \<and> c - 1 < 256 then Packed 1 (ucast (c - 1)) 0 0 else Packed 0 0 0 0)"

text \<open>\<open>u16::try_from\<close> of a word, 0 where it does not fit.\<close>

definition u16_or_0 :: "32 word \<Rightarrow> 16 word" where
  "u16_or_0 w = (if w < 2 ^ 16 then ucast w else 0)"

definition from_inline_style :: "32 word \<Rightarrow> attributes" where
  "from_inline_style code =
     (if code AND push_bit 26 1 \<noteq> 0 then
        \<lparr>a_fg = Packed 2 (ucast code) (ucast (drop_bit 8 code)) (ucast (drop_bit 16 code)),
         a_bg = Packed 0 0 0 0, a_under = Packed 0 0 0 0,
         a_flags = u16_or_0 ((drop_bit 24 code AND 1) OR push_bit 2 (drop_bit 25 code AND 1))\<rparr>
      else
        (let rendition = drop_bit 18 code AND 0xff;
             flags = (rendition AND 7) OR push_bit 1 (rendition AND 0x18) OR push_bit 2 (rendition AND 0xe0)
         in \<lparr>a_fg = colour_from (code AND 0x1ff), a_bg = colour_from (drop_bit 9 code AND 0x1ff),
             a_under = Packed 0 0 0 0, a_flags = u16_or_0 flags\<rparr>))"

definition TABLE :: "32 word" where
  "TABLE = push_bit 27 1"

section \<open>Fields of a word\<close>

lemma small_bits:
  assumes "(w :: 'a :: len word) < 2 ^ k" "k \<le> n"
  shows "\<not> bit w n"
proof -
  have "w AND mask k = w" by (rule less_mask_eq [OF assms(1)])
  then show ?thesis using assms(2) by (metis bit_and_iff bit_mask_iff linorder_not_less)
qed

lemma bits_small:
  assumes "\<And>n. k \<le> n \<Longrightarrow> \<not> bit (w :: 'a :: len word) n" "k < LENGTH('a)"
  shows "w < 2 ^ k"
proof -
  have "w AND mask k = w"
    using assms(1) by (intro bit_eqI) (simp add: bit_simps, metis not_le)
  then show ?thesis using and_mask_less' [OF assms(2), of w] by simp
qed

lemma bit_one_at: "bit (push_bit k (1 :: 'a :: len word)) n \<longleftrightarrow> n = k \<and> n < LENGTH('a)"
  by (auto simp: bit_simps bit_1_iff)

lemma flag_bit: "w AND push_bit k (1 :: 'a :: len word) = 0 \<longleftrightarrow> \<not> bit w k"
proof
  assume "w AND push_bit k 1 = 0"
  then have "\<not> bit (w AND push_bit k 1) k" by simp
  then show "\<not> bit w k" unfolding bit_and_iff bit_one_at using bit_imp_le_length by blast
next
  assume "\<not> bit w k"
  then show "w AND push_bit k 1 = 0" by (intro bit_word_eqI) (auto simp only: bit_and_iff bit_one_at bit_0_eq bot_apply bot_bool_def)
qed

lemma masks: "(0x1ff :: 32 word) = mask 9" "(0xff :: 32 word) = mask 8" "(1 :: 32 word) = mask 1"
  by (simp_all add: mask_eq_decr_exp)

lemma three_fields:
  fixes c1 c2 r :: "32 word"
  assumes "c1 < 2 ^ 9" "c2 < 2 ^ 9" "r < 2 ^ 8"
  defines "code \<equiv> c1 OR push_bit 9 c2 OR push_bit 18 r"
  shows "code AND 0x1ff = c1" "drop_bit 9 code AND 0x1ff = c2" "drop_bit 18 code AND 0xff = r"
    "code AND push_bit 26 1 = 0" "code < 2 ^ 26"
proof -
  note b = small_bits [OF assms(1)] small_bits [OF assms(2)] small_bits [OF assms(3)]
  have low: "bit c1 n \<Longrightarrow> n < 9" "bit c2 n \<Longrightarrow> n < 9" "bit r n \<Longrightarrow> n < 8" for n
    using b [of n] not_less by blast+
  show "code AND 0x1ff = c1" "drop_bit 9 code AND 0x1ff = c2" "drop_bit 18 code AND 0xff = r"
    unfolding masks code_def by (intro bit_word_eqI; auto simp: bit_simps dest: low)+
  show "code AND push_bit 26 1 = 0"
    unfolding flag_bit code_def by (auto simp: bit_simps dest: low)
  show "code < 2 ^ 26"
    by (rule bits_small) (auto simp: code_def bit_simps dest: low)
qed

section \<open>The number of a style is read back\<close>

definition color_is_rgb :: "color \<Rightarrow> bool" where
  "color_is_rgb c = (case c of Color_Rgb _ \<Rightarrow> True | _ \<Rightarrow> False)"

lemma byte_bit: "bit (b :: byte) n \<Longrightarrow> n < 8"
  by (auto dest: bit_imp_le_length)

lemma byte_up:
  fixes b :: byte
  shows "unat (ucast b :: 32 word) = unat b" "ucast (ucast b :: 32 word) = b" "unat b < 256"
proof -
  show "unat b < 256" using unsigned_less [where w = b and 'a = nat] by simp
  show "unat (ucast b :: 32 word) = unat b" by transfer (simp add: take_bit_nat_eq_self_iff take_bit_take_bit)
  show "ucast (ucast b :: 32 word) = b" by (intro bit_word_eqI) (simp add: bit_simps)
qed

lemma byte_up_1: "unat (ucast (b :: byte) + 1 :: 32 word) = unat b + 1"
  using byte_up(3) [of b] by (simp add: unat_word_ariths byte_up(1))

lemma packed_words:
  "packed_word (packed_new Color_Default) = 0"
  "packed_word (packed_new (Color_Idx i)) = 1 OR push_bit 8 (ucast i)"
  "packed_word (packed_new (Color_Rgb c)) =
     2 OR push_bit 8 (ucast (rgb_r c)) OR push_bit 16 (ucast (rgb_g c)) OR push_bit 24 (ucast (rgb_b c))"
  by simp_all

lemma kinds_mask: "(0xffff00fe :: 32 word) = NOT (1 OR push_bit 8 (mask 8))"
  by (simp add: mask_eq_decr_exp)

lemma no_rgb_mask: "packed_word (packed_new c) AND 0xffff00fe = 0 \<longleftrightarrow> \<not> color_is_rgb c"
proof (cases c)
  case (Color_Idx i)
  show ?thesis
    unfolding Color_Idx packed_words kinds_mask color_is_rgb_def
    by (simp only: color.case) (intro iffI TrueI bit_word_eqI, auto simp: bit_simps bit_1_iff dest: byte_bit)
next
  case (Color_Rgb r)
  have "bit (packed_word (packed_new c) AND 0xffff00fe) 1"
    unfolding Color_Rgb packed_words kinds_mask by (simp add: bit_simps bit_1_iff)
  then show ?thesis by (auto simp: Color_Rgb color_is_rgb_def)
qed (simp add: color_is_rgb_def)

lemma rgb_mask: "packed_word (packed_new c) AND 0xff = 2 \<longleftrightarrow> color_is_rgb c"
proof (cases c)
  case (Color_Idx i)
  have "bit (packed_word (packed_new c) AND 0xff) 0"
    unfolding Color_Idx packed_words masks(2) by (simp add: bit_simps bit_1_iff)
  then have "packed_word (packed_new c) AND 0xff \<noteq> 2" by auto
  then show ?thesis by (simp add: Color_Idx color_is_rgb_def)
next
  case (Color_Rgb r)
  have two: "(2 :: 32 word) = push_bit 1 1" by simp
  have "packed_word (packed_new c) AND 0xff = 2"
    unfolding Color_Rgb packed_words masks(2) two
    by (intro bit_word_eqI) (auto simp: bit_simps bit_1_iff dest: byte_bit)
  then show ?thesis by (simp add: Color_Rgb color_is_rgb_def)
qed (simp add: color_is_rgb_def)

lemma bg_zero: "packed_word (packed_new c) = 0 \<longleftrightarrow> c = Color_Default"
proof (cases c)
  case (Color_Idx i)
  have "bit (packed_word (packed_new c)) 0"
    unfolding Color_Idx packed_words by (simp add: bit_simps bit_1_iff)
  then show ?thesis by (auto simp: Color_Idx)
next
  case (Color_Rgb r)
  have "bit (packed_word (packed_new c)) 1"
    unfolding Color_Rgb packed_words by (simp add: bit_simps bit_1_iff)
  then show ?thesis by (auto simp: Color_Rgb)
qed simp

lemma color_bits_idx: "colour_bits (packed_word (packed_new (Color_Idx i))) = ucast i + 1"
proof -
  have "drop_bit 8 (1 OR push_bit 8 (ucast i) :: 32 word) = ucast i" "(1 OR push_bit 8 (ucast i) :: 32 word) AND 1 = 1"
    by (intro bit_word_eqI; auto simp: bit_simps bit_1_iff dest: byte_bit)+
  then show ?thesis unfolding packed_words colour_bits_def by simp
qed

lemma color_bits_small: "\<not> color_is_rgb c \<Longrightarrow> colour_bits (packed_word (packed_new c)) < 2 ^ 9"
proof (cases c)
  case (Color_Idx i)
  show ?thesis unfolding Color_Idx color_bits_idx
    by (use byte_up(3) [of i] in \<open>simp add: word_less_nat_alt byte_up_1\<close>)
qed (auto simp: colour_bits_def color_is_rgb_def)

lemma colour_from_bits: "\<not> color_is_rgb c \<Longrightarrow> colour_from (colour_bits (packed_word (packed_new c))) = packed_new c"
proof (cases c)
  case (Color_Idx i)
  show ?thesis unfolding Color_Idx color_bits_idx
    by (use byte_up(3) [of i] in \<open>simp add: colour_from_def word_less_nat_alt word_le_nat_alt byte_up byte_up_1\<close>)
qed (auto simp: colour_bits_def color_is_rgb_def colour_from_def)

lemma within_mask: "f AND NOT m = 0 \<longleftrightarrow> (\<forall>n. bit f n \<longrightarrow> bit m n)" for f m :: "'a :: len word"
proof
  assume z: "f AND NOT m = 0"
  have "bit m n" if "bit f n" for n
  proof (rule ccontr)
    assume "\<not> bit m n"
    then have "bit (f AND NOT m) n" using that by (simp add: bit_simps bit_imp_le_length)
    then show False using z by simp
  qed
  then show "\<forall>n. bit f n \<longrightarrow> bit m n" by blast
next
  assume "\<forall>n. bit f n \<longrightarrow> bit m n"
  then show "f AND NOT m = 0" by (intro bit_word_eqI) (simp add: bit_simps)
qed

lemma rendition_masks:
  "INDEXED = mask 3 OR push_bit 4 (mask 2) OR push_bit 7 (mask 3)" "DIRECT = 1 OR push_bit 2 1"
  "(7 :: 32 word) = mask 3" "(0x18 :: 32 word) = push_bit 3 (mask 2)" "(0xe0 :: 32 word) = push_bit 5 (mask 3)"
  by (simp_all add: INDEXED_def DIRECT_def BOLD_def DIM_def ITALIC_def INVERSE_def SLOW_BLINK_def HIDDEN_def
      STRIKEOUT_def UNDERLINE_SHIFT_def mask_eq_decr_exp)

lemma u16_up: "u16_or_0 (ucast (f :: 16 word)) = f"
proof -
  have "(ucast f :: 32 word) < 2 ^ 16"
    by (rule bits_small) (auto simp: bit_simps dest: bit_imp_le_length)
  moreover have "ucast (ucast f :: 32 word) = f" by (intro bit_word_eqI) (simp add: bit_simps)
  ultimately show ?thesis by (simp add: u16_or_0_def)
qed

lemma rendition_back:
  fixes f :: "16 word"
  assumes "f AND NOT INDEXED = 0"
  defines "r \<equiv> (ucast f AND 7) OR (drop_bit 1 (ucast f) AND 0x18) OR (drop_bit 2 (ucast f) AND 0xe0) :: 32 word"
  shows "r < 2 ^ 8" "(r AND 7) OR push_bit 1 (r AND 0x18) OR push_bit 2 (r AND 0xe0) = ucast f"
proof -
  show "r < 2 ^ 8"
    by (rule bits_small) (auto simp: r_def rendition_masks(3-5) bit_simps)
  have low: "bit f n \<Longrightarrow> n < 3 \<or> 4 \<le> n \<and> n < 6 \<or> 7 \<le> n \<and> n < 10" for n
    using assms(1) unfolding within_mask rendition_masks by (auto simp: bit_simps)
  show "(r AND 7) OR push_bit 1 (r AND 0x18) OR push_bit 2 (r AND 0xe0) = ucast f"
    unfolding r_def rendition_masks(3-5)
  proof (rule bit_word_eqI)
    fix n
    have gaps: "\<not> bit f 3" "\<not> bit f 6" using low [of 3] low [of 6] by auto
    show "bit ((((ucast f AND mask 3) OR (drop_bit 1 (ucast f) AND push_bit 3 (mask 2)) OR (drop_bit 2 (ucast f) AND push_bit 5 (mask 3))) AND mask 3)
        OR push_bit 1 (((ucast f AND mask 3) OR (drop_bit 1 (ucast f) AND push_bit 3 (mask 2)) OR (drop_bit 2 (ucast f) AND push_bit 5 (mask 3))) AND push_bit 3 (mask 2))
        OR push_bit 2 (((ucast f AND mask 3) OR (drop_bit 1 (ucast f) AND push_bit 3 (mask 2)) OR (drop_bit 2 (ucast f) AND push_bit 5 (mask 3))) AND push_bit 5 (mask 3)) :: 32 word) n
      = bit (ucast f :: 32 word) n"
    proof (cases "n < 10")
      case True
      then have "n \<in> {0, 1, 2, 3, 4, 5, 6, 7, 8, 9}" by auto
      then show ?thesis by (elim insertE emptyE; simp add: bit_simps gaps del: push_bit_Suc)
    next
      case False
      then have "\<not> bit f n" using low [of n] by auto
      then show ?thesis using False by (auto simp: bit_simps simp del: push_bit_Suc)
    qed
  qed
qed

text \<open>Attributes as the program makes them: each colour packed as \<open>new\<close> packs it.\<close>

definition colours_ok :: "attributes \<Rightarrow> bool" where
  "colours_ok a \<longleftrightarrow> a_fg a = packed_new (foreground a) \<and> a_bg a = packed_new (background a)
     \<and> a_under a = packed_new (underline_color a)"

text \<open>The styles that have numbers of their own.\<close>

definition inlined :: "attributes \<Rightarrow> bool" where
  "inlined a \<longleftrightarrow> underline_color a = Color_Default
     \<and> (\<not> color_is_rgb (foreground a) \<and> \<not> color_is_rgb (background a) \<and> a_flags a AND NOT INDEXED = 0
      \<or> color_is_rgb (foreground a) \<and> background a = Color_Default \<and> a_flags a AND NOT DIRECT = 0)"

lemma or_and_zero: "(x OR y) AND m = 0 \<longleftrightarrow> x AND m = 0 \<and> y AND m = 0" for x y m :: "'a :: len word"
  by (simp add: bit.conj_disj_distrib2 or_eq_0_iff)

lemma default_packed: "Packed 0 0 0 0 = packed_new Color_Default"
  by simp

lemma inline_some: "colours_ok a \<Longrightarrow> inline_style a \<noteq> None \<longleftrightarrow> inlined a"
  unfolding inline_style_def inlined_def colours_ok_def Let_def or_and_zero default_packed
  by (auto simp only: no_rgb_mask rgb_mask bg_zero packed_new_inject split: if_splits)

lemma field_bits:
  "bit (push_bit m (ucast (b :: byte)) :: 32 word) k \<longleftrightarrow> m \<le> k \<and> k < 32 \<and> bit b (k - m)"
  "bit (ucast (b :: byte) :: 32 word) k \<longleftrightarrow> bit b k"
  "bit (push_bit m (of_bool q) :: 32 word) k \<longleftrightarrow> k = m \<and> k < 32 \<and> q"
  "bit (of_bool q :: 32 word) k \<longleftrightarrow> k = 0 \<and> q"
  "bit (ucast (f :: 16 word) :: 32 word) k \<longleftrightarrow> bit f k"
  "(w :: 32 word) AND 1 = of_bool (bit w 0)"
  by (auto simp: bit_simps bit_1_iff bit_0 and_one_eq mod_2_eq_odd dest: byte_bit bit_imp_le_length)

lemma direct_fields:
  fixes r g b :: byte and bo it :: bool
  defines "n \<equiv> push_bit 26 1 OR (ucast r OR push_bit 8 (ucast g) OR push_bit 16 (ucast b))
      OR push_bit 24 (of_bool bo) OR push_bit 25 (of_bool it) :: 32 word"
  shows "n AND push_bit 26 1 \<noteq> 0" "n < 2 ^ 27" "ucast n = r" "ucast (drop_bit 8 n) = g" "ucast (drop_bit 16 n) = b"
    "(drop_bit 24 n AND 1) OR push_bit 2 (drop_bit 25 n AND 1) = of_bool bo OR push_bit 2 (of_bool it)"
proof -
  have n: "bit n k \<longleftrightarrow> k = 26 \<or> bit r k \<or> 8 \<le> k \<and> bit g (k - 8) \<or> 16 \<le> k \<and> bit b (k - 16) \<or> k = 24 \<and> bo \<or> k = 25 \<and> it" for k
    unfolding n_def bit_or_iff field_bits bit_one_at by (auto dest: byte_bit)
  show "n AND push_bit 26 1 \<noteq> 0" unfolding flag_bit n by simp
  show "n < 2 ^ 27" by (rule bits_small) (auto simp: n dest: byte_bit)
  show "ucast n = r" "ucast (drop_bit 8 n) = g" "ucast (drop_bit 16 n) = b"
    by (intro bit_word_eqI; auto simp: bit_simps n dest: byte_bit)+
  show "(drop_bit 24 n AND 1) OR push_bit 2 (drop_bit 25 n AND 1) = of_bool bo OR push_bit 2 (of_bool it)"
    unfolding field_bits(6) bit_drop_bit_eq o_def n by (auto dest: byte_bit)
qed

lemma direct_flags:
  fixes f :: "16 word"
  assumes "f AND NOT DIRECT = 0"
  shows "(ucast f :: 32 word) AND ucast BOLD = of_bool (bit f 0)"
    "drop_bit 2 ((ucast f :: 32 word) AND ucast ITALIC) = of_bool (bit f 2)"
    "of_bool (bit f 0) OR push_bit 2 (of_bool (bit f 2)) = (ucast f :: 32 word)"
proof -
  have two: "(4 :: 32 word) = push_bit 2 1" by simp
  have low: "bit f n \<Longrightarrow> n = 0 \<or> n = 2" for n
    using assms unfolding within_mask rendition_masks(2) bit_or_iff bit_one_at by (auto simp: bit_1_iff)
  show "(ucast f :: 32 word) AND ucast BOLD = of_bool (bit f 0)"
    by (rule bit_word_eqI) (auto simp: BOLD_def bit_simps bit_1_iff)
  show "drop_bit 2 ((ucast f :: 32 word) AND ucast ITALIC) = of_bool (bit f 2)"
  proof (rule bit_word_eqI)
    fix k
    have it: "(ucast ITALIC :: 32 word) = push_bit 2 1" by (simp add: ITALIC_def)
    show "bit (drop_bit 2 ((ucast f :: 32 word) AND ucast ITALIC)) k = bit (of_bool (bit f 2) :: 32 word) k"
      unfolding it bit_drop_bit_eq o_def bit_and_iff bit_one_at field_bits by (auto simp: numeral_2_eq_2)
  qed
  show "of_bool (bit f 0) OR push_bit 2 (of_bool (bit f 2)) = (ucast f :: 32 word)"
    by (rule bit_word_eqI) (unfold bit_or_iff field_bits, auto dest: low)
qed

lemma drop_rgb:
  "drop_bit 8 (packed_word (packed_new (Color_Rgb c)))
     = ucast (rgb_r c) OR push_bit 8 (ucast (rgb_g c)) OR push_bit 16 (ucast (rgb_b c))"
proof -
  have two: "(2 :: 32 word) = push_bit 1 1" by simp
  show ?thesis unfolding packed_words two
    by (rule bit_word_eqI) (auto simp: bit_simps bit_1_iff dest: byte_bit)
qed

text \<open>
  C34: The styles that have numbers of their own are exactly those a program
  mostly prints in (\<open>inlined\<close>: default and indexed colours in any rendition
  but a rapid blink and the fancier underlines, or a direct foreground alone,
  bold or italic); each number is below the table's, and is read back as the
  attributes, so no two styles share one.
\<close>

theorem inline_style_reads_back:
  assumes "colours_ok a"
  shows "case inline_style a of
           None \<Rightarrow> \<not> inlined a
         | Some n \<Rightarrow> inlined a \<and> n < TABLE \<and> from_inline_style n = a"
proof (cases "inline_style a")
  case None
  then show ?thesis using inline_some [OF assms] by simp
next
  case (Some n)
  then have i: "inlined a" using inline_some [OF assms] by auto
  obtain fg bg where c: "a_fg a = packed_new fg" "a_bg a = packed_new bg" "a_under a = packed_new Color_Default"
    using assms i by (auto simp: colours_ok_def inlined_def)
  have fg: "foreground a = fg" "background a = bg" by (simp_all add: foreground_def background_def c)
  let ?f = "ucast (a_flags a) :: 32 word"
  show ?thesis
  proof (cases "color_is_rgb fg")
    case False
    then have bg: "\<not> color_is_rgb bg" and f: "a_flags a AND NOT INDEXED = 0" using i fg by (auto simp: inlined_def)
    obtain r where r_def: "r = (?f AND 7) OR (drop_bit 1 ?f AND 0x18) OR (drop_bit 2 ?f AND 0xe0)" by simp
    have n: "n = colour_bits (packed_word (packed_new fg)) OR push_bit 9 (colour_bits (packed_word (packed_new bg))) OR push_bit 18 r"
      using Some unfolding inline_style_def Let_def or_and_zero default_packed c no_rgb_mask
      by (simp add: False bg f r_def del: packed_new.simps)
    note r = rendition_back [OF f, folded r_def]
    note small = color_bits_small [OF False] color_bits_small [OF bg]
    note fields = three_fields [OF small r(1), folded n]
    have "n < TABLE" using fields(5) by (simp add: TABLE_def word_less_nat_alt)
    moreover have "from_inline_style n = a"
      using fields(4) unfolding from_inline_style_def fields(1-3) Let_def r(2) u16_up
      by (cases a) (use c in \<open>simp add: colour_from_bits False bg del: packed_new.simps(2,3)\<close>)
    ultimately show ?thesis using Some i by simp
  next
    case True
    then obtain x where x: "fg = Color_Rgb x" by (auto simp: color_is_rgb_def split: color.splits)
    have bg: "bg = Color_Default" and f: "a_flags a AND NOT DIRECT = 0" using i fg True by (auto simp: inlined_def)
    have n: "n = push_bit 26 1 OR drop_bit 8 (packed_word (packed_new fg)) OR push_bit 24 (?f AND ucast BOLD)
        OR push_bit 25 (drop_bit 2 (?f AND ucast ITALIC))"
      using Some unfolding inline_style_def Let_def or_and_zero default_packed c no_rgb_mask rgb_mask bg_zero
      by (simp only: True bg f HOL.simp_thms if_True if_False option.inject color.simps)
    note fields' = direct_fields [of "rgb_r x" "rgb_g x" "rgb_b x" "bit (a_flags a) 0" "bit (a_flags a) 2"]
    have n': "n = push_bit 26 1 OR (ucast (rgb_r x) OR push_bit 8 (ucast (rgb_g x)) OR push_bit 16 (ucast (rgb_b x)))
        OR push_bit 24 (of_bool (bit (a_flags a) 0)) OR push_bit 25 (of_bool (bit (a_flags a) 2))"
      unfolding n x drop_rgb direct_flags(1,2) [OF f] ..
    note fields = fields' [folded n']
    have "n < TABLE" using fields(2) by (simp add: TABLE_def word_less_nat_alt)
    moreover have "from_inline_style n = a"
      using fields(1) unfolding from_inline_style_def fields(3-6) direct_flags(3) [OF f] u16_up
      by (cases a) (use c x bg in simp)
    ultimately show ?thesis using Some i by simp
  qed
qed

theorem inline_style_reads_back_witness:
  "inline_style (with_flag BOLD True (attrs_new (Color_Idx 1) Color_Default)) = Some 0x40002
   \<and> from_inline_style 0x40002 = with_flag BOLD True (attrs_new (Color_Idx 1) Color_Default)"
proof -
  let ?a = "with_flag BOLD True (attrs_new (Color_Idx 1) Color_Default)"
  have ok: "colours_ok ?a"
    by (simp add: colours_ok_def foreground_def background_def underline_color_def with_flag_def attrs_new_def)
  have n: "inline_style ?a = Some 0x40002" by code_simp
  show ?thesis using inline_style_reads_back [OF ok] n by simp
qed

end
