(* ===== verification/Rust_Text.thy ===== *)
theory Rust_Text
  imports Vt_Utf8
begin

text \<open>
  Rust's \<open>str\<close> as the program uses it: a text is its bytes, which are UTF-8.
  What the library's operations do is written out (\<open>split\<close>, \<open>split_once\<close>,
  \<open>strip_prefix\<close>, \<open>chars\<close>, \<open>parse\<close> and \<open>Display\<close> of the unsigned numbers,
  \<open>from_str_radix\<close>, \<open>{:x}\<close>), with the lemmas on numbers and separators that
  the round trips of ids, versions and keys share.
\<close>

type_synonym str = "byte list"

definition ascii :: "string \<Rightarrow> str" where
  "ascii s = map (\<lambda>c. byte_of (of_char c)) s"

section \<open>Characters\<close>

text \<open>\<open>std::str::from_utf8\<close>: a byte below 0x80, or what \<open>decode\<close> takes, over and over.\<close>

function utf8_valid :: "byte list \<Rightarrow> bool" where
  "utf8_valid [] = True"
| "utf8_valid (b # bs) =
     (if b < 0x80 then utf8_valid bs
      else (case decode (b # bs) of None \<Rightarrow> False | Some (c, n) \<Rightarrow> utf8_valid (drop (n - 1) bs)))"
  by pat_completeness auto
termination by (relation "measure length") auto

text \<open>The first character of a text and the rest, \<open>chars().next()\<close>.\<close>

definition next_char :: "str \<Rightarrow> (nat \<times> str) option" where
  "next_char t =
     (case t of
        [] \<Rightarrow> None
      | b # bs \<Rightarrow>
          if b < 0x80 then Some (unat b, bs)
          else map_option (\<lambda>(c, n). (c, drop n t)) (decode t))"

text \<open>\<open>char::is_control\<close>.\<close>

definition is_control :: "nat \<Rightarrow> bool" where
  "is_control c \<longleftrightarrow> c < 0x20 \<or> 0x7f \<le> c \<and> c \<le> 0x9f"

lemma scalar_pos: "scalar c \<Longrightarrow> utf8_encode c \<noteq> []"
  by (simp add: utf8_encode_def)

lemma byte_less_80: "(b :: byte) < 0x80 \<longleftrightarrow> unat b < 128"
  by (simp add: word_less_nat_alt)

lemma utf8_shape:
  assumes "scalar c" "0x80 \<le> c"
  obtains b bs where "utf8_encode c = b # bs" "192 \<le> unat b" "bs \<noteq> []" "\<forall>x \<in> set bs. 128 \<le> unat x \<and> unat x < 192"
proof -
  have c: "c < 1114112" using assms(1) by (auto simp: scalar_def)
  have tail: "128 \<le> unat (byte_of (128 + n mod 64)) \<and> unat (byte_of (128 + n mod 64)) < 192" for n
  proof -
    have "128 + n mod 64 < 192" by simp
    then show ?thesis by (simp add: unat_byte_of)
  qed
  consider "c < 0x800" | "0x800 \<le> c" "c < 0x10000" | "0x10000 \<le> c" by linarith
  then show thesis
  proof cases
    case 1
    then have "c div 64 < 64" by simp
    then have "192 \<le> unat (byte_of (192 + c div 64))" by (subst unat_byte_of) simp_all
    with 1 assms tail show thesis by (intro that) (auto simp: utf8_encode_def)
  next
    case 2
    then have "c div 4096 < 32" by simp
    then have "192 \<le> unat (byte_of (224 + c div 4096))" by (subst unat_byte_of) simp_all
    with 2 tail show thesis by (intro that) (auto simp: utf8_encode_def)
  next
    case 3
    have "c div 262144 < 16" using c by simp
    then have "192 \<le> unat (byte_of (240 + c div 262144))" by (subst unat_byte_of) simp_all
    with 3 tail show thesis by (intro that) (auto simp: utf8_encode_def)
  qed
qed

lemma next_char_encode:
  assumes "scalar c"
  shows "next_char (utf8_encode c @ rest) = Some (c, rest)"
proof (cases "c < 0x80")
  case True
  then have "utf8_encode c = [byte_of c]" "byte_of c < 0x80" "unat (byte_of c) = c"
    by (simp_all add: utf8_encode_def byte_less_80 unat_byte_of)
  then show ?thesis by (simp add: next_char_def)
next
  case False
  then have d: "decode (utf8_encode c @ rest) = Some (c, length (utf8_encode c))"
    using decode_encode assms by simp
  obtain b bs where b: "utf8_encode c = b # bs" "192 \<le> unat b"
    using False utf8_shape [OF assms] by (metis not_less)
  then show ?thesis using d by (simp add: next_char_def byte_less_80)
qed

lemma utf8_valid_encode:
  assumes "scalar c"
  shows "utf8_valid (utf8_encode c @ rest) = utf8_valid rest"
proof (cases "c < 0x80")
  case True
  then have "utf8_encode c = [byte_of c]" "byte_of c < 0x80"
    by (simp_all add: utf8_encode_def byte_less_80 unat_byte_of)
  then show ?thesis by simp
next
  case False
  then have d: "decode (utf8_encode c @ rest) = Some (c, length (utf8_encode c))"
    using decode_encode assms by simp
  obtain b bs where b: "utf8_encode c = b # bs" "192 \<le> unat b"
    using False utf8_shape [OF assms] by (metis not_less)
  then show ?thesis using d by (simp add: byte_less_80)
qed

lemma ascii_valid: "\<forall>b \<in> set t. unat b < 128 \<Longrightarrow> utf8_valid (t @ rest) = utf8_valid rest"
  by (induction t) (simp_all add: byte_less_80)

text \<open>A text's characters, \<open>chars()\<close>, and the text of them, \<open>collect()\<close>.\<close>

function chars_of :: "str \<Rightarrow> nat list" where
  "chars_of t =
     (case next_char t of
        None \<Rightarrow> []
      | Some (c, r) \<Rightarrow> if length r < length t then c # chars_of r else [])"
  by pat_completeness auto
termination by (relation "measure length") auto

declare chars_of.simps [simp del]

definition text_of :: "nat list \<Rightarrow> str" where
  "text_of cs = concat (map utf8_encode cs)"

lemma text_of_simps [simp]: "text_of [] = []" "text_of (c # cs) = utf8_encode c @ text_of cs"
  by (simp_all add: text_of_def)

lemma text_of_append: "text_of (a @ b) = text_of a @ text_of b"
  by (simp add: text_of_def)

lemma chars_of_text: "list_all scalar cs \<Longrightarrow> chars_of (text_of cs) = cs"
proof (induction cs)
  case (Cons c cs)
  then show ?case
    using next_char_encode [of c "text_of cs"] scalar_pos [of c] by (simp add: chars_of.simps [of "_ @ _"])
qed (simp add: chars_of.simps [of "[]"] next_char_def)

lemma text_of_valid: "list_all scalar cs \<Longrightarrow> utf8_valid (text_of cs)"
  by (induction cs) (simp_all add: utf8_valid_encode)

lemma valid_next:
  assumes "utf8_valid t" "t \<noteq> []"
  obtains c r where "next_char t = Some (c, r)" "scalar c" "t = utf8_encode c @ r" "utf8_valid r" "length r < length t"
proof -
  obtain b bs where t: "t = b # bs" using assms(2) by (cases t) auto
  show thesis
  proof (cases "b < 0x80")
    case True
    then have u: "unat b < 128" by (simp add: byte_less_80)
    then have "utf8_encode (unat b) = [b]" by (simp add: utf8_encode_def)
    with True u assms(1) show thesis by (intro that [of "unat b" bs]) (simp_all add: t next_char_def scalar_def)
  next
    case False
    then obtain c n where d: "decode t = Some (c, n)" "utf8_valid (drop (n - 1) bs)"
      using assms(1) by (auto simp: t split: option.splits)
    have s: "scalar c" "t = utf8_encode c @ drop n t" "n = length (utf8_encode c)" using decode_sound [OF d(1)] by auto
    then have "0 < n" using scalar_pos [of c] by simp
    then have "drop n t = drop (n - 1) bs" by (simp add: t drop_Cons')
    then have "utf8_valid (drop n t)" using d(2) by simp
    moreover have "next_char t = Some (c, drop n t)" using next_char_encode [OF s(1), of "drop n t"] s(2) by simp
    moreover have "length (drop n t) < length t" using \<open>0 < n\<close> by (simp add: t)
    ultimately show thesis using s that by blast
  qed
qed

lemma chars_of_valid: "utf8_valid t \<Longrightarrow> text_of (chars_of t) = t \<and> list_all scalar (chars_of t)"
proof (induction "length t" arbitrary: t rule: less_induct)
  case less
  show ?case
  proof (cases "t = []")
    case False
    then obtain c r where r: "next_char t = Some (c, r)" "scalar c" "t = utf8_encode c @ r" "utf8_valid r" "length r < length t"
      using valid_next [OF less.prems] by metis
    from r(1,5) have "chars_of t = c # chars_of r" by (simp add: chars_of.simps [of t])
    then show ?thesis using r less.hyps [of r] by simp
  qed (simp add: chars_of.simps [of "[]"] next_char_def)
qed

text \<open>
  The texts that \<open>from_utf8\<close> takes are exactly the encodings of characters,
  and their characters are found again.
\<close>

lemma texts_are_characters:
  "utf8_valid t \<longleftrightarrow> t = text_of (chars_of t) \<and> list_all scalar (chars_of t)"
  using chars_of_valid text_of_valid by metis

section \<open>Pieces of a text\<close>

text \<open>\<open>split(c)\<close> for an ASCII \<open>c\<close>, \<open>split_once(c)\<close> and \<open>strip_prefix\<close>.\<close>

fun split_on :: "byte \<Rightarrow> str \<Rightarrow> str list" where
  "split_on c [] = [[]]"
| "split_on c (b # bs) =
     (if b = c then [] # split_on c bs
      else (case split_on c bs of [] \<Rightarrow> [[b]] | p # ps \<Rightarrow> (b # p) # ps))"

fun split_once :: "byte \<Rightarrow> str \<Rightarrow> (str \<times> str) option" where
  "split_once c [] = None"
| "split_once c (b # bs) =
     (if b = c then Some ([], bs) else map_option (\<lambda>(x, y). (b # x, y)) (split_once c bs))"

fun strip_prefix :: "str \<Rightarrow> str \<Rightarrow> str option" where
  "strip_prefix [] t = Some t"
| "strip_prefix (p # ps) [] = None"
| "strip_prefix (p # ps) (b # bs) = (if p = b then strip_prefix ps bs else None)"

lemma split_on_part: "c \<notin> set a \<Longrightarrow> split_on c (a @ c # b) = a # split_on c b"
  by (induction a) auto

lemma split_on_last: "c \<notin> set a \<Longrightarrow> split_on c a = [a]"
  by (induction a) auto

lemma split_once_part: "c \<notin> set a \<Longrightarrow> split_once c (a @ c # b) = Some (a, b)"
  by (induction a) auto

lemma split_once_Some: "split_once c t = Some (a, b) \<Longrightarrow> t = a @ c # b \<and> c \<notin> set a"
  by (induction t arbitrary: a) (auto split: if_splits)

lemma strip_prefix_Some: "strip_prefix p t = Some r \<longleftrightarrow> t = p @ r"
  by (induction p t rule: strip_prefix.induct) auto

text \<open>\<open>to_ascii_lowercase\<close>, \<open>to_ascii_uppercase\<close> of a character, and \<open>eq_ignore_ascii_case\<close>.\<close>

definition lower :: "nat \<Rightarrow> nat" where
  "lower c = (if 65 \<le> c \<and> c \<le> 90 then c + 32 else c)"
definition upper :: "nat \<Rightarrow> nat" where
  "upper c = (if 97 \<le> c \<and> c \<le> 122 then c - 32 else c)"
definition same_ignoring_case :: "str \<Rightarrow> str \<Rightarrow> bool" where
  "same_ignoring_case a b \<longleftrightarrow> map (lower \<circ> unat) a = map (lower \<circ> unat) b"

section \<open>Numbers\<close>

text \<open>\<open>Display\<close> (radix 10) and \<open>{:x}\<close> (radix 16) of an unsigned number.\<close>

definition digit_sym :: "nat \<Rightarrow> byte" where
  "digit_sym d = byte_of (if d < 10 then 48 + d else 87 + d)"

function digits :: "nat \<Rightarrow> nat \<Rightarrow> str" where
  "digits r n = (if n < r \<or> r < 2 then [digit_sym n] else digits r (n div r) @ [digit_sym (n mod r)])"
  by pat_completeness auto
termination by (relation "measure snd") (auto intro: div_less_dividend)

declare digits.simps [simp del]

text \<open>\<open>char::to_digit\<close>.\<close>

definition digit_val :: "nat \<Rightarrow> byte \<Rightarrow> nat option" where
  "digit_val r b =
     (let n = unat b;
          d = (if 48 \<le> n \<and> n \<le> 57 then n - 48
               else if 97 \<le> n \<and> n \<le> 122 then n - 87
               else if 65 \<le> n \<and> n \<le> 90 then n - 55 else r)
      in if d < r then Some d else None)"

fun digits_from :: "nat \<Rightarrow> nat \<Rightarrow> nat \<Rightarrow> str \<Rightarrow> nat option" where
  "digits_from r most n [] = Some n"
| "digits_from r most n (b # bs) =
     (case digit_val r b of
        None \<Rightarrow> None
      | Some d \<Rightarrow> if n * r + d \<le> most then digits_from r most (n * r + d) bs else None)"

text \<open>\<open>from_str_radix\<close> of an unsigned number up to \<open>most\<close>: a sign \<open>+\<close> may come first.\<close>

definition parse_radix :: "nat \<Rightarrow> nat \<Rightarrow> str \<Rightarrow> nat option" where
  "parse_radix r most t =
     (case t of
        [] \<Rightarrow> None
      | b # bs \<Rightarrow> if b = 43 \<and> bs \<noteq> [] then digits_from r most 0 bs else digits_from r most 0 t)"

lemma digits_from_append:
  "digits_from r most n (a @ b) = Option.bind (digits_from r most n a) (\<lambda>m. digits_from r most m b)"
  by (induction r most n a rule: digits_from.induct) (auto split: option.splits)

lemma digit_val_sym: "d < r \<Longrightarrow> r \<le> 36 \<Longrightarrow> digit_val r (digit_sym d) = Some d"
  by (auto simp: digit_val_def digit_sym_def unat_byte_of Let_def)

lemma digits_from_digits:
  "2 \<le> r \<Longrightarrow> r \<le> 36 \<Longrightarrow> n \<le> most \<Longrightarrow> digits_from r most 0 (digits r n) = Some n"
proof (induction r n rule: digits.induct)
  case (1 r n)
  show ?case
  proof (cases "n < r")
    case True
    then show ?thesis using "1.prems" by (simp add: digits.simps [of r n] digit_val_sym)
  next
    case False
    then have "digits_from r most 0 (digits r (n div r)) = Some (n div r)"
      using "1.prems" by (intro "1.IH") (auto intro: le_trans [OF div_le_dividend])
    then show ?thesis
      using "1.prems" False by (simp add: digits.simps [of r n] digits_from_append digit_val_sym)
  qed
qed

lemma digits_nonempty [simp]: "digits r n \<noteq> []"
  by (simp add: digits.simps [of r n])

lemma digits_syms: "2 \<le> r \<Longrightarrow> b \<in> set (digits r n) \<Longrightarrow> \<exists>d < r. b = digit_sym d"
proof (induction r n rule: digits.induct)
  case (1 r n)
  then show ?case by (cases "n < r") (auto simp: digits.simps [of r n] intro: exI [of _ "n mod r"])
qed

lemma digits_not:
  assumes "2 \<le> r" "r \<le> 36" "unat b < 48 \<or> unat b = 58"
  shows "b \<notin> set (digits r n)"
proof
  assume "b \<in> set (digits r n)"
  then obtain d where "d < r" "b = digit_sym d" using digits_syms [OF assms(1)] by blast
  then show False using assms(2,3) by (auto simp: digit_sym_def unat_byte_of split: if_splits)
qed

lemma parse_digits:
  assumes "2 \<le> r" "r \<le> 36" "n \<le> most"
  shows "parse_radix r most (digits r n) = Some n"
proof -
  obtain b bs where b: "digits r n = b # bs" by (cases "digits r n") auto
  then have "b \<noteq> 43" using digits_not [OF assms(1,2), of 43 n] by auto
  then show ?thesis using digits_from_digits [OF assms] by (simp add: parse_radix_def b)
qed

lemma digits_length:
  assumes "2 \<le> r"
  shows "0 < k \<Longrightarrow> n < r ^ k \<Longrightarrow> length (digits r n) \<le> k"
proof (induction k arbitrary: n)
  case (Suc k)
  show ?case
  proof (cases "n < r")
    case False
    then have "n div r < r ^ k" "0 < k"
      using Suc.prems assms by (simp add: less_mult_imp_div_less mult.commute, cases k, auto)
    then show ?thesis using Suc.IH False assms by (simp add: digits.simps [of r n])
  qed (simp add: digits.simps [of r n])
qed simp

lemma digits_from_most: "digits_from r most n t = Some m \<Longrightarrow> n \<le> most \<Longrightarrow> m \<le> most"
  by (induction r most n t rule: digits_from.induct) (auto split: option.splits if_splits)

lemma parse_most: "parse_radix r most t = Some n \<Longrightarrow> n \<le> most"
  by (auto simp del: digits_from.simps simp: parse_radix_def split: list.splits if_splits intro: digits_from_most [of _ _ 0])

end
