(* ===== verification/Vt_Sgr.thy ===== *)
theory Vt_Sgr
  imports Vt_Attrs Vt_Parser Rust_Text
begin

text \<open>
  Attributes painted and read: the SGR sequences a renderer writes
  (\<open>write_sgr\<close>, \<open>write_sgr_change\<close> of \<open>fux-vt/src/cell.rs\<close>) and what a
  terminal's screen does with one (\<open>sgr\<close>, \<open>colour_after\<close> and \<open>colour_of\<close> of
  \<open>fux-vt/src/screen.rs\<close>).  The bytes written, read by the parser, take the
  pen from the attributes they start at to the ones painted.
\<close>

section \<open>Written\<close>

datatype sgr_form = Report | Paint bool

text \<open>\<open>u8::saturating_add\<close>.\<close>

definition sat8 :: "nat \<Rightarrow> nat \<Rightarrow> nat" where
  "sat8 a b = min (a + b) 255"

definition write_numbers :: "nat list \<Rightarrow> str" where
  "write_numbers ns = concat (map (\<lambda>n. 59 # digits 10 n) ns)"

text \<open>\<open>write!\<close> of one \<open>;\<close> and numbers with a separator between them, an empty slot for none.\<close>

definition numbers_with :: "byte \<Rightarrow> nat option list \<Rightarrow> str" where
  "numbers_with sep ns =
     (case map (\<lambda>n. case n of None \<Rightarrow> [] | Some n \<Rightarrow> digits 10 n) ns of
        [] \<Rightarrow> [] | t # ts \<Rightarrow> t @ concat (map (\<lambda>t. sep # t) ts))"

definition write_colour :: "color \<Rightarrow> nat \<Rightarrow> bool \<Rightarrow> str" where
  "write_colour c base colon =
     (let short = base < 50; long = sat8 base 8 in
      case c of
        Color_Default \<Rightarrow> []
      | Color_Idx i \<Rightarrow>
          if short \<and> i < 8 then 59 # digits 10 (sat8 base (unat i))
          else if short \<and> i < 16 then 59 # digits 10 (sat8 (sat8 base 52) (unat i))
          else if colon then 59 # numbers_with 58 [Some long, Some 5, Some (unat i)]
          else 59 # numbers_with 59 [Some long, Some 5, Some (unat i)]
      | Color_Rgb x \<Rightarrow>
          if colon then 59 # numbers_with 58 [Some long, Some 2, None, Some (unat (rgb_r x)), Some (unat (rgb_g x)), Some (unat (rgb_b x))]
          else 59 # numbers_with 59 [Some long, Some 2, Some (unat (rgb_r x)), Some (unat (rgb_g x)), Some (unat (rgb_b x))])"

definition sgr_flags :: "attributes \<Rightarrow> nat list" where
  "sgr_flags a = map (\<lambda>(_, on, _). on) (filter (\<lambda>(b, _). a_flags a AND b \<noteq> 0) FLAGS)"

definition write_underline_and_blink :: "attributes \<Rightarrow> sgr_form \<Rightarrow> str" where
  "write_underline_and_blink a form =
     (let st = underline_style a in
      (case st of
         Under_None \<Rightarrow> []
       | Under_Single \<Rightarrow> write_numbers [4]
       | _ \<Rightarrow> if st = Under_Double \<and> form = Report then []
              else if form = Paint False then write_numbers [4]
              else 59 # numbers_with 58 [Some 4, Some (under_number st)]))
     @ (case blink_of a of Blink_Slow \<Rightarrow> write_numbers [5] | Blink_Rapid \<Rightarrow> write_numbers [6] | Blink_None \<Rightarrow> [])"

definition write_sgr :: "attributes \<Rightarrow> sgr_form \<Rightarrow> str" where
  "write_sgr a form =
     (let flags = sgr_flags a in
      case form of
        Report \<Rightarrow>
          (let first = (if has_flag BOLD a then 1 else 0) in
           write_numbers (take first flags) @ write_underline_and_blink a form @ write_numbers (drop first flags)
           @ (if underline_style a = Under_Double then write_numbers [21] else [])
           @ write_colour (foreground a) 30 True @ write_colour (background a) 40 True
           @ write_colour (underline_color a) 50 True)
      | Paint _ \<Rightarrow>
          write_numbers flags @ write_underline_and_blink a form @ write_colour (underline_color a) 50 True
          @ write_colour (foreground a) 30 False @ write_colour (background a) 40 False)"

text \<open>The numbers that end flags that went, 22 once; and the flags to be set, again where 22 ended one that stays.\<close>

fun end_flags :: "(16 word \<times> nat \<times> nat) list \<Rightarrow> 16 word \<Rightarrow> 16 word \<Rightarrow> bool \<Rightarrow> nat list" where
  "end_flags [] gone to ended = []"
| "end_flags ((b, on, off) # rows) gone to ended =
     (if gone AND b = 0 then end_flags rows gone to ended
      else if off = 22 \<and> ended then end_flags rows gone to True
      else off # end_flags rows gone to (ended \<or> off = 22))"

fun set_again :: "(16 word \<times> nat \<times> nat) list \<Rightarrow> 16 word \<Rightarrow> 16 word \<Rightarrow> 16 word \<Rightarrow> 16 word" where
  "set_again [] gone to st = st"
| "set_again ((b, on, off) # rows) gone to st =
     (if gone AND b \<noteq> 0 \<and> off = 22 then set_again rows gone to (st OR (to AND (BOLD OR DIM)))
      else set_again rows gone to st)"

definition shown_attrs :: "attributes \<Rightarrow> attributes" where
  "shown_attrs a = a\<lparr>a_flags := a_flags a AND NOT GUARDED\<rparr>"

definition write_sgr_change :: "attributes \<Rightarrow> attributes \<Rightarrow> bool \<Rightarrow> str" where
  "write_sgr_change self was styles =
     (let to = shown_attrs self; from = shown_attrs was in
      if to = from then []
      else
        let form = Paint styles;
            gone = a_flags from AND NOT (a_flags to);
            offs = write_numbers (end_flags FLAGS gone (a_flags to) False);
            set = set_again FLAGS gone (a_flags to) (a_flags to AND NOT (a_flags from));
            ons = write_numbers (map (\<lambda>(_, on, _). on) (filter (\<lambda>(b, _). set AND b \<noteq> 0) FLAGS));
            under = (if underline_style to = Under_None \<and> underline_style from \<noteq> underline_style to then write_numbers [24]
                     else if underline_style to \<noteq> underline_style from then
                       write_underline_and_blink (with_underline_style (underline_style to) attrs_default) form
                     else []);
            blinking = (if blink_of to = Blink_None \<and> blink_of from \<noteq> blink_of to then write_numbers [25]
                     else if blink_of to \<noteq> blink_of from then
                       write_underline_and_blink (with_blink (blink_of to) attrs_default) form
                     else []);
            colours = concat (map (\<lambda>(t, w, base, colon).
                         if t = w then []
                         else if t = Color_Default then write_numbers [sat8 base 9]
                         else write_colour t base colon)
                       [(foreground to, foreground from, 30, False), (background to, background from, 40, False),
                        (underline_color to, underline_color from, 50, True)]);
            change = offs @ ons @ under @ blinking @ colours;
            full = write_numbers [0] @ write_sgr to form;
            shorter = (if length change \<le> length full then change else full)
        in [0x1b, 0x5b] @ drop 1 shorter @ [0x6d])"

section \<open>Read\<close>

text \<open>\<open>u8::try_from\<close>.\<close>

definition byte_from :: "nat \<Rightarrow> byte option" where
  "byte_from n = (if n < 256 then Some (of_nat n) else None)"

definition rgb_from :: "nat \<Rightarrow> nat \<Rightarrow> nat \<Rightarrow> color option" where
  "rgb_from r g b =
     (case (byte_from r, byte_from g, byte_from b) of
        (Some r, Some g, Some b) \<Rightarrow> Some (Color_Rgb \<lparr>rgb_r = r, rgb_g = g, rgb_b = b\<rparr>)
      | _ \<Rightarrow> None)"

definition colour_of :: "nat list \<Rightarrow> color option" where
  "colour_of rest =
     (case rest of
        kind # vs \<Rightarrow>
          if kind = 5 then (case vs of i # _ \<Rightarrow> map_option Color_Idx (byte_from i) | [] \<Rightarrow> None)
          else if kind = 2 then
            (case vs of
               [r, g, b] \<Rightarrow> rgb_from r g b
             | _ # r # g # b # _ \<Rightarrow> rgb_from r g b
             | _ \<Rightarrow> None)
          else None
      | [] \<Rightarrow> None)"

text \<open>The values taken from the parameters that follow, each of one value: those left, and what is taken.\<close>

fun values_after :: "nat \<Rightarrow> nat list list \<Rightarrow> nat list \<times> nat list list" where
  "values_after 0 groups = ([], groups)"
| "values_after (Suc n) groups =
     (case groups of
        [v] # rest \<Rightarrow> (case values_after n rest of (vs, left) \<Rightarrow> (v # vs, left))
      | _ \<Rightarrow> ([], groups))"

definition colour_after :: "nat list list \<Rightarrow> color option \<times> nat list list" where
  "colour_after groups =
     (case groups of
        [kind] # rest \<Rightarrow>
          if kind \<noteq> 2 \<and> kind \<noteq> 5 then (None, rest)
          else (case values_after (if kind = 2 then 3 else 1) rest of
                  (vs, left) \<Rightarrow> (colour_of (kind # take 3 (vs @ [0, 0, 0])), left))
      | _ \<Rightarrow> (None, groups))"

definition indexed :: "nat \<Rightarrow> nat \<Rightarrow> color" where
  "indexed n start = Color_Idx (case byte_from (n - start) of Some i \<Rightarrow> i | None \<Rightarrow> 0)"

definition set_colour :: "nat \<Rightarrow> color \<Rightarrow> attributes \<Rightarrow> attributes" where
  "set_colour selector c a =
     (if selector = 38 then with_foreground c a
      else if selector = 48 then with_background c a
      else with_underline_color c a)"

definition flags_on :: "16 word \<Rightarrow> attributes \<Rightarrow> attributes" where
  "flags_on m a = a\<lparr>a_flags := a_flags a OR m\<rparr>"
definition flags_off :: "16 word \<Rightarrow> attributes \<Rightarrow> attributes" where
  "flags_off m a = a\<lparr>a_flags := a_flags a AND NOT m\<rparr>"

text \<open>The arms of a group of one value.\<close>

definition sgr_one :: "nat \<Rightarrow> attributes \<Rightarrow> attributes" where
  "sgr_one n a =
     (if n = 0 then attrs_default
      else if n = 1 then flags_on BOLD a
      else if n = 2 then flags_on DIM a
      else if n = 3 then flags_on ITALIC a
      else if n = 7 then flags_on INVERSE a
      else if n = 8 then flags_on HIDDEN a
      else if n = 9 then flags_on STRIKEOUT a
      else if n = 22 then flags_off (BOLD OR DIM) a
      else if n = 23 then flags_off ITALIC a
      else if n = 27 then flags_off INVERSE a
      else if n = 28 then flags_off HIDDEN a
      else if n = 29 then flags_off STRIKEOUT a
      else if n = 4 then with_underline_style Under_Single a
      else if n = 21 then with_underline_style Under_Double a
      else if n = 5 then with_blink Blink_Slow a
      else if n = 6 then with_blink Blink_Rapid a
      else if n = 24 then with_underline_style Under_None a
      else if n = 25 then flags_off BLINK a
      else if n = 39 then with_foreground Color_Default a
      else if n = 49 then with_background Color_Default a
      else if n = 59 then with_underline_color Color_Default a
      else if 30 \<le> n \<and> n \<le> 37 then set_colour 38 (indexed n 30) a
      else if 40 \<le> n \<and> n \<le> 47 then set_colour 48 (indexed n 40) a
      else if 90 \<le> n \<and> n \<le> 97 then set_colour 38 (indexed n (90 - 8)) a
      else if 100 \<le> n \<and> n \<le> 107 then set_colour 48 (indexed n (100 - 8)) a
      else a)"

definition set_if :: "nat \<Rightarrow> color option \<Rightarrow> attributes \<Rightarrow> attributes" where
  "set_if selector c a = (case c of Some c \<Rightarrow> set_colour selector c a | None \<Rightarrow> a)"

lemma values_after_length: "values_after n groups = (vs, left) \<Longrightarrow> length left \<le> length groups"
  by (induction n groups arbitrary: vs left rule: values_after.induct)
    (fastforce split: list.splits prod.splits)+

lemma colour_after_length: "colour_after groups = (c, left) \<Longrightarrow> length left \<le> length groups"
  by (auto simp: colour_after_def split: list.splits prod.splits if_splits dest: values_after_length)

function sgr :: "nat list list \<Rightarrow> attributes \<Rightarrow> attributes" where
  "sgr [] a = a"
| "sgr (g # groups) a =
     (case g of
        [] \<Rightarrow> sgr groups a
      | [n] \<Rightarrow>
          if n = 38 \<or> n = 48 \<or> n = 58 then
            (case colour_after groups of (c, left) \<Rightarrow> sgr left (set_if n c a))
          else sgr groups (sgr_one n a)
      | n # v # rest \<Rightarrow>
          if n = 4 then
            sgr groups (case under_from_number v of Some st \<Rightarrow> with_underline_style st a | None \<Rightarrow> a)
          else if n = 38 \<or> n = 48 \<or> n = 58 then sgr groups (set_if n (colour_of (v # rest)) a)
          else sgr groups a)"
  by pat_completeness auto
termination
  by (relation "measure (\<lambda>(groups, a). length groups)")
    (auto dest!: colour_after_length [OF sym])

section \<open>What is written, as groups\<close>

text \<open>A group as it is written, a slot empty for none; and its values.\<close>

definition enc :: "nat option list list \<Rightarrow> str" where
  "enc gs = concat (map (\<lambda>g. 59 # numbers_with 58 g) gs)"

definition val :: "nat option \<Rightarrow> nat" where
  "val v = (case v of None \<Rightarrow> 0 | Some n \<Rightarrow> n)"

definition singles :: "nat list \<Rightarrow> nat option list list" where
  "singles ns = map (\<lambda>n. [Some n]) ns"

lemma enc_append: "enc (a @ b) = enc a @ enc b"
  by (simp add: enc_def)

lemma write_numbers_enc: "write_numbers ns = enc (singles ns)"
  by (induction ns) (simp_all add: write_numbers_def enc_def singles_def numbers_with_def)

definition colour_groups :: "color \<Rightarrow> nat \<Rightarrow> bool \<Rightarrow> nat option list list" where
  "colour_groups c base colon =
     (case c of
        Color_Default \<Rightarrow> []
      | Color_Idx i \<Rightarrow>
          if base < 50 \<and> i < 8 then [[Some (base + unat i)]]
          else if base < 50 \<and> i < 16 then [[Some (base + 52 + unat i)]]
          else if colon then [[Some (base + 8), Some 5, Some (unat i)]]
          else singles [base + 8, 5, unat i]
      | Color_Rgb x \<Rightarrow>
          if colon then [[Some (base + 8), Some 2, None, Some (unat (rgb_r x)), Some (unat (rgb_g x)), Some (unat (rgb_b x))]]
          else singles [base + 8, 2, unat (rgb_r x), unat (rgb_g x), unat (rgb_b x)])"

lemma write_colour_enc:
  assumes "base \<le> 50"
  shows "write_colour c base colon = enc (colour_groups c base colon)"
proof (cases c)
  case (Color_Idx i)
  have "i < 8 \<Longrightarrow> unat i < 8" "i < 16 \<Longrightarrow> unat i < 16" by (simp_all add: word_less_nat_alt)
  then show ?thesis using assms
    by (auto simp: Color_Idx write_colour_def colour_groups_def enc_def numbers_with_def singles_def sat8_def)
next
  case (Color_Rgb x)
  then show ?thesis using assms
    by (auto simp: write_colour_def colour_groups_def enc_def numbers_with_def singles_def sat8_def)
qed (simp add: write_colour_def colour_groups_def enc_def)

definition under_blink_groups :: "attributes \<Rightarrow> sgr_form \<Rightarrow> nat option list list" where
  "under_blink_groups a form =
     (let st = underline_style a in
      (case st of
         Under_None \<Rightarrow> []
       | Under_Single \<Rightarrow> singles [4]
       | _ \<Rightarrow> if st = Under_Double \<and> form = Report then []
              else if form = Paint False then singles [4]
              else [[Some 4, Some (under_number st)]]))
     @ (case blink_of a of Blink_Slow \<Rightarrow> singles [5] | Blink_Rapid \<Rightarrow> singles [6] | Blink_None \<Rightarrow> [])"

lemma under_blink_enc: "write_underline_and_blink a form = enc (under_blink_groups a form)"
  by (simp add: write_underline_and_blink_def under_blink_groups_def enc_append write_numbers_enc Let_def
      split: under_style.split blink.split) (simp add: enc_def)

definition sgr_groups :: "attributes \<Rightarrow> sgr_form \<Rightarrow> nat option list list" where
  "sgr_groups a form =
     (let flags = sgr_flags a in
      case form of
        Report \<Rightarrow>
          (let first = (if has_flag BOLD a then 1 else 0) in
           singles (take first flags) @ under_blink_groups a form @ singles (drop first flags)
           @ (if underline_style a = Under_Double then singles [21] else [])
           @ colour_groups (foreground a) 30 True @ colour_groups (background a) 40 True
           @ colour_groups (underline_color a) 50 True)
      | Paint _ \<Rightarrow>
          singles flags @ under_blink_groups a form @ colour_groups (underline_color a) 50 True
          @ colour_groups (foreground a) 30 False @ colour_groups (background a) 40 False)"

lemma enc_Nil [simp]: "enc [] = []"
  by (simp add: enc_def)

lemma write_sgr_enc: "write_sgr a form = enc (sgr_groups a form)"
  by (cases form) (simp_all add: write_sgr_def sgr_groups_def Let_def enc_append write_numbers_enc
      write_colour_enc under_blink_enc)

section \<open>What the groups do\<close>

text \<open>Groups that do the same whatever follows them.\<close>

definition does :: "nat option list list \<Rightarrow> (attributes \<Rightarrow> attributes) \<Rightarrow> bool" where
  "does gs f \<longleftrightarrow> (\<forall>rest a. sgr (map (map val) gs @ rest) a = sgr rest (f a))"

lemma does_Nil: "does [] (\<lambda>a. a)"
  by (simp add: does_def)

lemma does_append: "does gs f \<Longrightarrow> does hs g \<Longrightarrow> does (gs @ hs) (\<lambda>a. g (f a))"
  by (simp add: does_def)

lemma does_sgr: "does gs f \<Longrightarrow> sgr (map (map val) gs) a = f a"
  using does_def [of gs f] by (metis append_Nil2 sgr.simps(1))

lemma does_if: "(c \<Longrightarrow> does gs f) \<Longrightarrow> (\<not> c \<Longrightarrow> does hs g) \<Longrightarrow> does (if c then gs else hs) (if c then f else g)"
  by simp

definition selects :: "nat \<Rightarrow> bool" where
  "selects n \<longleftrightarrow> n = 38 \<or> n = 48 \<or> n = 58"

lemma does_number: "\<not> selects n \<Longrightarrow> does (singles [n]) (sgr_one n)"
  by (simp add: does_def singles_def val_def selects_def)

lemma does_numbers: "list_all (\<lambda>n. \<not> selects n) ns \<Longrightarrow> does (singles ns) (fold sgr_one ns)"
proof (induction ns)
  case (Cons n ns)
  then have "does (singles [n] @ singles ns) (\<lambda>a. fold sgr_one ns (sgr_one n a))"
    by (intro does_append does_number) auto
  then show ?case by (simp add: singles_def comp_def)
qed (simp add: singles_def does_Nil id_def)

definition set_any :: "nat \<Rightarrow> color \<Rightarrow> attributes \<Rightarrow> attributes" where
  "set_any selector c a = (if c = Color_Default then a else set_colour selector c a)"

lemma byte_from_unat [simp]: "byte_from (unat (b :: byte)) = Some b"
  using byte_up(3) [of b] by (simp add: byte_from_def)

lemma sgr_one_colours:
  "30 \<le> n \<Longrightarrow> n \<le> 37 \<Longrightarrow> sgr_one n a = set_colour 38 (indexed n 30) a"
  "40 \<le> n \<Longrightarrow> n \<le> 47 \<Longrightarrow> sgr_one n a = set_colour 48 (indexed n 40) a"
  "90 \<le> n \<Longrightarrow> n \<le> 97 \<Longrightarrow> sgr_one n a = set_colour 38 (indexed n 82) a"
  "100 \<le> n \<Longrightarrow> n \<le> 107 \<Longrightarrow> sgr_one n a = set_colour 48 (indexed n 92) a"
  by (simp_all add: sgr_one_def)

lemma does_colour:
  assumes "base \<in> {30, 40, 50}"
  shows "does (colour_groups c base colon) (set_any (base + 8) c)"
proof (cases c)
  case Color_Default
  then show ?thesis by (simp add: colour_groups_def set_any_def does_def)
next
  case (Color_Idx i)
  have i: "i < 8 \<Longrightarrow> unat i < 8" "i < 16 \<Longrightarrow> unat i < 16" "\<not> i < 8 \<Longrightarrow> 8 \<le> unat i" for i :: byte
    by (simp_all add: word_less_nat_alt)
  have one: "sgr_one (base + unat i) a = set_any (base + 8) c a" if "base < 50" "i < 8" for a
    using assms i(1) [OF that(2)] that(1) by (elim insertE emptyE) (simp_all add: sgr_one_colours set_any_def Color_Idx indexed_def)
  have two: "sgr_one (base + 52 + unat i) a = set_any (base + 8) c a" if "base < 50" "\<not> i < 8" "i < 16" for a
    using assms i(2) [OF that(3)] i(3) [OF that(2)] that(1)
    by (elim insertE emptyE) (simp_all add: sgr_one_colours set_any_def Color_Idx indexed_def)
  have no: "\<not> selects (base + unat i)" if "base < 50" "i < 8"
    using assms i(1) [OF that(2)] that(1) by (auto simp: selects_def)
  have no2: "\<not> selects (base + 52 + unat i)" if "base < 50" "\<not> i < 8" "i < 16"
    using assms i(2) [OF that(3)] i(3) [OF that(2)] that(1) by (auto simp: selects_def)
  consider (a) "base < 50" "i < 8" | (b) "base < 50" "\<not> i < 8" "i < 16" | (c) "\<not> (base < 50 \<and> i < 16)"
    by fastforce
  then show ?thesis
  proof cases
    case a
    show ?thesis using one [OF a] does_number [OF no [OF a]] a by (simp add: does_def Color_Idx colour_groups_def singles_def)
  next
    case b
    show ?thesis using two [OF b] does_number [OF no2 [OF b]] b by (simp add: does_def Color_Idx colour_groups_def singles_def)
  next
    case c
    then have "\<not> (base < 50 \<and> i < 8)" using i by (auto simp: word_less_nat_alt)
    then show ?thesis using c assms
      by (auto simp: does_def Color_Idx colour_groups_def singles_def val_def set_any_def colour_of_def set_if_def
          colour_after_def numeral_2_eq_2 numeral_3_eq_3)
  qed
next
  case (Color_Rgb x)
  then show ?thesis using assms
    by (cases x) (auto simp: does_def colour_groups_def singles_def val_def set_any_def colour_of_def set_if_def rgb_from_def
        colour_after_def numeral_3_eq_3)
qed

section \<open>The flags, bit by bit\<close>

lemma flag_words:
  "BOLD = push_bit 0 1" "DIM = push_bit 1 1" "ITALIC = push_bit 2 1" "GUARDED = push_bit 3 1"
  "INVERSE = push_bit 4 1" "SLOW_BLINK = push_bit 5 1" "RAPID_BLINK = push_bit 6 1"
  "HIDDEN = push_bit 7 1" "STRIKEOUT = push_bit 8 1" "UNDERLINE = push_bit 9 (mask 3)"
  by (simp_all add: BOLD_def DIM_def ITALIC_def GUARDED_def INVERSE_def SLOW_BLINK_def RAPID_BLINK_def
      HIDDEN_def STRIKEOUT_def UNDERLINE_def UNDERLINE_SHIFT_def mask_eq_decr_exp)

lemma flag_bits:
  "bit BOLD k \<longleftrightarrow> k = 0" "bit DIM k \<longleftrightarrow> k = 1" "bit ITALIC k \<longleftrightarrow> k = 2" "bit GUARDED k \<longleftrightarrow> k = 3"
  "bit INVERSE k \<longleftrightarrow> k = 4" "bit SLOW_BLINK k \<longleftrightarrow> k = 5" "bit RAPID_BLINK k \<longleftrightarrow> k = 6"
  "bit HIDDEN k \<longleftrightarrow> k = 7" "bit STRIKEOUT k \<longleftrightarrow> k = 8" "bit UNDERLINE k \<longleftrightarrow> 9 \<le> k \<and> k < 12"
  unfolding flag_words bit_one_at by (auto simp: bit_simps)

lemma flag_tests:
  "w AND BOLD = 0 \<longleftrightarrow> \<not> bit w 0" "w AND DIM = 0 \<longleftrightarrow> \<not> bit w 1" "w AND ITALIC = 0 \<longleftrightarrow> \<not> bit w 2"
  "w AND INVERSE = 0 \<longleftrightarrow> \<not> bit w 4" "w AND HIDDEN = 0 \<longleftrightarrow> \<not> bit w 7" "w AND STRIKEOUT = 0 \<longleftrightarrow> \<not> bit w 8"
  unfolding flag_words by (rule flag_bit)+

text \<open>The flags of attributes as a whole: no bit past the twelve, an underline style there is, one blink at most.\<close>

definition flags_ok :: "16 word \<Rightarrow> bool" where
  "flags_ok w \<longleftrightarrow> w < 2 ^ 12 \<and> \<not> bit w 3 \<and> unat (drop_bit 9 w) < 6 \<and> \<not> (bit w 5 \<and> bit w 6)"

definition pen_ok :: "attributes \<Rightarrow> bool" where
  "pen_ok a \<longleftrightarrow> colours_ok a \<and> flags_ok (a_flags a)"

lemma flags_ok_bits: "flags_ok w \<Longrightarrow> bit w k \<Longrightarrow> k < 12 \<and> k \<noteq> 3"
  using small_bits [of w 12 k] by (cases "12 \<le> k") (auto simp: flags_ok_def)

lemma under_numbers:
  "n < 6 \<Longrightarrow> \<exists>st. under_from_number n = Some st \<and> under_number st = n"
proof -
  assume "n < 6"
  then have "n \<in> {0, 1, 2, 3, 4, 5}" by auto
  then show ?thesis by (elim insertE emptyE) (simp_all add: under_from_number_def)
qed

lemma under_style_bits:
  assumes "flags_ok (a_flags a)"
  shows "bit (of_nat (under_number (underline_style a)) :: 16 word) k \<longleftrightarrow> k < 3 \<and> bit (a_flags a) (9 + k)"
proof -
  have "drop_bit 9 (a_flags a AND UNDERLINE) = drop_bit 9 (a_flags a)"
    by (intro bit_word_eqI) (auto simp: bit_simps flag_bits dest: flags_ok_bits [OF assms])
  then have "of_nat (under_number (underline_style a)) = drop_bit 9 (a_flags a)"
    using assms under_numbers [of "unat (drop_bit 9 (a_flags a))"]
    by (auto simp: underline_style_def UNDERLINE_SHIFT_def flags_ok_def)
  then show ?thesis using flags_ok_bits [OF assms, of "9 + k"] by (auto simp: bit_simps)
qed

lemma bit_if: "bit (if c then x else y) k \<longleftrightarrow> (if c then bit x k else bit y k)" for x y :: "'a :: len word"
  by simp

text \<open>What each change makes of the flags.\<close>

lemma flags_after:
  "a_flags (flags_on m a) = a_flags a OR m" "a_flags (flags_off m a) = a_flags a AND NOT m"
  "a_flags (set_any n c a) = a_flags a" "a_flags (with_foreground c a) = a_flags a"
  "a_flags (with_background c a) = a_flags a" "a_flags (with_underline_color c a) = a_flags a"
  by (simp_all add: flags_on_def flags_off_def set_any_def set_colour_def with_foreground_def
      with_background_def with_underline_color_def)

lemma under_style_after:
  assumes "flags_ok (a_flags t)"
  shows "bit (a_flags (with_underline_style (underline_style t) a)) k \<longleftrightarrow>
    (if 9 \<le> k \<and> k < 12 then bit (a_flags t) k else bit (a_flags a) k)"
  using under_style_bits [OF assms, of "k - 9"]
  by (auto simp: with_underline_style_def UNDERLINE_SHIFT_def bit_simps flag_bits dest: bit_imp_le_length)

lemma blink_bits: "bit BLINK k \<longleftrightarrow> k = 5 \<or> k = 6"
  by (auto simp: BLINK_def bit_or_iff flag_bits)

lemma blink_cases:
  assumes "flags_ok w"
  shows "w AND BLINK = 0 \<longleftrightarrow> \<not> bit w 5 \<and> \<not> bit w 6" "w AND BLINK = RAPID_BLINK \<longleftrightarrow> bit w 6"
proof -
  have b: "bit (w AND BLINK) k \<longleftrightarrow> bit w k \<and> (k = 5 \<or> k = 6)" for k
    by (auto simp: bit_and_iff blink_bits)
  show "w AND BLINK = 0 \<longleftrightarrow> \<not> bit w 5 \<and> \<not> bit w 6"
  proof
    assume "w AND BLINK = 0"
    then show "\<not> bit w 5 \<and> \<not> bit w 6" using b [of 5] b [of 6] by simp
  next
    assume "\<not> bit w 5 \<and> \<not> bit w 6"
    then show "w AND BLINK = 0" by (intro bit_word_eqI) (auto simp: b)
  qed
  show "w AND BLINK = RAPID_BLINK \<longleftrightarrow> bit w 6"
  proof
    assume "w AND BLINK = RAPID_BLINK"
    then show "bit w 6" using b [of 6] by (simp add: flag_bits)
  next
    assume "bit w 6"
    then show "w AND BLINK = RAPID_BLINK"
      using assms by (intro bit_word_eqI) (auto simp: b flag_bits flags_ok_def)
  qed
qed

lemma blink_after:
  assumes "flags_ok (a_flags t)"
  shows "bit (a_flags (with_blink (blink_of t) a)) k \<longleftrightarrow>
    (if k = 5 \<or> k = 6 then bit (a_flags t) k else bit (a_flags a) k)"
proof -
  have "a_flags (with_blink (blink_of t) a) = (a_flags a AND NOT BLINK) OR
      (if bit (a_flags t) 6 then RAPID_BLINK else if bit (a_flags t) 5 then SLOW_BLINK else 0)"
    using assms by (auto simp: with_blink_def with_flag_def blink_of_def Let_def blink_cases [OF assms] flags_ok_def)
  then show ?thesis using assms
    by (auto simp: bit_or_iff bit_and_iff bit_not_iff blink_bits flag_bits flags_ok_def bit_if dest: bit_imp_le_length)
qed

text \<open>Pens are the same if their colours and their bits are.\<close>

lemma pen_eqI:
  assumes "colours_ok a" "colours_ok b" "foreground a = foreground b" "background a = background b"
    "underline_color a = underline_color b" "\<And>k. bit (a_flags a) k = bit (a_flags b) k"
  shows "a = b"
proof -
  have "a_flags a = a_flags b" using assms(6) by (intro bit_eqI) auto
  then show ?thesis using assms(1-5) by (cases a, cases b) (auto simp: colours_ok_def)
qed

section \<open>What a change does\<close>

text \<open>A row's numbers set and clear its flag, and 22 bold and dim both.\<close>

definition row_ok :: "16 word \<times> nat \<times> nat \<Rightarrow> bool" where
  "row_ok row \<longleftrightarrow> (case row of (b, on, off) \<Rightarrow>
     sgr_one on = flags_on b \<and> sgr_one off = flags_off (if off = 22 then BOLD OR DIM else b)
     \<and> \<not> selects on \<and> \<not> selects off)"

lemma rows_ok: "list_all row_ok FLAGS"
  by (simp add: FLAGS_def row_ok_def selects_def sgr_one_def fun_eq_iff)

lemma flags_on_on: "flags_on m (flags_on m' a) = flags_on (m' OR m) a"
  by (simp add: flags_on_def or.assoc)

lemma flags_off_off: "flags_off m (flags_off m' a) = flags_off (m' OR m) a"
  by (simp add: flags_off_def bit.de_Morgan_disj and.assoc)

lemma flags_nothing: "flags_on 0 = id" "flags_off 0 = id"
  by (simp_all add: flags_on_def flags_off_def fun_eq_iff)

lemma does_Cons: "\<not> selects n \<Longrightarrow> does (singles ns) f \<Longrightarrow> does (singles (n # ns)) (\<lambda>a. f (sgr_one n a))"
  using does_append [OF does_number, of n "singles ns" f] by (simp add: singles_def)

fun on_mask :: "16 word \<Rightarrow> (16 word \<times> nat \<times> nat) list \<Rightarrow> 16 word" where
  "on_mask m [] = 0"
| "on_mask m ((b, on, off) # rows) = (if m AND b = 0 then 0 else b) OR on_mask m rows"

lemma does_ons:
  "list_all row_ok rows \<Longrightarrow>
   does (singles (map (\<lambda>(_, on, _). on) (filter (\<lambda>(b, _). m AND b \<noteq> 0) rows))) (flags_on (on_mask m rows))"
proof (induction rows)
  case (Cons row rows)
  obtain b on off where row: "row = (b, on, off)" by (cases row)
  have ok: "sgr_one on = flags_on b" "\<not> selects on" using Cons.prems by (auto simp: row row_ok_def)
  have "does (singles (map (\<lambda>(_, on, _). on) (filter (\<lambda>(b, _). m AND b \<noteq> 0) rows))) (flags_on (on_mask m rows))"
    using Cons by simp
  then show ?case using does_Cons [OF ok(2)] by (fastforce simp: row ok(1) flags_on_on)
qed (simp add: singles_def flags_nothing does_Nil id_def)

fun off_mask :: "(16 word \<times> nat \<times> nat) list \<Rightarrow> 16 word \<Rightarrow> bool \<Rightarrow> 16 word" where
  "off_mask [] gone ended = 0"
| "off_mask ((b, on, off) # rows) gone ended =
     (if gone AND b = 0 then off_mask rows gone ended
      else if off = 22 \<and> ended then off_mask rows gone True
      else (if off = 22 then BOLD OR DIM else b) OR off_mask rows gone (ended \<or> off = 22))"

lemma does_offs:
  "list_all row_ok rows \<Longrightarrow> does (singles (end_flags rows gone to ended)) (flags_off (off_mask rows gone ended))"
proof (induction rows arbitrary: ended)
  case (Cons row rows)
  obtain b on off where row: "row = (b, on, off)" by (cases row)
  have ok: "sgr_one off = flags_off (if off = 22 then BOLD OR DIM else b)" "\<not> selects off"
    using Cons.prems by (auto simp: row row_ok_def)
  have IH: "does (singles (end_flags rows gone to e)) (flags_off (off_mask rows gone e))" for e
    using Cons by simp
  show ?case using does_Cons [OF ok(2) IH] by (simp add: row IH ok(1) flags_off_off)
qed (simp add: singles_def flags_nothing does_Nil id_def)

lemma on_mask_bits: "bit (on_mask m FLAGS) k \<longleftrightarrow> bit m k \<and> k \<in> {0, 1, 2, 4, 7, 8}"
  by (cases "k = 0") (auto simp: FLAGS_def bit_or_iff bit_if flag_tests flag_bits)

lemma off_mask_bits:
  "bit (off_mask FLAGS gone False) k \<longleftrightarrow>
     bit gone k \<and> k \<in> {2, 4, 7, 8} \<or> (bit gone 0 \<or> bit gone 1) \<and> k \<in> {0, 1}"
  by (cases "bit gone 0"; cases "bit gone 1") (auto simp: FLAGS_def bit_or_iff bit_if flag_tests flag_bits)

lemma set_again_bits:
  "bit (set_again FLAGS gone to st) k \<longleftrightarrow>
     bit st k \<or> (bit gone 0 \<or> bit gone 1) \<and> bit to k \<and> k \<in> {0, 1}"
  by (cases "bit gone 0"; cases "bit gone 1") (auto simp: FLAGS_def bit_or_iff bit_and_iff bit_if flag_tests flag_bits)

text \<open>What no change of flags changes, and what each change of colour sets.\<close>

lemma colours_after [simp]:
  "foreground (flags_on m a) = foreground a" "foreground (flags_off m a) = foreground a"
  "foreground (with_underline_style st a) = foreground a" "foreground (with_blink b a) = foreground a"
  "background (flags_on m a) = background a" "background (flags_off m a) = background a"
  "background (with_underline_style st a) = background a" "background (with_blink b a) = background a"
  "underline_color (flags_on m a) = underline_color a" "underline_color (flags_off m a) = underline_color a"
  "underline_color (with_underline_style st a) = underline_color a" "underline_color (with_blink b a) = underline_color a"
  "foreground (with_foreground c a) = c" "background (with_foreground c a) = background a"
  "underline_color (with_foreground c a) = underline_color a"
  "foreground (with_background c a) = foreground a" "background (with_background c a) = c"
  "underline_color (with_background c a) = underline_color a"
  "foreground (with_underline_color c a) = foreground a" "background (with_underline_color c a) = background a"
  "underline_color (with_underline_color c a) = c"
  by (simp_all add: foreground_def background_def underline_color_def flags_on_def flags_off_def with_underline_style_def
      with_blink_def with_flag_def with_foreground_def with_background_def with_underline_color_def)

lemma colours_ok_after [simp]:
  "colours_ok (flags_on m a) = colours_ok a" "colours_ok (flags_off m a) = colours_ok a"
  "colours_ok (with_underline_style st a) = colours_ok a" "colours_ok (with_blink b a) = colours_ok a"
  by (simp_all add: colours_ok_def) (simp_all add: flags_on_def flags_off_def with_underline_style_def with_blink_def with_flag_def)

lemma colours_ok_set [intro]:
  "colours_ok a \<Longrightarrow> colours_ok (with_foreground c a)" "colours_ok a \<Longrightarrow> colours_ok (with_background c a)"
  "colours_ok a \<Longrightarrow> colours_ok (with_underline_color c a)"
  by (simp_all add: colours_ok_def) (simp_all add: with_foreground_def with_background_def with_underline_color_def)

lemma set_any_eq:
  "set_any 38 c a = (if c = Color_Default then a else with_foreground c a)"
  "set_any 48 c a = (if c = Color_Default then a else with_background c a)"
  "set_any 58 c a = (if c = Color_Default then a else with_underline_color c a)"
  by (simp_all add: set_any_def set_colour_def)

lemma under_number_back [simp]: "under_from_number (under_number st) = Some st"
  by (cases st) (simp_all add: under_from_number_def)

lemma alone:
  "underline_style (with_underline_style st attrs_default) = st" "blink_of (with_underline_style st attrs_default) = Blink_None"
  "underline_style (with_blink b attrs_default) = Under_None" "blink_of (with_blink b attrs_default) = b"
proof -
  note defs = underline_style_def with_underline_style_def blink_of_def with_blink_def with_flag_def attrs_default_def
    UNDERLINE_def UNDERLINE_SHIFT_def BLINK_def SLOW_BLINK_def RAPID_BLINK_def under_from_number_def
  show "underline_style (with_underline_style st attrs_default) = st" by (cases st) (simp_all add: defs)
  show "blink_of (with_underline_style st attrs_default) = Blink_None" by (cases st) (simp_all add: defs)
  show "underline_style (with_blink b attrs_default) = Under_None" by (cases b) (simp_all add: defs)
  show "blink_of (with_blink b attrs_default) = b" by (cases b) (simp_all add: defs)
qed

definition under_set :: "under_style \<Rightarrow> attributes \<Rightarrow> attributes" where
  "under_set st a = (if st = Under_None then a else with_underline_style st a)"
definition blink_set :: "blink \<Rightarrow> attributes \<Rightarrow> attributes" where
  "blink_set b a = (if b = Blink_None then a else with_blink b a)"

lemma does_blink: "does (case b of Blink_Slow \<Rightarrow> singles [5] | Blink_Rapid \<Rightarrow> singles [6] | Blink_None \<Rightarrow> []) (blink_set b)"
  by (cases b) (simp_all add: does_def singles_def val_def blink_set_def sgr_one_def)

lemma does_under_blink:
  "does (under_blink_groups a (Paint True)) (\<lambda>x. blink_set (blink_of a) (under_set (underline_style a) x))"
  unfolding under_blink_groups_def Let_def
  by (rule does_append [OF _ does_blink])
    (cases "underline_style a"; simp add: does_def singles_def val_def under_set_def sgr_one_def under_from_number_def)

lemma does_report_blink:
  "does (under_blink_groups a Report) (\<lambda>x. blink_set (blink_of a)
     (under_set (if underline_style a = Under_Double then Under_None else underline_style a) x))"
  unfolding under_blink_groups_def Let_def
  by (rule does_append [OF _ does_blink])
    (cases "underline_style a"; simp add: does_def singles_def val_def under_set_def sgr_one_def under_from_number_def)

lemma does_reset: "does (singles [0]) (\<lambda>_. attrs_default)"
  using does_number [of 0] by (simp add: selects_def sgr_one_def [abs_def])

lemma default_ok [simp]:
  "colours_ok attrs_default" "foreground attrs_default = Color_Default" "background attrs_default = Color_Default"
  "underline_color attrs_default = Color_Default" "a_flags attrs_default = 0"
  by (simp_all add: colours_ok_def foreground_def background_def underline_color_def attrs_default_def)

lemma under_set_after:
  assumes "flags_ok (a_flags t)"
  shows "bit (a_flags (under_set (underline_style t) a)) k \<longleftrightarrow>
    (if underline_style t \<noteq> Under_None \<and> 9 \<le> k \<and> k < 12 then bit (a_flags t) k else bit (a_flags a) k)"
  by (simp add: under_set_def under_style_after [OF assms])

lemma blink_set_after:
  assumes "flags_ok (a_flags t)"
  shows "bit (a_flags (blink_set (blink_of t) a)) k \<longleftrightarrow>
    (if blink_of t \<noteq> Blink_None \<and> (k = 5 \<or> k = 6) then bit (a_flags t) k else bit (a_flags a) k)"
  by (simp add: blink_set_def blink_after [OF assms])

lemma under_none_bits:
  assumes "flags_ok (a_flags t)" "underline_style t = Under_None" "9 \<le> k" "k < 12"
  shows "\<not> bit (a_flags t) k"
  using under_style_bits [OF assms(1), of "k - 9"] assms(2-4) by auto

lemma blink_none_bits:
  assumes "flags_ok (a_flags t)" "blink_of t = Blink_None" "k = 5 \<or> k = 6"
  shows "\<not> bit (a_flags t) k"
  using assms by (auto simp: blink_of_def Let_def blink_cases [OF assms(1)] split: if_splits)

lemma under_set_none [simp]: "under_set Under_None a = a"
  by (simp add: under_set_def)

lemma sets_simps [simp]:
  "colours_ok (under_set st a) = colours_ok a" "colours_ok (blink_set b a) = colours_ok a"
  "foreground (under_set st a) = foreground a" "foreground (blink_set b a) = foreground a"
  "background (under_set st a) = background a" "background (blink_set b a) = background a"
  "underline_color (under_set st a) = underline_color a" "underline_color (blink_set b a) = underline_color a"
  by (simp_all add: under_set_def blink_set_def)

lemma set_any_simps [simp]:
  "colours_ok a \<Longrightarrow> n \<in> {38, 48, 58} \<Longrightarrow> colours_ok (set_any n c a)"
  "foreground (set_any 38 c a) = (if c = Color_Default then foreground a else c)"
  "foreground (set_any 48 c a) = foreground a" "foreground (set_any 58 c a) = foreground a"
  "background (set_any 48 c a) = (if c = Color_Default then background a else c)"
  "background (set_any 38 c a) = background a" "background (set_any 58 c a) = background a"
  "underline_color (set_any 58 c a) = (if c = Color_Default then underline_color a else c)"
  "underline_color (set_any 38 c a) = underline_color a" "underline_color (set_any 48 c a) = underline_color a"
  by (auto simp: set_any_eq)

lemma flag_kinds:
  assumes "flags_ok w" "bit w k"
  shows "k \<in> {0, 1, 2, 4, 7, 8} \<or> (k = 5 \<or> k = 6) \<or> 9 \<le> k \<and> k < 12"
  using flags_ok_bits [OF assms] by simp presburger

lemma paint_sets:
  assumes "pen_ok a"
  shows "sgr (map (map val) (singles [0] @ sgr_groups a (Paint True))) b = a"
proof -
  have f: "flags_ok (a_flags a)" and c: "colours_ok a" using assms by (auto simp: pen_ok_def)
  let ?f = "\<lambda>x. set_any 48 (background a) (set_any 38 (foreground a) (set_any 58 (underline_color a)
      (blink_set (blink_of a) (under_set (underline_style a) (flags_on (on_mask (a_flags a) FLAGS) x)))))"
  have "does (sgr_groups a (Paint True)) ?f"
    unfolding sgr_groups_def Let_def sgr_flags_def sgr_form.case
    using does_append [OF does_ons [OF rows_ok] does_append [OF does_under_blink
      does_append [OF does_colour [of 50] does_append [OF does_colour [of 30] does_colour [of 40]]]]]
    by simp
  then have "sgr (map (map val) (singles [0] @ sgr_groups a (Paint True))) b = ?f attrs_default"
    using does_sgr [OF does_append [OF does_reset]] by blast
  also have "?f attrs_default = a"
  proof (rule pen_eqI)
    fix k
    show "bit (a_flags (?f attrs_default)) k = bit (a_flags a) k"
      using under_none_bits [OF f, of k] blink_none_bits [OF f, of k] flag_kinds [OF f, of k]
      by (auto simp: flags_after blink_set_after [OF f] under_set_after [OF f] on_mask_bits bit_or_iff)
  qed (use c in simp_all)
  finally show ?thesis .
qed

lemma report_sets:
  assumes "pen_ok a"
  shows "sgr (map (map val) (singles [0] @ sgr_groups a Report)) b = a"
proof -
  have f: "flags_ok (a_flags a)" and c: "colours_ok a" using assms by (auto simp: pen_ok_def)
  let ?first = "if has_flag BOLD a then 1 else 0 :: nat"
  let ?bold = "flags_on (on_mask (a_flags a) [hd FLAGS])"
  let ?rest = "flags_on (on_mask (a_flags a) (tl FLAGS))"
  let ?st = "underline_style a"
  let ?f = "\<lambda>x. set_any 58 (underline_color a) (set_any 48 (background a) (set_any 38 (foreground a)
      ((if ?st = Under_Double then with_underline_style Under_Double else (\<lambda>x. x))
      (?rest (blink_set (blink_of a) (under_set (if ?st = Under_Double then Under_None else ?st) (?bold x)))))))"
  have "take ?first (sgr_flags a) = map (\<lambda>(_, on, _). on) (filter (\<lambda>(b, _). a_flags a AND b \<noteq> 0) [hd FLAGS])"
    "drop ?first (sgr_flags a) = map (\<lambda>(_, on, _). on) (filter (\<lambda>(b, _). a_flags a AND b \<noteq> 0) (tl FLAGS))"
    by (simp_all add: sgr_flags_def FLAGS_def has_flag_def)
  moreover have "list_all row_ok [hd FLAGS]" "list_all row_ok (tl FLAGS)"
    using rows_ok by (simp_all add: FLAGS_def)
  ultimately have parts: "does (singles (take ?first (sgr_flags a))) ?bold" "does (singles (drop ?first (sgr_flags a))) ?rest"
    using does_ons by presburger+
  have "does (if ?st = Under_Double then singles [21] else [])
      (if ?st = Under_Double then with_underline_style Under_Double else (\<lambda>x. x))"
    using does_number [of 21] by (intro does_if does_Nil) (simp add: selects_def sgr_one_def [abs_def])
  from does_append [OF parts(1) does_append [OF does_report_blink does_append [OF parts(2) does_append [OF this
      does_append [OF does_colour [of 30] does_append [OF does_colour [of 40] does_colour [of 50]]]]]]]
  have "does (sgr_groups a Report) ?f"
    unfolding sgr_groups_def Let_def sgr_form.case by simp
  then have "sgr (map (map val) (singles [0] @ sgr_groups a Report)) b = ?f attrs_default"
    using does_sgr [OF does_append [OF does_reset]] by blast
  also have "?f attrs_default = a"
  proof (rule pen_eqI)
    fix k
    have bold: "bit (on_mask (a_flags a) [hd FLAGS] OR on_mask (a_flags a) (tl FLAGS)) k \<longleftrightarrow> bit (on_mask (a_flags a) FLAGS) k"
      by (simp add: FLAGS_def)
    have double: "bit (a_flags (with_underline_style Under_Double x)) k =
        (if 9 \<le> k \<and> k < 12 then bit (a_flags a) k else bit (a_flags x) k)" if "?st = Under_Double" for x
      using under_style_after [OF f, of x k] that by simp
    show "bit (a_flags (?f attrs_default)) k = bit (a_flags a) k"
      using under_none_bits [OF f, of k] blink_none_bits [OF f, of k] flag_kinds [OF f, of k] bold
      by (cases "?st = Under_Double")
        (auto simp: flags_after blink_set_after [OF f] under_set_after [OF f] on_mask_bits bit_or_iff double)
  qed (use c in simp_all)
  finally show ?thesis .
qed

text \<open>The change, as groups.\<close>

definition under_change :: "attributes \<Rightarrow> attributes \<Rightarrow> bool \<Rightarrow> nat option list list" where
  "under_change to from styles =
     (if underline_style to = Under_None \<and> underline_style from \<noteq> underline_style to then singles [24]
      else if underline_style to \<noteq> underline_style from then
        under_blink_groups (with_underline_style (underline_style to) attrs_default) (Paint styles)
      else [])"

definition blink_change :: "attributes \<Rightarrow> attributes \<Rightarrow> bool \<Rightarrow> nat option list list" where
  "blink_change to from styles =
     (if blink_of to = Blink_None \<and> blink_of from \<noteq> blink_of to then singles [25]
      else if blink_of to \<noteq> blink_of from then
        under_blink_groups (with_blink (blink_of to) attrs_default) (Paint styles)
      else [])"

definition colour_change :: "color \<Rightarrow> color \<Rightarrow> nat \<Rightarrow> bool \<Rightarrow> nat option list list" where
  "colour_change t w base colon =
     (if t = w then [] else if t = Color_Default then singles [base + 9] else colour_groups t base colon)"

definition change_groups :: "attributes \<Rightarrow> attributes \<Rightarrow> bool \<Rightarrow> nat option list list" where
  "change_groups to from styles =
     (let gone = a_flags from AND NOT (a_flags to);
          set = set_again FLAGS gone (a_flags to) (a_flags to AND NOT (a_flags from))
      in singles (end_flags FLAGS gone (a_flags to) False)
       @ singles (map (\<lambda>(_, on, _). on) (filter (\<lambda>(b, _). set AND b \<noteq> 0) FLAGS))
       @ under_change to from styles @ blink_change to from styles
       @ colour_change (foreground to) (foreground from) 30 False
       @ colour_change (background to) (background from) 40 False
       @ colour_change (underline_color to) (underline_color from) 50 True)"

definition chosen_groups :: "attributes \<Rightarrow> attributes \<Rightarrow> bool \<Rightarrow> nat option list list" where
  "chosen_groups to from styles =
     (let change = change_groups to from styles; full = singles [0] @ sgr_groups to (Paint styles)
      in if length (enc change) \<le> length (enc full) then change else full)"

lemma change_parts_enc:
  "(if underline_style to = Under_None \<and> underline_style from \<noteq> underline_style to then write_numbers [24]
    else if underline_style to \<noteq> underline_style from then
      write_underline_and_blink (with_underline_style (underline_style to) attrs_default) (Paint styles)
    else []) = enc (under_change to from styles)"
  "(if blink_of to = Blink_None \<and> blink_of from \<noteq> blink_of to then write_numbers [25]
    else if blink_of to \<noteq> blink_of from then
      write_underline_and_blink (with_blink (blink_of to) attrs_default) (Paint styles)
    else []) = enc (blink_change to from styles)"
  "base \<le> 50 \<Longrightarrow> (if t = w then [] else if t = Color_Default then write_numbers [sat8 base 9] else write_colour t base colon)
    = enc (colour_change t w base colon)"
  by (simp_all add: under_change_def blink_change_def colour_change_def write_numbers_enc under_blink_enc write_colour_enc sat8_def)

lemma change_enc:
  "write_sgr_change self was styles =
     (if shown_attrs self = shown_attrs was then []
      else [0x1b, 0x5b] @ drop 1 (enc (chosen_groups (shown_attrs self) (shown_attrs was) styles)) @ [0x6d])"
proof -
  have bases: "(30 :: nat) \<le> 50" "(40 :: nat) \<le> 50" "(50 :: nat) \<le> 50" by simp_all
  show ?thesis
    unfolding write_sgr_change_def Let_def list.map prod.case concat.simps
    unfolding change_parts_enc(1,2)
      change_parts_enc(3) [OF bases(1)] change_parts_enc(3) [OF bases(2)] change_parts_enc(3) [OF bases(3)]
    unfolding write_numbers_enc write_sgr_enc chosen_groups_def change_groups_def Let_def append_Nil2
    by (simp only: if_distrib [of enc] enc_append)
qed

lemma blink_off: "flags_off BLINK = with_blink Blink_None"
  by (simp add: flags_off_def with_blink_def with_flag_def fun_eq_iff)

lemma does_plain:
  "does (singles [39]) (with_foreground Color_Default)" "does (singles [49]) (with_background Color_Default)"
  "does (singles [59]) (with_underline_color Color_Default)" "does (singles [24]) (with_underline_style Under_None)"
  "does (singles [25]) (with_blink Blink_None)"
  by (simp_all add: does_def singles_def val_def sgr_one_def blink_off)

lemma does_under_change:
  "does (under_change to from True) (if underline_style to = underline_style from then (\<lambda>a. a) else with_underline_style (underline_style to))"
  using does_under_blink [of "with_underline_style (underline_style to) attrs_default"] does_plain(4)
  by (cases "underline_style to = Under_None")
    (auto simp: under_change_def alone does_Nil blink_set_def under_set_def cong: if_cong)

lemma does_blink_change:
  "does (blink_change to from True) (if blink_of to = blink_of from then (\<lambda>a. a) else with_blink (blink_of to))"
  using does_under_blink [of "with_blink (blink_of to) attrs_default"] does_plain(5)
  by (cases "blink_of to = Blink_None") (auto simp: blink_change_def alone does_Nil blink_set_def cong: if_cong)

lemma set_any_some:
  assumes "c \<noteq> Color_Default"
  shows "set_any 38 c = with_foreground c" "set_any 48 c = with_background c" "set_any 58 c = with_underline_color c"
  using assms by (simp_all add: fun_eq_iff set_any_eq)

lemma does_colour_change:
  "does (colour_change t w 30 False) (if t = w then (\<lambda>a. a) else with_foreground t)"
  "does (colour_change t w 40 False) (if t = w then (\<lambda>a. a) else with_background t)"
  "does (colour_change t w 50 True) (if t = w then (\<lambda>a. a) else with_underline_color t)"
  using does_colour [of 30 t False] does_colour [of 40 t False] does_colour [of 50 t True] does_plain
  by (cases "t = Color_Default"; simp add: colour_change_def does_Nil set_any_some)+

lemma if_at: "(if c then f else g) x = (if c then f x else g x)"
  by simp

lemma same_under_bits:
  assumes "flags_ok (a_flags a)" "flags_ok (a_flags b)" "underline_style a = underline_style b" "9 \<le> k" "k < 12"
  shows "bit (a_flags a) k = bit (a_flags b) k"
  using under_style_bits [OF assms(1), of "k - 9"] under_style_bits [OF assms(2), of "k - 9"] assms(3-5)
    less_diff_conv2 [OF assms(4), of 3] by simp

lemma same_blink_bits:
  assumes "flags_ok (a_flags a)" "flags_ok (a_flags b)" "blink_of a = blink_of b" "k = 5 \<or> k = 6"
  shows "bit (a_flags a) k = bit (a_flags b) k"
  using assms(3,4) blink_cases [OF assms(1)] blink_cases [OF assms(2)] assms(1,2)
  by (auto simp: blink_of_def Let_def flags_ok_def split: if_splits)

lemma change_sets:
  assumes "pen_ok to" "pen_ok from"
  shows "sgr (map (map val) (change_groups to from True)) from = to"
proof -
  have f: "flags_ok (a_flags to)" "flags_ok (a_flags from)" and c: "colours_ok to" "colours_ok from"
    using assms by (auto simp: pen_ok_def)
  let ?gone = "a_flags from AND NOT (a_flags to)"
  let ?set = "set_again FLAGS ?gone (a_flags to) (a_flags to AND NOT (a_flags from))"
  let ?f = "\<lambda>x. (if underline_color to = underline_color from then (\<lambda>a. a) else with_underline_color (underline_color to))
      ((if background to = background from then (\<lambda>a. a) else with_background (background to))
      ((if foreground to = foreground from then (\<lambda>a. a) else with_foreground (foreground to))
      ((if blink_of to = blink_of from then (\<lambda>a. a) else with_blink (blink_of to))
      ((if underline_style to = underline_style from then (\<lambda>a. a) else with_underline_style (underline_style to))
      (flags_on (on_mask ?set FLAGS) (flags_off (off_mask FLAGS ?gone False) x))))))"
  have "does (change_groups to from True) ?f"
    unfolding change_groups_def Let_def
    by (intro does_append [OF does_offs [OF rows_ok]] does_append [OF does_ons [OF rows_ok]]
        does_append [OF does_under_change] does_append [OF does_blink_change] does_append [OF does_colour_change(1)]
        does_append [OF does_colour_change(2)] does_colour_change(3))
  then have "sgr (map (map val) (change_groups to from True)) from = ?f from" by (rule does_sgr)
  also have "?f from = to"
  proof (rule pen_eqI)
    fix k
    let ?x = "flags_on (on_mask ?set FLAGS) (flags_off (off_mask FLAGS ?gone False) from)"
    have x: "bit (a_flags ?x) k \<longleftrightarrow> bit (a_flags to) k" if "k \<in> {0, 1, 2, 4, 7, 8}"
      using that bit_imp_le_length [of "a_flags to" k] bit_imp_le_length [of "a_flags from" k]
      by (auto simp: flags_after bit_or_iff bit_and_iff bit_not_iff on_mask_bits off_mask_bits set_again_bits)
    have others: "bit (a_flags ?x) k \<longleftrightarrow> bit (a_flags from) k" if "k \<notin> {0, 1, 2, 4, 7, 8}"
      using that bit_imp_le_length [of "a_flags from" k]
      by (auto simp: flags_after bit_or_iff bit_and_iff bit_not_iff on_mask_bits off_mask_bits)
    show "bit (a_flags (?f from)) k = bit (a_flags to) k"
      using x others same_under_bits [OF f, of k] same_blink_bits [OF f, of k] flag_kinds [OF f(1), of k] flag_kinds [OF f(2), of k]
      by (simp add: if_at flags_after(4-6) blink_after [OF f(1)] under_style_after [OF f(1)] if_distrib [of a_flags] bit_if
          del: insert_iff empty_iff split: if_splits) blast
  qed (use c in \<open>simp_all add: if_at colours_ok_set\<close>)
  finally show ?thesis .
qed

section \<open>Renditions changed in place\<close>

text \<open>\<open>rendition_change\<close>: DECCARA's renditions set in turn, or DECRARA's reversed.\<close>

definition flip :: "attributes \<Rightarrow> nat \<Rightarrow> attributes" where
  "flip a op =
     (if op = 1 then with_flag BOLD (\<not> has_flag BOLD a) a
      else if op = 4 then with_underline (\<not> underline a) a
      else if op = 5 then with_blink (if blink_of a = Blink_None then Blink_Slow else Blink_None) a
      else if op = 7 then with_flag INVERSE (\<not> has_flag INVERSE a) a
      else a)"

definition rendition_op :: "bool \<Rightarrow> attributes \<Rightarrow> nat \<Rightarrow> attributes" where
  "rendition_op reverse a op =
     (if reverse then (if op = 0 then foldl flip a [1, 4, 5, 7] else flip a op)
      else if op = 0 then
        with_flag INVERSE False (with_blink Blink_None (with_underline False
          (with_flag DIM False (with_flag BOLD False a))))
      else if op = 1 then with_flag BOLD True a
      else if op = 4 then with_underline_style Under_Single a
      else if op = 5 then with_blink Blink_Slow a
      else if op = 7 then with_flag INVERSE True a
      else if op = 22 then with_flag DIM False (with_flag BOLD False a)
      else if op = 24 then with_underline False a
      else if op = 25 then with_blink Blink_None a
      else if op = 27 then with_flag INVERSE False a
      else if op = 39 then with_foreground Color_Default a
      else if op = 49 then with_background Color_Default a
      else if 30 \<le> op \<and> op \<le> 37 then with_foreground (indexed op 30) a
      else if 40 \<le> op \<and> op \<le> 47 then with_background (indexed op 40) a
      else a)"

definition rendition_change :: "attributes \<Rightarrow> nat list \<Rightarrow> bool \<Rightarrow> attributes" where
  "rendition_change a ops reverse = foldl (rendition_op reverse) a ops"

text \<open>The renditions set in place are those SGR sets, its other numbers left out.\<close>

lemma rendition_as_sgr:
  assumes "op \<in> {1, 4, 5, 7, 22, 24, 25, 27, 39, 49} \<or> 30 \<le> op \<and> op \<le> 37 \<or> 40 \<le> op \<and> op \<le> 47"
  shows "rendition_op False a op = sgr_one op a"
proof -
  consider "op \<in> {1, 4, 5, 7, 22, 24, 25, 27, 39, 49}" | "30 \<le> op" "op \<le> 37" | "40 \<le> op" "op \<le> 47"
    using assms by blast
  then show ?thesis
  proof cases
    case 1
    then show ?thesis
      by (elim insertE emptyE) (simp_all add: rendition_op_def sgr_one_def flags_on_def flags_off_def with_flag_def
          with_underline_def blink_off bit.de_Morgan_disj and.assoc)
  qed (simp_all add: rendition_op_def sgr_one_colours set_colour_def)
qed

end
