(* ===== verification/Vt_Pen.thy ===== *)
theory Vt_Pen
  imports Vt_Sgr
begin

text \<open>
  An SGR sequence through the parser: the parameters it reads from the bytes
  of groups are those groups, and so the bytes a renderer writes to change a
  pen (\<open>write_sgr_change\<close>) or to report one (\<open>write_sgr\<close>), read by a terminal,
  make its pen the one written.
\<close>

section \<open>Parameters as they are read\<close>

text \<open>The values so far, and which of them continue a group.\<close>

definition holds :: "nat list \<Rightarrow> bool list \<Rightarrow> params \<Rightarrow> bool" where
  "holds xs subs p \<longleftrightarrow> length (pvalues p) = SLOTS \<and> plen p = length xs \<and> xs \<noteq> [] \<and> length xs \<le> SLOTS
     \<and> take (length xs) (pvalues p) = xs \<and> length subs = length xs
     \<and> (\<forall>i. bit (psub p) i \<longleftrightarrow> i < length subs \<and> subs ! i) \<and> \<not> pfull p"

lemma holds_clear: "length (pvalues p) = SLOTS \<Longrightarrow> holds [0] [False] (params_clear p)"
  by (cases "pvalues p") (auto simp: holds_def params_clear_def set_slot_def SLOTS_def)

lemma holds_slot:
  assumes "holds (xs @ [v]) subs p"
  shows "plen p = Suc (length xs)" "length xs < length (pvalues p)" "pvalues p ! length xs = v"
    "take (length xs) (pvalues p) = xs"
proof -
  show *: "plen p = Suc (length xs)" "length xs < length (pvalues p)"
    using assms by (auto simp: holds_def)
  have t: "take (Suc (length xs)) (pvalues p) = xs @ [v]" using assms by (simp add: holds_def)
  then show "pvalues p ! length xs = v" "take (length xs) (pvalues p) = xs"
    using *(2) by (simp_all add: take_Suc_conv_app_nth)
qed

lemma holds_digit:
  assumes "holds (xs @ [v]) subs p" "v * 10 + d \<le> u16_max" "d < 10"
  shows "holds (xs @ [v * 10 + d]) subs (params_digit (digit_sym d) p)"
proof -
  note s = holds_slot [OF assms(1)]
  have d: "unat (digit_sym d) = 48 + d" using assms(3) by (simp add: digit_sym_def unat_byte_of)
  then have "0x30 \<le> digit_sym d" by (simp add: word_le_nat_alt)
  then have "params_digit (digit_sym d) p = set_slot (length xs) (v * 10 + d) p"
    using s assms(1,2) d by (simp add: params_digit_def holds_def sat16_def)
  moreover have "take (Suc (length xs)) ((pvalues p)[length xs := v * 10 + d]) = xs @ [v * 10 + d]"
    using s by (simp add: take_Suc_conv_app_nth)
  ultimately show ?thesis using assms(1) s by (simp add: holds_def set_slot_def)
qed

lemma holds_separator:
  assumes "holds xs subs p" "length xs < SLOTS"
  shows "holds (xs @ [0]) (subs @ [colon]) (params_separator colon p)"
proof -
  have h: "length (pvalues p) = SLOTS" "plen p = length xs" "length subs = length xs" "\<not> pfull p"
    "take (length xs) (pvalues p) = xs" "\<And>i. bit (psub p) i \<longleftrightarrow> i < length xs \<and> subs ! i"
    using assms(1) by (auto simp: holds_def)
  let ?sub = "if colon then psub p OR push_bit (length xs mod 32) 1 else psub p"
  have sep: "params_separator colon p = p\<lparr>pvalues := (pvalues p)[length xs := 0], psub := ?sub, plen := Suc (length xs)\<rparr>"
    using assms(2) h by (cases colon; cases p) (simp_all add: params_separator_def continue_group_def set_slot_def)
  have l: "length xs mod 32 = length xs" "length xs < LENGTH(32)" using assms(2) by (simp_all add: SLOTS_def)
  have "bit ?sub i \<longleftrightarrow> i < Suc (length xs) \<and> (subs @ [colon]) ! i" for i
    unfolding l(1) by (cases colon) (use h(6) [of i] l(2) h(3) in \<open>auto simp only: if_True if_False bit_or_iff bit_one_at
      nth_append less_Suc_eq length_append list.size nth_Cons_0 diff_self_eq_0 split: if_splits\<close>)
  moreover have "take (Suc (length xs)) ((pvalues p)[length xs := 0]) = xs @ [0]"
    using assms(2) h by (simp add: take_Suc_conv_app_nth)
  ultimately show ?thesis
    unfolding holds_def sep using assms(2) h by (simp del: push_bit_of_1)
qed

section \<open>The groups they are\<close>

definition marks :: "'a list \<Rightarrow> bool list" where
  "marks g = False # replicate (length g - 1) True"

lemma marks_nth: "k < length g \<Longrightarrow> marks g ! k \<longleftrightarrow> 0 < k"
  by (cases k) (simp_all add: marks_def)

lemma group_end_at:
  assumes "\<And>i. e \<le> i \<Longrightarrow> i < m \<Longrightarrow> continues p i" "\<not> continues p m \<or> plen p \<le> m" "e \<le> m" "m \<le> plen p" "m \<le> e + n"
  shows "group_end p n e = m"
  using assms
proof (induction p n e rule: group_end.induct)
  case (2 p n e)
  show ?case
  proof (cases "e < m")
    case True
    then have "continues p e" using "2.prems" by simp
    then have "psub p \<noteq> 0" by (auto simp: continues_def)
    then show ?thesis using True "2.prems" "2.IH" \<open>continues p e\<close> by simp
  qed (use "2.prems" in auto)
qed simp

lemma groups_from_at:
  assumes "holds (pre @ concat gs) (pre_marks @ concat (map marks gs)) p" "length pre_marks = length pre" "[] \<notin> set gs"
  shows "groups_from p (length pre) = gs"
  using assms
proof (induction gs arbitrary: pre pre_marks)
  case (Cons g gs)
  let ?s = "length pre" and ?m = "length pre + length g"
  obtain v vs where g: "g = v # vs" using Cons.prems(3) by (cases g) auto
  have h: "plen p = ?m + length (concat gs)" "length (pvalues p) = SLOTS" "plen p \<le> SLOTS" "SLOTS \<le> 32"
    "\<And>i. bit (psub p) i \<longleftrightarrow> i < plen p \<and> (pre_marks @ marks g @ concat (map marks gs)) ! i"
    "take (plen p) (pvalues p) = pre @ g @ concat gs"
    using Cons.prems(1) by (auto simp: holds_def SLOTS_def)
  have ml: "length (marks g) = length g" by (simp add: marks_def g)
  have in_g: "continues p i" if "Suc ?s \<le> i" "i < ?m" for i
  proof -
    have k: "i - ?s < length g" "0 < i - ?s" using that by linarith+
    have "(pre_marks @ marks g @ concat (map marks gs)) ! i = marks g ! (i - ?s)"
      using that Cons.prems(2) ml k by (simp add: nth_append)
    also have "\<dots> = True" using marks_nth [OF k(1)] k(2) by simp
    finally show ?thesis using that h(1,3,4,5) by (simp add: continues_def)
  qed
  have after: "\<not> continues p ?m \<or> plen p \<le> ?m"
  proof (cases gs)
    case (Cons g' gs')
    then have "(pre_marks @ marks g @ concat (map marks gs)) ! ?m = False"
      using nth_append_length [of "pre_marks @ marks g" False "replicate (length g' - 1) True @ concat (map marks gs')"]
        Cons.prems(2) ml by (simp add: marks_def [of g'])
    then show ?thesis by (auto simp: continues_def h(5))
  qed (use h(1) in simp)
  have e: "group_end p (plen p - (?s + 1)) (?s + 1) = ?m"
    using in_g after h(1) by (intro group_end_at) (auto simp: g)
  have "take (length g) (drop ?s (pvalues p)) = take (length g) (drop ?s (take (plen p) (pvalues p)))"
    by (simp add: drop_take min_def h(1))
  also have "\<dots> = g" by (simp add: h(6))
  finally have t: "take (length g) (drop ?s (pvalues p)) = g" .
  have "groups_from p (length (pre @ g)) = gs"
    using Cons.prems ml by (intro Cons.IH [where pre_marks = "pre_marks @ marks g"]) (simp_all add: )
  then show ?case
    using e t h(1-3) by (subst groups_from.simps) (simp add: Let_def g)
next
  case Nil
  then show ?case by (subst groups_from.simps) (simp add: holds_def)
qed

lemma holds_groups: "holds (concat gs) (concat (map marks gs)) p \<Longrightarrow> [] \<notin> set gs \<Longrightarrow> params_groups p = gs"
  using groups_from_at [of "[]" gs "[]" p] by (simp add: params_groups_def)

section \<open>The bytes of groups\<close>

text \<open>A parser amid the parameters of a control sequence with no marker or intermediate byte.\<close>

definition in_csi :: "nat list \<Rightarrow> bool list \<Rightarrow> parser \<Rightarrow> parser \<Rightarrow> bool" where
  "in_csi xs subs p p' \<longleftrightarrow>
     (\<exists>ps ph. p' = p\<lparr>p_params := ps, p_state := Csi ph\<rparr> \<and> (ph = Entry \<or> ph = Param []) \<and> holds xs subs ps)"

lemma byte_in_csi:
  assumes "p_state p = Csi ph" "b \<noteq> 0x18" "b \<noteq> 0x1a" "b \<noteq> 0x1b" "phase_next ph b (p_params p) = (Next_Phase ph', ps)"
  shows "byte_step b p = (p\<lparr>p_params := ps, p_state := Csi ph'\<rparr>, [])"
  using assms by (simp add: byte_step_def inner_byte_def)

lemma feed_digit:
  assumes "in_csi (xs @ [v]) subs p p'" "d < 10" "v * 10 + d \<le> u16_max"
  shows "\<exists>p''. byte_step (digit_sym d) p' = (p'', []) \<and> in_csi (xs @ [v * 10 + d]) subs p p''"
proof -
  obtain ps ph where h: "p' = p\<lparr>p_params := ps, p_state := Csi ph\<rparr>" "ph = Entry \<or> ph = Param []" "holds (xs @ [v]) subs ps"
    using assms(1) by (auto simp: in_csi_def)
  have d: "unat (digit_sym d) = 48 + d" using assms(2) by (simp add: digit_sym_def unat_byte_of)
  have "phase_next ph (digit_sym d) ps = (Next_Phase (Param []), params_digit (digit_sym d) ps)"
    using h(2) assms(2) by (auto simp: phase_next_def Let_def word_le_nat_alt d note_given_def)
  then have "byte_step (digit_sym d) p' = (p\<lparr>p_params := params_digit (digit_sym d) ps, p_state := Csi (Param [])\<rparr>, [])"
    using h(1) by (subst byte_in_csi) (auto simp: dest!: arg_cong [of _ _ unat] simp: d)
  then show ?thesis using holds_digit [OF h(3) assms(3,2)] by (auto simp: in_csi_def)
qed

lemma feed_separator:
  assumes "in_csi xs subs p p'" "length xs < SLOTS"
  shows "\<exists>p''. byte_step (if colon then 58 else 59) p' = (p'', []) \<and> in_csi (xs @ [0]) (subs @ [colon]) p p''"
proof -
  obtain ps ph where h: "p' = p\<lparr>p_params := ps, p_state := Csi ph\<rparr>" "ph = Entry \<or> ph = Param []" "holds xs subs ps"
    using assms(1) by (auto simp: in_csi_def)
  have "phase_next ph (if colon then 58 else 59) ps = (Next_Phase (Param []), params_separator colon ps)"
    using h(2) by (cases colon) (auto simp: phase_next_def Let_def note_given_def)
  then have "byte_step (if colon then 58 else 59) p' = (p\<lparr>p_params := params_separator colon ps, p_state := Csi (Param [])\<rparr>, [])"
    using h(1) by (subst byte_in_csi) auto
  then show ?thesis using holds_separator [OF h(3) assms(2)] by (auto simp: in_csi_def)
qed

lemma feed_digits:
  "in_csi (xs @ [0]) subs p p' \<Longrightarrow> n \<le> u16_max \<Longrightarrow>
   \<exists>p''. feed (digits 10 n) p' = (p'', []) \<and> in_csi (xs @ [n]) subs p p''"
proof (induction "10 :: nat" n rule: digits.induct)
  case (1 n)
  show ?case
  proof (cases "n < 10")
    case True
    then show ?thesis using feed_digit [OF "1.prems"(1), of n] "1.prems"(2) by (auto simp: digits.simps [of 10 n])
  next
    case False
    then obtain q where q: "feed (digits 10 (n div 10)) p' = (q, [])" "in_csi (xs @ [n div 10]) subs p q"
      using "1.hyps" "1.prems" by fastforce
    obtain r where "byte_step (digit_sym (n mod 10)) q = (r, [])" "in_csi (xs @ [n div 10 * 10 + n mod 10]) subs p r"
      using feed_digit [OF q(2), of "n mod 10"] "1.prems"(2) by auto
    then show ?thesis using False q(1) by (auto simp: digits.simps [of 10 n] feed_append)
  qed
qed

definition slot_text :: "nat option \<Rightarrow> str" where
  "slot_text v = (case v of None \<Rightarrow> [] | Some n \<Rightarrow> digits 10 n)"

lemma feed_slot:
  assumes "in_csi (xs @ [0]) subs p p'" "val v \<le> u16_max"
  shows "\<exists>p''. feed (slot_text v) p' = (p'', []) \<and> in_csi (xs @ [val v]) subs p p''"
  using assms feed_digits [OF assms(1)] by (cases v) (auto simp: slot_text_def val_def)

lemma feed_slots:
  "in_csi xs subs p p' \<Longrightarrow> length xs + length vs \<le> SLOTS \<Longrightarrow> list_all (\<lambda>v. val v \<le> u16_max) vs \<Longrightarrow>
   \<exists>p''. feed (concat (map (\<lambda>v. 58 # slot_text v) vs)) p' = (p'', [])
     \<and> in_csi (xs @ map val vs) (subs @ replicate (length vs) True) p p''"
proof (induction vs arbitrary: xs subs p')
  case (Cons v vs)
  obtain q where q: "byte_step 58 p' = (q, [])" "in_csi (xs @ [0]) (subs @ [True]) p q"
    using feed_separator [OF Cons.prems(1), of True] Cons.prems(2) by auto
  obtain r where r: "feed (slot_text v) q = (r, [])" "in_csi (xs @ [val v]) (subs @ [True]) p r"
    using feed_slot [OF q(2), of v] Cons.prems(3) by auto
  obtain t where "feed (concat (map (\<lambda>v. 58 # slot_text v) vs)) r = (t, [])"
    "in_csi ((xs @ [val v]) @ map val vs) ((subs @ [True]) @ replicate (length vs) True) p t"
    using Cons.IH [OF r(2)] Cons.prems(2,3) by auto
  then show ?case using q(1) r(1) by (simp add: feed_append)
qed (auto simp: in_csi_def)

lemma numbers_with_slots: "numbers_with 58 (v # vs) = slot_text v @ concat (map (\<lambda>v. 58 # slot_text v) vs)"
  by (simp add: numbers_with_def slot_text_def comp_def)

text \<open>Groups that fit a sequence's slots, their values its parameters' width.\<close>

definition fit :: "nat option list list \<Rightarrow> bool" where
  "fit gs \<longleftrightarrow> list_all (\<lambda>g. g \<noteq> [] \<and> list_all (\<lambda>v. val v \<le> u16_max) g) gs"

lemma feed_group:
  assumes "in_csi (xs @ [0]) (subs @ [False]) p p'" "fit [g]" "length xs + length g \<le> SLOTS"
  shows "\<exists>p''. feed (numbers_with 58 g) p' = (p'', []) \<and> in_csi (xs @ map val g) (subs @ marks g) p p''"
proof -
  obtain v vs where g: "g = v # vs" using assms(2) by (cases g) (auto simp: fit_def)
  obtain q where q: "feed (slot_text v) p' = (q, [])" "in_csi (xs @ [val v]) (subs @ [False]) p q"
    using feed_slot [OF assms(1), of v] assms(2) by (auto simp: fit_def g)
  show ?thesis
    using feed_slots [OF q(2), of vs] q(1) assms(2,3)
    by (auto simp: numbers_with_slots feed_append fit_def g marks_def)
qed

lemma feed_enc:
  "in_csi xs subs p p' \<Longrightarrow> fit gs \<Longrightarrow> length xs + length (concat gs) \<le> SLOTS \<Longrightarrow>
   \<exists>p''. feed (enc gs) p' = (p'', [])
     \<and> in_csi (xs @ concat (map (map val) gs)) (subs @ concat (map marks gs)) p p''"
proof (induction gs arbitrary: xs subs p')
  case (Cons g gs)
  have g: "fit [g]" "g \<noteq> []" using Cons.prems(2) by (auto simp: fit_def)
  then have "length xs < SLOTS" using Cons.prems(3) by (cases g) auto
  then obtain q where q: "byte_step 59 p' = (q, [])" "in_csi (xs @ [0]) (subs @ [False]) p q"
    using feed_separator [OF Cons.prems(1), of False] by auto
  obtain r where r: "feed (numbers_with 58 g) q = (r, [])" "in_csi (xs @ map val g) (subs @ marks g) p r"
    using feed_group [OF q(2) g(1)] Cons.prems(3) by auto
  have "fit gs" using Cons.prems(2) by (simp add: fit_def)
  then obtain t where "feed (enc gs) r = (t, [])"
    "in_csi ((xs @ map val g) @ concat (map (map val) gs)) ((subs @ marks g) @ concat (map marks gs)) p t"
    using Cons.IH [OF r(2)] Cons.prems(3) by auto
  then show ?case using q(1) r(1) by (simp add: enc_def feed_append)
qed (simp add: enc_def)

text \<open>A whole sequence of groups, from a parser at rest.\<close>

lemma sequence_read:
  assumes "p_state p = Ground" "length (pvalues (p_params p)) = SLOTS" "fit gs" "gs \<noteq> []" "length (concat gs) \<le> SLOTS"
  shows "\<exists>ps. feed ([0x1b, 0x5b] @ drop 1 (enc gs) @ [0x6d]) p
      = (p\<lparr>p_params := ps, p_state := Ground\<rparr>, [Cancel_Shift, Csi_Seq ps [] 0x6d, Forget_Repeat])
    \<and> params_groups ps = map (map val) gs"
proof -
  obtain g hs where gs: "gs = g # hs" using assms(4) by (cases gs) auto
  let ?q = "p\<lparr>p_params := params_clear (p_params p), p_state := Csi Entry\<rparr>"
  have start: "byte_step 0x1b p = (p\<lparr>p_state := Escape []\<rparr>, [Cancel_Shift])"
    "byte_step 0x5b (p\<lparr>p_state := Escape []\<rparr>) = (?q, [])"
    using assms(1) by (simp_all add: byte_step_def ground_def inner_byte_def escape_byte_def)
  have q: "in_csi ([] @ [0]) ([] @ [False]) p ?q"
    using holds_clear [OF assms(2)] by (auto simp: in_csi_def)
  obtain r where r: "feed (numbers_with 58 g) ?q = (r, [])" "in_csi ([] @ map val g) ([] @ marks g) p r"
    using feed_group [OF q, of g] assms(3,5) by (auto simp: fit_def gs)
  obtain t where t: "feed (enc hs) r = (t, [])"
    "in_csi (([] @ map val g) @ concat (map (map val) hs)) (([] @ marks g) @ concat (map marks hs)) p t"
    using feed_enc [OF r(2), of hs] assms(3,5) by (auto simp: fit_def gs)
  then obtain ps ph where h: "t = p\<lparr>p_params := ps, p_state := Csi ph\<rparr>" "ph = Entry \<or> ph = Param []"
    "holds (concat (map (map val) gs)) (concat (map marks gs)) ps"
    by (auto simp: in_csi_def gs)
  have last: "byte_step 0x6d t = (p\<lparr>p_params := ps, p_state := Ground\<rparr>, [Csi_Seq ps [] 0x6d, Forget_Repeat])"
    using h(1,2) by (auto simp: byte_step_def inner_byte_def phase_next_def Let_def)
  have "marks (map val g) = marks g" for g by (simp add: marks_def)
  then have "params_groups ps = map (map val) gs"
    using h(3) assms(3) by (intro holds_groups) (auto simp: comp_def fit_def list_all_iff)
  then show ?thesis
    using start r(1) t(1) last by (auto simp: gs enc_def feed_append [of "numbers_with 58 g @ enc hs" "[0x6d]" for hs] feed_append)
qed

section \<open>How many slots a change takes\<close>

lemma fit_Nil [simp]: "fit []"
  by (simp add: fit_def)

lemma fit_append: "fit (a @ b) \<longleftrightarrow> fit a \<and> fit b"
  by (simp add: fit_def)

lemma fit_singles: "list_all (\<lambda>n. n \<le> u16_max) ns \<Longrightarrow> fit (singles ns)"
  by (induction ns) (simp_all add: fit_def singles_def val_def)

lemma slots_singles: "length (concat (singles ns)) = length ns"
  by (simp add: singles_def comp_def length_concat)

lemma byte_u16: "unat (b :: byte) \<le> u16_max" "unat (b :: byte) \<le> 255"
  using byte_up(3) [of b] by (simp_all add: u16_max_def)

lemma colour_fits:
  assumes "base \<le> 50"
  shows "fit (colour_groups c base colon)" "length (concat (colour_groups c base colon)) \<le> (if colon then 6 else 5)"
proof -
  have "base + unat i \<le> u16_max" "base + 52 + unat i \<le> u16_max" for i :: byte
    using byte_u16(2) [of i] assms by (simp_all add: u16_max_def)
  moreover have "base + 8 \<le> u16_max" using assms by (simp add: u16_max_def)
  ultimately show "fit (colour_groups c base colon)"
    using byte_u16(1) by (auto simp: colour_groups_def fit_def singles_def val_def u16_max_def split: color.splits)
  show "length (concat (colour_groups c base colon)) \<le> (if colon then 6 else 5)"
    by (auto simp: colour_groups_def singles_def split: color.splits)
qed

lemma under_blink_fits:
  "fit (under_blink_groups a form)"
  "length (concat (under_blink_groups a form)) \<le> (if underline_style a = Under_None then 0 else 2) + (if blink_of a = Blink_None then 0 else 1)"
  by (auto simp: under_blink_groups_def fit_def singles_def val_def u16_max_def Let_def
      split: under_style.splits blink.splits)

lemma change_blinks_fit:
  "fit (under_change to from styles)" "length (concat (under_change to from styles)) \<le> 2"
  "fit (blink_change to from styles)" "length (concat (blink_change to from styles)) \<le> 1"
  using under_blink_fits [of "with_underline_style (underline_style to) attrs_default" "Paint styles"]
    under_blink_fits [of "with_blink (blink_of to) attrs_default" "Paint styles"]
  by (auto simp: under_change_def blink_change_def alone singles_def fit_def val_def u16_max_def split: if_splits)

lemma colour_change_fits:
  assumes "base \<le> 50"
  shows "fit (colour_change t w base colon)" "length (concat (colour_change t w base colon)) \<le> (if colon then 6 else 5)"
  using colour_fits [OF assms, of t colon] assms by (auto simp: colour_change_def singles_def fit_def val_def u16_max_def)

lemma flag_numbers: "list_all (\<lambda>(_, on, off). on \<le> u16_max \<and> off \<le> u16_max) FLAGS" "length FLAGS = 6"
  by (simp_all add: FLAGS_def u16_max_def)

lemma offs_fit:
  "list_all (\<lambda>(_, on, off). on \<le> u16_max \<and> off \<le> u16_max) rows \<Longrightarrow>
   list_all (\<lambda>n. n \<le> u16_max) (end_flags rows gone to ended) \<and> length (end_flags rows gone to ended) \<le> length rows"
proof (induction rows arbitrary: ended)
  case (Cons row rows)
  obtain b on off where row: "row = (b, on, off)" by (cases row)
  have "list_all (\<lambda>n. n \<le> u16_max) (end_flags rows gone to e)" "length (end_flags rows gone to e) \<le> length rows" for e
    using Cons by simp_all
  then show ?case using Cons.prems by (simp add: row le_SucI)
qed simp

lemma ons_fit:
  "list_all (\<lambda>(_, on, off). on \<le> u16_max \<and> off \<le> u16_max) rows \<Longrightarrow>
   list_all (\<lambda>n. n \<le> u16_max) (map (\<lambda>(_, on, _). on) (filter (\<lambda>(b, _). m AND b \<noteq> 0) rows))
   \<and> length (filter (\<lambda>(b, _). m AND b \<noteq> 0) rows) \<le> length rows"
  by (induction rows) (auto intro: le_SucI simp del: length_filter_less)

lemma change_fits:
  "fit (change_groups to from styles)" "length (concat (change_groups to from styles)) \<le> SLOTS"
proof -
  let ?gone = "a_flags from AND NOT (a_flags to)"
  let ?set = "set_again FLAGS ?gone (a_flags to) (a_flags to AND NOT (a_flags from))"
  note offs = offs_fit [OF flag_numbers(1), of ?gone "a_flags to" False]
  note ons = ons_fit [OF flag_numbers(1), of ?set]
  note colours = colour_change_fits [of 30 "foreground to" "foreground from" False]
    colour_change_fits [of 40 "background to" "background from" False]
    colour_change_fits [of 50 "underline_color to" "underline_color from" True]
  show "fit (change_groups to from styles)"
    unfolding change_groups_def Let_def fit_append
    using offs ons colours change_blinks_fit by (simp add: fit_singles)
  show "length (concat (change_groups to from styles)) \<le> SLOTS"
    unfolding change_groups_def Let_def concat_append length_append slots_singles length_map
    using offs ons colours change_blinks_fit(2,4) [of to "from" styles] flag_numbers(2) by (simp add: SLOTS_def)
qed

lemma sgr_fits:
  "fit (singles [0] @ sgr_groups a form)" "length (concat (singles [0] @ sgr_groups a form)) \<le> SLOTS"
proof -
  have flags: "list_all (\<lambda>n. n \<le> u16_max) (sgr_flags a)" "length (sgr_flags a) \<le> 6"
    using ons_fit [OF flag_numbers(1), of "a_flags a"] flag_numbers(2) by (simp_all add: sgr_flags_def)
  have "list_all (\<lambda>n. n \<le> u16_max) (take k (sgr_flags a))" "list_all (\<lambda>n. n \<le> u16_max) (drop k (sgr_flags a))" for k
    using flags(1) by (auto simp: list_all_iff dest: in_set_takeD in_set_dropD)
  note part = this
  note colours = colour_fits [of 30] colour_fits [of 40] colour_fits [of 50]
  show "fit (singles [0] @ sgr_groups a form)"
    using flags(1) part colours under_blink_fits(1)
    by (cases form) (simp_all add: sgr_groups_def Let_def fit_append fit_singles u16_max_def)
  have blinks: "length (concat (under_blink_groups a form)) \<le> 3" for form
    by (rule le_trans [OF under_blink_fits(2)]) simp
  show "length (concat (singles [0] @ sgr_groups a form)) \<le> SLOTS"
  proof (cases form)
    case (Paint styles)
    show ?thesis
      unfolding Paint sgr_groups_def Let_def sgr_form.case concat_append length_append slots_singles
      using flags(2) colour_fits(2) [of 50 "underline_color a" True] colour_fits(2) [of 30 "foreground a" False]
        colour_fits(2) [of 40 "background a" False] blinks [of "Paint styles"]
      by (simp add: SLOTS_def)
  next
    case Report
    let ?first = "if has_flag BOLD a then 1 else 0 :: nat"
    have "length (take ?first (sgr_flags a)) + length (drop ?first (sgr_flags a)) \<le> 6"
      using flags(2) by (metis append_take_drop_id length_append)
    moreover have "length (concat (if underline_style a = Under_Double then singles [21] else [])) \<le> 1"
      by (simp add: slots_singles)
    moreover note blinks [of Report]
    ultimately show ?thesis
      unfolding Report sgr_groups_def Let_def sgr_form.case concat_append length_append slots_singles
      using colour_fits(2) [of 50 "underline_color a" True] colour_fits(2) [of 30 "foreground a" True]
        colour_fits(2) [of 40 "background a" True]
      by (simp add: SLOTS_def)
  qed
qed

section \<open>What is painted is what is read\<close>

text \<open>
  C2: What a renderer writes to go from one set of attributes to another,
  read by a terminal whose pen is the first, makes its pen the second: the
  parser reads the bytes as one SGR sequence and nothing else, and the screen
  carrying it out arrives at the attributes exactly, whichever of the change
  and the reset was shorter; nothing is written for no change.
\<close>

theorem change_repaints:
  assumes "pen_ok (shown_attrs to)" "pen_ok (shown_attrs was)"
    "p_state p = Ground" "length (pvalues (p_params p)) = SLOTS"
  shows "if shown_attrs to = shown_attrs was then write_sgr_change to was True = []
    else \<exists>ps. feed (write_sgr_change to was True) p
           = (p\<lparr>p_params := ps, p_state := Ground\<rparr>, [Cancel_Shift, Csi_Seq ps [] 0x6d, Forget_Repeat])
         \<and> sgr (params_groups ps) (shown_attrs was) = shown_attrs to"
proof (cases "shown_attrs to = shown_attrs was")
  case False
  let ?gs = "chosen_groups (shown_attrs to) (shown_attrs was) True"
  have sets: "sgr (map (map val) ?gs) (shown_attrs was) = shown_attrs to"
    using change_sets [OF assms(1,2)] paint_sets [OF assms(1)] by (simp add: chosen_groups_def Let_def)
  then have "?gs \<noteq> []" using False by auto
  moreover have "fit ?gs" "length (concat ?gs) \<le> SLOTS"
    using change_fits sgr_fits [of _ "Paint True"] by (simp_all add: chosen_groups_def Let_def)
  ultimately show ?thesis
    using sequence_read [OF assms(3,4), of ?gs] False sets by (auto simp: change_enc)
qed (simp add: change_enc)


text \<open>A bold red word on the default background, then a curly underline in a colour of its own.\<close>

definition red_word :: attributes where
  "red_word = with_flag BOLD True (attrs_new (Color_Idx 1) Color_Default)"
definition wavy_word :: attributes where
  "wavy_word = with_underline_color (Color_Rgb \<lparr>rgb_r = 255, rgb_g = 0, rgb_b = 9\<rparr>)
     (with_underline_style Under_Curly (attrs_new Color_Default (Color_Idx 200)))"

lemma words_ok: "pen_ok red_word" "pen_ok wavy_word" "shown_attrs red_word = red_word" "shown_attrs wavy_word = wavy_word"
proof -
  have "colours_ok red_word" "colours_ok wavy_word"
    by (simp_all add: red_word_def wavy_word_def colours_ok_def foreground_def background_def underline_color_def
        with_flag_def attrs_new_def with_underline_color_def with_underline_style_def)
  moreover have "flags_ok (a_flags red_word)" "flags_ok (a_flags wavy_word)" by code_simp+
  ultimately show "pen_ok red_word" "pen_ok wavy_word" by (simp_all add: pen_ok_def)
  show "shown_attrs red_word = red_word" "shown_attrs wavy_word = wavy_word" by code_simp+
qed

lemma parser_at_rest: "p_state (parser_new options_new) = Ground" "length (pvalues (p_params (parser_new options_new))) = SLOTS"
  by (simp_all add: parser_new_def params_default_def)

theorem change_repaints_witness:
  "write_sgr_change wavy_word red_word True = [27, 91] @ ascii ''0;4:3;58:2::255:0:9;48;5;200m''
   \<and> (\<exists>ps. feed (write_sgr_change wavy_word red_word True) (parser_new options_new)
         = ((parser_new options_new)\<lparr>p_params := ps, p_state := Ground\<rparr>, [Cancel_Shift, Csi_Seq ps [] 0x6d, Forget_Repeat])
       \<and> sgr (params_groups ps) red_word = wavy_word)"
proof
  show bytes: "write_sgr_change wavy_word red_word True = [27, 91] @ ascii ''0;4:3;58:2::255:0:9;48;5;200m''"
    by code_simp
  have "wavy_word \<noteq> red_word" by code_simp
  then show "\<exists>ps. feed (write_sgr_change wavy_word red_word True) (parser_new options_new)
         = ((parser_new options_new)\<lparr>p_params := ps, p_state := Ground\<rparr>, [Cancel_Shift, Csi_Seq ps [] 0x6d, Forget_Repeat])
       \<and> sgr (params_groups ps) red_word = wavy_word"
    using change_repaints [of wavy_word red_word, unfolded words_ok(3,4), OF words_ok(2,1) parser_at_rest] by simp
qed


end
