(* ===== verification/Vt_Style.thy ===== *)
theory Vt_Style
  imports Vt_Attrs
begin

text \<open>
  A grid's table of styles (\<open>fux-vt/src/style.rs\<close>): a cell holds a number
  below \<open>2 ^ 28\<close>, its own style's or, with \<open>TABLE\<close> set, a place in the table.
  The map from attributes to places is a finite map; its hasher and the room
  either takes are not here.
\<close>

definition MAX_STYLES :: nat where
  "MAX_STYLES = 2 ^ 27"

definition FLOOR :: nat where
  "FLOOR = 4096"

record styles =
  st_table :: "attributes list"
  st_places :: "attributes \<rightharpoonup> nat"
  st_live :: nat

definition styles_default :: styles where
  "styles_default = \<lparr>st_table = [], st_places = Map.empty, st_live = 0\<rparr>"

definition style_place :: "32 word \<Rightarrow> nat option" where
  "style_place style = (if style AND TABLE = 0 then None else Some (unat (style AND NOT TABLE)))"

definition style_get :: "styles \<Rightarrow> 32 word \<Rightarrow> attributes" where
  "style_get st style =
     (if style AND TABLE = 0 then from_inline_style style
      else (case Option.bind (style_place style) (get_at (st_table st)) of
              Some a \<Rightarrow> with_guard False a | None \<Rightarrow> attrs_default))"

definition style_guarded :: "styles \<Rightarrow> 32 word \<Rightarrow> bool" where
  "style_guarded st style =
     (case Option.bind (style_place style) (get_at (st_table st)) of
        Some a \<Rightarrow> a_flags a AND GUARDED \<noteq> 0 | None \<Rightarrow> False)"

definition style_find :: "styles \<Rightarrow> attributes \<Rightarrow> 32 word option" where
  "style_find st a = map_option (\<lambda>place. of_nat place OR TABLE) (st_places st a)"

definition wants_sweep :: "styles \<Rightarrow> nat \<Rightarrow> bool" where
  "wants_sweep st cells =
     (let floor = max FLOOR (cells div 8); len = length (st_table st)
      in MAX_STYLES \<le> len \<or> floor \<le> len \<and> st_live st * 2 \<le> len)"

definition style_insert :: "attributes \<Rightarrow> styles \<Rightarrow> styles \<times> 32 word option" where
  "style_insert a st =
     (let place = length (st_table st)
      in if MAX_STYLES \<le> place then (st, None)
         else (st\<lparr>st_table := st_table st @ [a], st_places := (st_places st)(a \<mapsto> place)\<rparr>, Some (of_nat place OR TABLE)))"

text \<open>\<open>retain\<close>: the styles \<open>used\<close> marks, put in again in their order; a mark missing is none.\<close>

fun keep_styles :: "attributes list \<Rightarrow> bool list \<Rightarrow> styles \<Rightarrow> styles \<times> 32 word list" where
  "keep_styles [] used st = (st, [])"
| "keep_styles (a # as) used st =
     (let (st', n) = (if used \<noteq> [] \<and> hd used
                      then (case style_insert a st of (st', n) \<Rightarrow> (st', case n of Some n \<Rightarrow> n | None \<Rightarrow> 0))
                      else (st, 0));
          (st'', ns) = keep_styles as (tl used) st'
      in (st'', n # ns))"

definition style_retain :: "bool list \<Rightarrow> styles \<Rightarrow> styles \<times> 32 word list" where
  "style_retain used st =
     (case keep_styles (st_table st) used (st\<lparr>st_table := [], st_places := Map.empty\<rparr>) of
        (st', renumber) \<Rightarrow> (st'\<lparr>st_live := length (st_table st')\<rparr>, renumber))"

text \<open>\<open>Styles::check\<close>: each style is found at its place, no other, and there are no more than numbers for them.\<close>

definition places_ok :: "styles \<Rightarrow> bool" where
  "places_ok st \<longleftrightarrow> length (st_table st) \<le> MAX_STYLES
     \<and> (\<forall>a i. st_places st a = Some i \<longleftrightarrow> i < length (st_table st) \<and> st_table st ! i = a)"

section \<open>Places and numbers\<close>

lemma place_number:
  assumes "i < MAX_STYLES"
  shows "(of_nat i OR TABLE) AND TABLE \<noteq> (0 :: 32 word)" "style_place (of_nat i OR TABLE) = Some i"
proof -
  have low: "\<not> bit (of_nat i :: 32 word) n" if "27 \<le> n" for n
  proof (rule small_bits [OF _ that])
    show "(of_nat i :: 32 word) < 2 ^ 27"
      using assms by (simp add: word_less_nat_alt MAX_STYLES_def unat_of_nat)
  qed
  have t: "bit TABLE n \<longleftrightarrow> n = 27" for n
    unfolding TABLE_def bit_one_at by auto
  have "bit ((of_nat i OR TABLE) AND TABLE :: 32 word) 27"
    unfolding bit_and_iff bit_or_iff t by simp
  then show *: "(of_nat i OR TABLE) AND TABLE \<noteq> (0 :: 32 word)" by auto
  have "(of_nat i OR TABLE) AND NOT TABLE = (of_nat i :: 32 word)"
    using low by (intro bit_word_eqI) (auto simp only: bit_and_iff bit_or_iff bit_not_iff t possible_bit_word)
  then show "style_place (of_nat i OR TABLE) = Some i"
    using * assms by (simp add: style_place_def unat_of_nat MAX_STYLES_def)
qed

lemma get_number:
  assumes "i < length (st_table st)" "length (st_table st) \<le> MAX_STYLES"
  shows "style_get st (of_nat i OR TABLE) = with_guard False (st_table st ! i)"
    "style_guarded st (of_nat i OR TABLE) = (a_flags (st_table st ! i) AND GUARDED \<noteq> 0)"
  using assms place_number [of i] by (simp_all add: style_get_def style_guarded_def get_at_def)

lemma insert_some:
  assumes "places_ok st" "st_places st a = None" "length (st_table st) < MAX_STYLES"
  shows "places_ok (fst (style_insert a st)) \<and> snd (style_insert a st) = Some (of_nat (length (st_table st)) OR TABLE)
    \<and> st_table (fst (style_insert a st)) = st_table st @ [a]"
  using assms by (auto simp: style_insert_def Let_def places_ok_def nth_append less_Suc_eq) (metis option.distinct(1))

section \<open>A sweep\<close>

definition used_at :: "bool list \<Rightarrow> nat \<Rightarrow> bool" where
  "used_at used i \<longleftrightarrow> i < length used \<and> used ! i"

lemma used_at_simps:
  "used_at used 0 \<longleftrightarrow> used \<noteq> [] \<and> hd used" "used_at used (Suc i) \<longleftrightarrow> used_at (tl used) i"
  by (cases used; simp add: used_at_def)+

lemma places_distinct: "places_ok st \<Longrightarrow> distinct (st_table st)"
  unfolding places_ok_def distinct_conv_nth by (metis option.inject)

lemma places_none: "places_ok st \<Longrightarrow> st_places st a = None \<longleftrightarrow> a \<notin> set (st_table st)"
  unfolding places_ok_def in_set_conv_nth by (metis not_None_eq)

text \<open>What became of each style put in again, the table having begun as \<open>before\<close>.\<close>

definition came_as :: "styles \<Rightarrow> bool \<Rightarrow> attributes \<Rightarrow> 32 word \<Rightarrow> bool" where
  "came_as st used a n \<longleftrightarrow>
     (if used then (\<exists>k < length (st_table st). n = of_nat k OR TABLE \<and> st_table st ! k = a)
      else n = 0 \<and> a \<notin> set (st_table st))"

definition kept_as :: "attributes list \<Rightarrow> attributes list \<Rightarrow> bool list \<Rightarrow> styles \<times> 32 word list \<Rightarrow> bool" where
  "kept_as before as used r \<longleftrightarrow>
     places_ok (fst r) \<and> length (snd r) = length as \<and> (\<exists>more. st_table (fst r) = before @ more)
     \<and> (\<forall>i < length as. came_as (fst r) (used_at used i) (as ! i) (snd r ! i))
     \<and> set (st_table (fst r)) \<subseteq> set before \<union> set as"

lemma kept_as_Cons:
  assumes "kept_as (before @ new) as (tl used) (st, ns)" "came_as st (used_at used 0) a n" "set new \<subseteq> {a}"
  shows "kept_as before (a # as) used (st, n # ns)"
proof -
  have "\<forall>i < length (a # as). came_as st (used_at used i) ((a # as) ! i) ((n # ns) ! i)"
    using assms(1,2) by (simp add: kept_as_def All_less_Suc2 used_at_simps)
  then show ?thesis using assms(1,3) by (auto simp: kept_as_def)
qed

lemma keep_keeps:
  assumes "places_ok st" "distinct (st_table st @ as)" "length (st_table st) + length as \<le> MAX_STYLES"
  shows "kept_as (st_table st) as used (keep_styles as used st)"
  using assms
proof (induction as arbitrary: used st)
  case (Cons a as)
  show ?case
  proof (cases "used \<noteq> [] \<and> hd used")
    case True
    let ?st = "fst (style_insert a st)"
    have new: "st_places st a = None" using Cons.prems by (simp add: places_none)
    have ins: "places_ok ?st" "snd (style_insert a st) = Some (of_nat (length (st_table st)) OR TABLE)"
        "st_table ?st = st_table st @ [a]"
      using insert_some [OF Cons.prems(1) new] Cons.prems(3) by simp_all
    obtain st' ns where k: "keep_styles as (tl used) ?st = (st', ns)" by (cases "keep_styles as (tl used) ?st")
    have IH: "kept_as (st_table st @ [a]) as (tl used) (st', ns)"
      using Cons.IH [OF ins(1), of "tl used"] Cons.prems(2,3) by (simp add: k ins(3))
    then obtain more where more: "st_table st' = st_table st @ a # more" by (auto simp: kept_as_def)
    have "came_as st' (used_at used 0) a (of_nat (length (st_table st)) OR TABLE)"
      using True more by (auto simp: came_as_def used_at_simps intro!: exI [of _ "length (st_table st)"])
    then have "kept_as (st_table st) (a # as) used (st', (of_nat (length (st_table st)) OR TABLE) # ns)"
      using kept_as_Cons [OF IH] by simp
    moreover have "keep_styles (a # as) used st = (st', (of_nat (length (st_table st)) OR TABLE) # ns)"
      using True k ins(2) by (simp add: Let_def split_beta)
    ultimately show ?thesis by simp
  next
    case False
    obtain st' ns where k: "keep_styles as (tl used) st = (st', ns)" by (cases "keep_styles as (tl used) st")
    have IH: "kept_as (st_table st) as (tl used) (st', ns)"
      using Cons.IH [OF Cons.prems(1), of "tl used"] Cons.prems(2,3) by (simp add: k)
    have "came_as st' (used_at used 0) a 0"
      using False IH Cons.prems(2) by (auto simp: came_as_def used_at_simps kept_as_def)
    then have "kept_as (st_table st) (a # as) used (st', 0 # ns)"
      using kept_as_Cons [of "st_table st" "[]"] IH by simp
    moreover have "keep_styles (a # as) used st = (st', 0 # ns)" using False k by (auto simp: Let_def)
    ultimately show ?thesis by simp
  qed
qed (simp add: kept_as_def)

text \<open>
  C35: A sweep keeps exactly the styles in use: each that was, by the number
  it is given instead, reads as it did, guarded if it was, and is found by its
  attributes at that number; each that was not becomes 0, the default, and is
  found no more.  The table is again one that finds each style at its place.
\<close>

theorem retain_keeps:
  assumes "places_ok st"
  shows "case style_retain used st of (st', renumber) \<Rightarrow>
     places_ok st' \<and> length renumber = length (st_table st) \<and> st_live st' = length (st_table st')
     \<and> (\<forall>i < length (st_table st).
          if used_at used i
          then style_get st' (renumber ! i) = style_get st (of_nat i OR TABLE)
            \<and> style_guarded st' (renumber ! i) = style_guarded st (of_nat i OR TABLE)
            \<and> style_find st' (st_table st ! i) = Some (renumber ! i)
          else renumber ! i = 0 \<and> style_find st' (st_table st ! i) = None)"
proof -
  let ?none = "st\<lparr>st_table := [], st_places := Map.empty\<rparr>"
  have most: "length (st_table st) \<le> MAX_STYLES" using assms by (simp add: places_ok_def)
  have none: "places_ok ?none" by (simp add: places_ok_def)
  obtain st' ns where k: "keep_styles (st_table st) used ?none = (st', ns)"
    by (cases "keep_styles (st_table st) used ?none")
  have kept: "kept_as [] (st_table st) used (st', ns)"
    using keep_keeps [OF none, of "st_table st" used] places_distinct [OF assms] most k by simp
  then have kept: "places_ok st'" "length ns = length (st_table st)"
    "\<And>i. i < length (st_table st) \<Longrightarrow> came_as st' (used_at used i) (st_table st ! i) (ns ! i)"
    by (simp_all add: kept_as_def)
  let ?st = "st'\<lparr>st_live := length (st_table st')\<rparr>"
  have ok: "places_ok ?st" using kept(1) by (simp add: places_ok_def)
  then have most': "length (st_table ?st) \<le> MAX_STYLES" by (simp add: places_ok_def)
  have "if used_at used i
      then style_get ?st (ns ! i) = style_get st (of_nat i OR TABLE)
        \<and> style_guarded ?st (ns ! i) = style_guarded st (of_nat i OR TABLE)
        \<and> style_find ?st (st_table st ! i) = Some (ns ! i)
      else ns ! i = 0 \<and> style_find ?st (st_table st ! i) = None" if i: "i < length (st_table st)" for i
  proof (cases "used_at used i")
    case True
    then obtain k where n: "k < length (st_table ?st)" "ns ! i = of_nat k OR TABLE" "st_table ?st ! k = st_table st ! i"
      using kept(3) [OF i] by (auto simp: came_as_def)
    then have "st_places ?st (st_table st ! i) = Some k" using ok by (auto simp: places_ok_def)
    then show ?thesis
      using True n get_number [OF n(1) most'] get_number [OF i most] by (simp add: style_find_def)
  next
    case False
    then show ?thesis using kept(3) [OF i] places_none [OF kept(1)] by (simp add: came_as_def style_find_def)
  qed
  then show ?thesis using ok kept(2) by (simp add: style_retain_def k)
qed

text \<open>A table of two styles no number holds, the first of them out of use.\<close>

definition rapid :: "color \<Rightarrow> attributes" where
  "rapid c = with_blink Blink_Rapid (attrs_new c Color_Default)"

definition two_styles :: styles where
  "two_styles = fst (style_insert (rapid (Color_Idx 2)) (fst (style_insert (rapid (Color_Idx 1)) styles_default)))"

lemma two_ok: "places_ok two_styles \<and> st_table two_styles = [rapid (Color_Idx 1), rapid (Color_Idx 2)]"
proof -
  have d: "places_ok styles_default" "rapid (Color_Idx 2) \<noteq> rapid (Color_Idx 1)" "0 < MAX_STYLES" "1 < MAX_STYLES"
    by (simp_all add: places_ok_def styles_default_def MAX_STYLES_def rapid_def with_blink_def with_flag_def attrs_new_def)
  let ?one = "fst (style_insert (rapid (Color_Idx 1)) styles_default)"
  have one: "places_ok ?one" "st_table ?one = [rapid (Color_Idx 1)]"
    using insert_some [OF d(1), of "rapid (Color_Idx 1)"] d(3) by (auto simp: styles_default_def)
  then have "st_places ?one (rapid (Color_Idx 2)) = None" using places_none [OF one(1)] d(2) by simp
  then show ?thesis using insert_some [OF one(1), of "rapid (Color_Idx 2)"] one(2) d(4) by (simp add: two_styles_def)
qed

theorem retain_keeps_witness:
  "snd (style_retain [False, True] two_styles) = [0, TABLE]
   \<and> style_get (fst (style_retain [False, True] two_styles)) TABLE = rapid (Color_Idx 2)
   \<and> style_find (fst (style_retain [False, True] two_styles)) (rapid (Color_Idx 2)) = Some TABLE"
proof -
  have t: "st_table two_styles = [rapid (Color_Idx 1), rapid (Color_Idx 2)]" using two_ok by simp
  have n: "snd (style_retain [False, True] two_styles) = [0, TABLE]"
    by (simp add: style_retain_def t style_insert_def MAX_STYLES_def Let_def split_beta)
  have g: "style_get two_styles (1 OR TABLE) = rapid (Color_Idx 2)"
    using get_number(1) [of 1 two_styles] by (simp add: t MAX_STYLES_def with_guard_def with_flag_def rapid_def
        with_blink_def attrs_new_def GUARDED_def BLINK_def SLOW_BLINK_def RAPID_BLINK_def)
  show ?thesis
    using retain_keeps [OF conjunct1 [OF two_ok], of "[False, True]"] n g t
    by (auto simp: split_beta All_less_Suc2 used_at_def)
qed

end
