(* ===== verification/Vt_Compact.thy ===== *)
theory Vt_Compact
  imports Rust_Text Vt_Attrs "HOL-Library.Log_Nat"
begin

text \<open>
  A stored cell (\<open>Compact\<close> of \<open>fux-vt/src/compact.rs\<close>): four bytes of text, or
  where its text is in its row's, and a word of its style and flags; and a
  row's text, in a part for short clusters and one for long.  What a cell
  holds is read back: inline, whatever the bytes past the text, or from where
  it is located.
\<close>

section \<open>Cells\<close>

record compact =
  c_text :: "byte list"
  c_word :: "32 word"

definition STYLE :: "32 word" where "STYLE = mask 28"
definition CONTINUATION :: "32 word" where "CONTINUATION = push_bit 28 1"
definition WIDE :: "32 word" where "WIDE = push_bit 29 1"
definition HALVES :: "32 word" where "HALVES = WIDE OR CONTINUATION"
definition SPILLED :: "32 word" where "SPILLED = push_bit 30 1"
definition PROTECTED :: "32 word" where "PROTECTED = push_bit 31 1"
definition KEPT :: "32 word" where "KEPT = STYLE OR HALVES OR PROTECTED"

definition SHORT :: nat where "SHORT = 17"
definition LOCATED :: nat where "LOCATED = 2 ^ 24"
definition CLUSTER_CAPACITY :: nat where "CLUSTER_CAPACITY = 128"

text \<open>\<open>u32::from_le_bytes\<close>, \<open>to_le_bytes\<close> and \<open>leading_zeros\<close>, on the number.\<close>

fun from_le :: "byte list \<Rightarrow> nat" where
  "from_le [] = 0"
| "from_le (b # bs) = unat b + 256 * from_le bs"

fun to_le :: "nat \<Rightarrow> nat \<Rightarrow> byte list" where
  "to_le 0 n = []"
| "to_le (Suc k) n = byte_of (n mod 256) # to_le k (n div 256)"

definition leading_zeros :: "nat \<Rightarrow> nat" where
  "leading_zeros n = 32 - floorlog 2 n"

text \<open>\<open>32u32.saturating_sub(word.leading_zeros()).div_ceil(8)\<close>: the bytes up to the last that is not zero.\<close>

definition bytes_used :: "nat \<Rightarrow> nat" where
  "bytes_used n = (32 - leading_zeros n + 7) div 8"

definition BLANK :: compact where
  "BLANK = \<lparr>c_text = [0, 0, 0, 0], c_word = 0\<rparr>"

definition compact_blank :: "32 word \<Rightarrow> compact" where
  "compact_blank style = \<lparr>c_text = [0, 0, 0, 0], c_word = style AND STYLE\<rparr>"

definition padded :: "byte list \<Rightarrow> byte list" where
  "padded bs = bs @ replicate (4 - length bs) 0"

definition compact_glyph :: "nat \<Rightarrow> nat \<Rightarrow> 32 word \<Rightarrow> compact" where
  "compact_glyph c width style =
     \<lparr>c_text = padded (utf8_encode c),
      c_word = (style AND (STYLE OR PROTECTED)) OR (if width = 2 then WIDE else 0)\<rparr>"

definition compact_ascii :: "byte \<Rightarrow> 32 word \<Rightarrow> compact" where
  "compact_ascii b style = \<lparr>c_text = [b, 0, 0, 0], c_word = style AND (STYLE OR PROTECTED)\<rparr>"

definition any_halves :: "compact list \<Rightarrow> bool" where
  "any_halves cells \<longleftrightarrow> foldl (\<lambda>any c. any OR c_word c) 0 cells AND HALVES \<noteq> 0"

definition compact_shaped :: "byte \<Rightarrow> compact" where
  "compact_shaped halves = \<lparr>c_text = [0, 0, 0, 0], c_word = push_bit 22 (ucast halves) AND HALVES\<rparr>"

definition compact_continuation :: compact where
  "compact_continuation = \<lparr>c_text = [0, 0, 0, 0], c_word = CONTINUATION\<rparr>"

definition compact_style :: "compact \<Rightarrow> 32 word" where
  "compact_style c = c_word c AND STYLE"

definition set_style :: "32 word \<Rightarrow> compact \<Rightarrow> compact" where
  "set_style style c = c\<lparr>c_word := (c_word c AND NOT STYLE) OR (style AND STYLE)\<rparr>"

definition blanked :: "compact \<Rightarrow> compact" where
  "blanked c = compact_blank (compact_style c)"

definition is_spilled :: "compact \<Rightarrow> bool" where
  "is_spilled c \<longleftrightarrow> c_word c AND SPILLED \<noteq> 0"

definition has_contents :: "compact \<Rightarrow> bool" where
  "has_contents c \<longleftrightarrow> get_at (c_text c) 0 \<noteq> Some 0 \<or> is_spilled c"

definition is_wide :: "compact \<Rightarrow> bool" where
  "is_wide c \<longleftrightarrow> c_word c AND WIDE \<noteq> 0"
definition is_wide_continuation :: "compact \<Rightarrow> bool" where
  "is_wide_continuation c \<longleftrightarrow> c_word c AND CONTINUATION \<noteq> 0"
definition widen :: "compact \<Rightarrow> compact" where
  "widen c = c\<lparr>c_word := c_word c OR WIDE\<rparr>"
definition is_protected :: "compact \<Rightarrow> bool" where
  "is_protected c \<longleftrightarrow> c_word c AND PROTECTED \<noteq> 0"
definition is_blank :: "32 word \<Rightarrow> compact \<Rightarrow> bool" where
  "is_blank style c \<longleftrightarrow> c = compact_blank style"
definition is_ascii :: "byte \<Rightarrow> 32 word \<Rightarrow> compact \<Rightarrow> bool" where
  "is_ascii b style c \<longleftrightarrow> c = compact_ascii b style"
definition compact_halves :: "compact \<Rightarrow> byte" where
  "compact_halves c = ucast (drop_bit 22 (c_word c AND HALVES))"

definition inline_bytes :: "compact \<Rightarrow> byte list" where
  "inline_bytes c = (if is_spilled c then [] else take (bytes_used (from_le (c_text c))) (c_text c))"

text \<open>\<open>inline\<close>, whose text of one ASCII byte or none is read without validation.\<close>

definition ASCII :: "byte list" where
  "ASCII = map byte_of [0..<128]"

definition utf8_or_empty :: "byte list \<Rightarrow> str" where
  "utf8_or_empty bs = (if utf8_valid bs then bs else [])"

definition inline :: "compact \<Rightarrow> str" where
  "inline c =
     (if is_spilled c then []
      else if from_le (c_text c) < 0x80 then
        (case get_at (c_text c) 0 of
           None \<Rightarrow> []
         | Some b \<Rightarrow> take (if b \<noteq> 0 then 1 else 0) (drop (unat b) ASCII))
      else utf8_or_empty (inline_bytes c))"

definition first_char :: "compact \<Rightarrow> nat option" where
  "first_char c = map_option fst (next_char (inline c))"

text \<open>\<open>inline_with\<close>: the cell with a character after its inline text, if both fit.\<close>

definition inline_with :: "compact \<Rightarrow> nat \<Rightarrow> compact option" where
  "inline_with c ch =
     (if get_at (c_text c) 3 \<noteq> Some 0 \<or> is_spilled c \<or> \<not> has_contents c then None
      else
        let word = from_le (c_text c);
            used = bytes_used word;
            encoded = utf8_encode ch
        in if 4 < used + length encoded \<or> 32 \<le> used * 8 then None
           else Some \<lparr>c_text = to_le 4 (word OR take_bit 32 (push_bit (used * 8) (from_le encoded))),
                      c_word = c_word c AND KEPT\<rparr>)"

definition locator :: "compact \<Rightarrow> (nat \<times> nat) option" where
  "locator c =
     (if is_spilled c then
        (case c_text c of
           [x, y, z, len] \<Rightarrow> Some (from_le [x, y, z, 0], unat len)
         | _ \<Rightarrow> None)
      else None)"

text \<open>The range of a long or a short cluster's text in its part.\<close>

definition spilled :: "bool \<Rightarrow> compact \<Rightarrow> (nat \<times> nat) option" where
  "spilled long c =
     (case locator c of
        Some (start, len) \<Rightarrow> if (SHORT < len) = long then Some (start, start + len) else None
      | None \<Rightarrow> None)"

definition holding :: "compact \<Rightarrow> byte list \<Rightarrow> compact option" where
  "holding c bs = (if length bs \<le> 4 then Some \<lparr>c_text = padded bs, c_word = c_word c AND KEPT\<rparr> else None)"

definition with_spilled :: "compact \<Rightarrow> nat \<Rightarrow> nat \<Rightarrow> compact" where
  "with_spilled c start len =
     (case to_le 4 start of
        [x, y, z, w] \<Rightarrow>
          if w = 0 then \<lparr>c_text = [x, y, z, byte_of len], c_word = (c_word c AND KEPT) OR SPILLED\<rparr>
          else blanked c
      | _ \<Rightarrow> blanked c)"

section \<open>A row's text\<close>

record row_text =
  t_long :: "byte list"
  t_short :: "byte list"

definition NO_TEXT :: row_text where
  "NO_TEXT = \<lparr>t_long = [], t_short = []\<rparr>"

definition part :: "bool \<Rightarrow> row_text \<Rightarrow> byte list" where
  "part long t = (if long then t_long t else t_short t)"

definition set_part :: "bool \<Rightarrow> byte list \<Rightarrow> row_text \<Rightarrow> row_text" where
  "set_part long bs t = (if long then t\<lparr>t_long := bs\<rparr> else t\<lparr>t_short := bs\<rparr>)"

text \<open>\<open>slice::get\<close> of a range, and \<open>unwrap_or_default\<close>.\<close>

definition slice :: "'a list \<Rightarrow> nat \<Rightarrow> nat \<Rightarrow> 'a list option" where
  "slice bs s e = (if s \<le> e \<and> e \<le> length bs then Some (take (e - s) (drop s bs)) else None)"

definition or_none :: "'a list option \<Rightarrow> 'a list" where
  "or_none x = (case x of Some y \<Rightarrow> y | None \<Rightarrow> [])"

definition kept_bytes :: "row_text \<Rightarrow> compact \<Rightarrow> byte list" where
  "kept_bytes t c =
     (case locator c of
        None \<Rightarrow> inline_bytes c
      | Some (start, len) \<Rightarrow> or_none (slice (part (SHORT < len) t) start (start + len)))"

definition text_in :: "row_text \<Rightarrow> compact \<Rightarrow> str" where
  "text_in t c = (case locator c of None \<Rightarrow> inline c | Some _ \<Rightarrow> utf8_or_empty (kept_bytes t c))"

definition followed :: "row_text \<Rightarrow> compact \<Rightarrow> byte list" where
  "followed t c = (if has_contents c then kept_bytes t c else [32])"

definition holds_same :: "row_text \<Rightarrow> compact \<Rightarrow> compact \<Rightarrow> str \<Rightarrow> bool" where
  "holds_same t c other held =
     (if \<not> is_spilled c \<and> \<not> is_spilled other then c = other
      else c_word c = c_word other \<and> text_in t c = held)"

definition text_bytes :: "row_text \<Rightarrow> nat" where
  "text_bytes t = length (t_long t) + length (t_short t)"

definition text_is_empty :: "row_text \<Rightarrow> bool" where
  "text_is_empty t \<longleftrightarrow> t_long t = [] \<and> t_short t = []"

definition long_limit :: "nat \<Rightarrow> nat" where
  "long_limit cells = min (cells * 32 + CLUSTER_CAPACITY) LOCATED"

definition short_limit :: "nat \<Rightarrow> nat" where
  "short_limit cells = min (cells * SHORT) LOCATED"

section \<open>Bytes of numbers\<close>

lemma from_le_append: "from_le (a @ b) = from_le a + 256 ^ length a * from_le b"
  by (induction a) (simp_all add: algebra_simps)

lemma from_le_zeros [simp]: "from_le (replicate n 0) = 0"
  by (induction n) auto

lemma from_le_less: "from_le bs < 256 ^ length bs"
proof (induction bs)
  case (Cons b bs)
  have "unat b + 256 * from_le bs < 256 + 256 * from_le bs" using unat_byte [of b] by simp
  also have "\<dots> = 256 * (from_le bs + 1)" by simp
  also have "\<dots> \<le> 256 * 256 ^ length bs" using Cons by (intro mult_le_mono2) simp
  finally show ?case by simp
qed simp

lemma to_le_from_le: "length bs = k \<Longrightarrow> to_le k (from_le bs) = bs"
proof (induction bs arbitrary: k)
  case (Cons b bs)
  then show ?case using unat_byte [of b] by (cases k) auto
qed auto

lemma from_le_to_le: "n < 256 ^ k \<Longrightarrow> from_le (to_le k n) = n"
proof (induction k arbitrary: n)
  case (Suc k)
  then have "n div 256 < 256 ^ k" by (simp add: less_mult_imp_div_less mult.commute)
  then show ?case using Suc.IH by (simp add: unat_byte_of)
qed simp

lemma length_to_le [simp]: "length (to_le k n) = k"
  by (induction k arbitrary: n) auto

lemma bytes_used_text:
  assumes "length t \<le> 4" "t = [] \<or> last t \<noteq> 0"
  shows "bytes_used (from_le (t @ replicate k 0)) = length t"
proof (cases "t = []")
  case False
  let ?n = "from_le t" and ?m = "8 * (length t - 1)"
  have n: "?n < 2 ^ (8 * length t)" using from_le_less [of t] by (simp add: power_mult)
  obtain u b where t: "t = u @ [b]" using False by (metis append_butlast_last_id)
  have "0 < unat b" using assms(2) t by (simp add: unat_gt_0)
  then have "(256 :: nat) ^ length u \<le> 256 ^ length u * unat b" by (cases "unat b") simp_all
  moreover have "?n = from_le u + 256 ^ length u * unat b" by (simp add: t from_le_append)
  ultimately have "256 ^ length u \<le> ?n" using trans_le_add2 by metis
  then have "\<not> ?n < 2 ^ ?m" by (simp add: t power_mult)
  then have "\<not> floorlog 2 ?n \<le> ?m" using floorlog_leD [of 2 ?n ?m] by auto
  moreover have "floorlog 2 ?n \<le> 8 * length t" using n by (intro floorlog_leI) auto
  moreover have "8 * length t \<le> 32" using assms(1) by simp
  ultimately have "?m < 32 - leading_zeros ?n" "32 - leading_zeros ?n \<le> 8 * length t"
    by (auto simp: leading_zeros_def)
  then have "bytes_used ?n = length t" using False unfolding bytes_used_def by (cases t) auto
  then show ?thesis by (simp add: from_le_append)
qed (simp add: bytes_used_def leading_zeros_def floorlog_def)

section \<open>What a cell is read as\<close>

text \<open>A text as cells keep it: UTF-8, and no NUL inside.\<close>

definition text_ok :: "byte list \<Rightarrow> bool" where
  "text_ok bs \<longleftrightarrow> utf8_valid bs \<and> 0 \<notin> set bs"

lemma word_flag_bits:
  "bit STYLE n \<longleftrightarrow> n < 28"
  "bit CONTINUATION n \<longleftrightarrow> n = 28"
  "bit WIDE n \<longleftrightarrow> n = 29"
  "bit HALVES n \<longleftrightarrow> n = 28 \<or> n = 29"
  "bit SPILLED n \<longleftrightarrow> n = 30"
  "bit PROTECTED n \<longleftrightarrow> n = 31"
  "bit KEPT n \<longleftrightarrow> n < 32 \<and> n \<noteq> 30"
  unfolding STYLE_def CONTINUATION_def WIDE_def HALVES_def SPILLED_def PROTECTED_def KEPT_def bit_or_iff bit_one_at
    bit_mask_iff by auto

lemma is_spilled_bit: "is_spilled c \<longleftrightarrow> bit (c_word c) 30"
  unfolding is_spilled_def SPILLED_def flag_bit by simp

lemma kept_word:
  "(w AND KEPT) AND KEPT = w AND KEPT"
  "((w AND KEPT) OR SPILLED) AND KEPT = w AND KEPT"
  by (rule bit_word_eqI; auto simp: bit_and_iff bit_or_iff word_flag_bits)+

lemma unkept_bit [simp]: "\<not> bit (w AND KEPT) 30" "bit ((w AND KEPT) OR SPILLED) 30"
  by (simp_all add: bit_and_iff bit_or_iff word_flag_bits)

lemma length_padded: "length bs \<le> 4 \<Longrightarrow> length (padded bs) = 4"
  by (simp add: padded_def)

lemma inline_bytes_padded:
  assumes "c_text c = padded u" "length u \<le> 4" "0 \<notin> set u" "\<not> is_spilled c"
  shows "inline_bytes c = u"
proof -
  have "u = [] \<or> last u \<noteq> 0" using assms(3) last_in_set [of u] by metis
  then have "bytes_used (from_le (padded u)) = length u"
    unfolding padded_def by (intro bytes_used_text assms(2))
  then show ?thesis using assms by (simp add: inline_bytes_def padded_def)
qed

lemma ASCII_at: "unat b < 128 \<Longrightarrow> take 1 (drop (unat b) ASCII) = [b]"
  by (simp add: ASCII_def take_map drop_map drop_upt take_upt byte_of_unat)

lemma inline_padded:
  assumes "c_text c = padded u" "length u \<le> 4" "text_ok u" "\<not> is_spilled c"
  shows "inline c = u"
proof (cases "from_le (c_text c) < 0x80")
  case False
  then show ?thesis
    using assms inline_bytes_padded [OF assms(1,2) _ assms(4)] by (simp add: inline_def utf8_or_empty_def text_ok_def)
next
  case True
  show ?thesis
  proof (cases u)
    case Nil
    then show ?thesis using assms True by (simp add: inline_def padded_def numeral_eq_Suc)
  next
    case (Cons b v)
    have t: "c_text c = b # v @ replicate (4 - length u) 0" using assms(1) Cons by (simp add: padded_def)
    then have "unat b + 256 * from_le (v @ replicate (4 - length u) 0) < 128" using True by simp
    then have b: "unat b < 128" "from_le v = 0" by (simp_all add: from_le_append)
    have "v = []"
    proof (rule ccontr)
      assume "v \<noteq> []"
      then obtain d w where "v = d # w" by (cases v) auto
      then have "d = 0" using b(2) by (simp add: unat_eq_0)
      then show False using assms(3) Cons \<open>v = d # w\<close> by (simp add: text_ok_def)
    qed
    moreover have "b \<noteq> 0" using assms(3) Cons by (auto simp: text_ok_def)
    ultimately show ?thesis using True assms(4) Cons b(1) ASCII_at [of b] by (simp add: inline_def t)
  qed
qed

text \<open>A cell whose text is inline, and what it is.\<close>

definition inline_cell :: "compact \<Rightarrow> bool" where
  "inline_cell c \<longleftrightarrow> \<not> is_spilled c \<and> length (c_text c) = 4 \<and> c_text c = padded (inline_bytes c) \<and> text_ok (inline_bytes c)"

lemma length_inline_bytes: "length (c_text c) = 4 \<Longrightarrow> length (inline_bytes c) \<le> 4"
  by (simp add: inline_bytes_def)

lemma inline_cellI:
  assumes "c_text c = padded u" "length u \<le> 4" "text_ok u" "\<not> is_spilled c"
  shows "inline_cell c \<and> inline_bytes c = u"
  using assms inline_bytes_padded [OF assms(1,2) _ assms(4)] length_padded [OF assms(2)]
  by (simp add: inline_cell_def text_ok_def)

lemma inline_cell_text: "inline_cell c \<Longrightarrow> inline c = inline_bytes c"
  using inline_padded [of c "inline_bytes c"] length_inline_bytes [of c] unfolding inline_cell_def by blast

lemma text_ok_Nil [simp]: "text_ok []"
  by (simp add: text_ok_def)

lemma blanked_cell:
  "inline_cell (blanked c) \<and> inline_bytes (blanked c) = [] \<and> \<not> is_spilled (blanked c)"
proof -
  have s: "\<not> is_spilled (blanked c)"
    by (simp add: is_spilled_bit blanked_def compact_blank_def bit_and_iff word_flag_bits)
  have "c_text (blanked c) = padded []" by (simp add: blanked_def compact_blank_def padded_def numeral_eq_Suc)
  then show ?thesis using inline_cellI [of "blanked c" "[]"] s by simp
qed

text \<open>Up to four bytes are held inline.\<close>

lemma holding_None: "holding c u = None \<longleftrightarrow> 4 < length u"
  by (simp add: holding_def)

lemma holding_cell:
  assumes "holding c u = Some d" "text_ok u"
  shows "inline_cell d \<and> inline_bytes d = u \<and> c_word d = c_word c AND KEPT"
proof -
  have d: "length u \<le> 4" "d = \<lparr>c_text = padded u, c_word = c_word c AND KEPT\<rparr>"
    using assms(1) by (auto simp: holding_def split: if_splits)
  then have "\<not> is_spilled d" by (simp add: is_spilled_bit)
  then show ?thesis using inline_cellI [of d u] d assms(2) by simp
qed

text \<open>A text located in the row's.\<close>

lemma four_bytes:
  assumes "length xs = 4"
  obtains x y z w where "xs = [x, y, z, w]"
  using assms by (auto simp: length_Suc_conv numeral_eq_Suc)

lemma with_spilled_cell:
  assumes "start < LOCATED" "len < 256"
  shows "locator (with_spilled c start len) = Some (start, len)"
    "c_word (with_spilled c start len) = (c_word c AND KEPT) OR SPILLED"
    "is_spilled (with_spilled c start len)" "length (c_text (with_spilled c start len)) = 4"
proof -
  obtain x y z w where q: "to_le 4 start = [x, y, z, w]"
    by (rule four_bytes [OF length_to_le])
  have v: "from_le [x, y, z, w] = start"
    using assms(1) from_le_to_le [of start 4] by (simp add: q LOCATED_def)
  have "w = 0"
  proof (rule ccontr)
    assume "w \<noteq> 0"
    then have "1 \<le> unat w" by (simp add: Suc_le_eq unat_gt_0)
    then show False using v assms(1) by (simp add: LOCATED_def)
  qed
  then show "locator (with_spilled c start len) = Some (start, len)"
    "c_word (with_spilled c start len) = (c_word c AND KEPT) OR SPILLED"
    "is_spilled (with_spilled c start len)" "length (c_text (with_spilled c start len)) = 4"
    using v assms(2) by (simp_all add: with_spilled_def q locator_def is_spilled_bit unat_byte_of)
qed

lemma locator_bounds: "locator c = Some (start, len) \<Longrightarrow> start < LOCATED \<and> len < 256"
proof -
  assume "locator c = Some (start, len)"
  then obtain x y z w :: byte where "start = from_le [x, y, z, 0]" "len = unat w"
    unfolding locator_def by (auto simp del: from_le.simps split: if_splits list.splits)
  then show ?thesis using unat_byte [of x] unat_byte [of y] unat_byte [of z] unat_byte [of w] by (simp add: LOCATED_def)
qed

lemma locator_None: "length (c_text c) = 4 \<Longrightarrow> locator c = None \<longleftrightarrow> \<not> is_spilled c"
  by (erule four_bytes) (simp add: locator_def)

lemma locator_inline: "\<not> is_spilled c \<Longrightarrow> locator c = None"
  by (simp add: locator_def)

text \<open>A character joined to an inline text.\<close>

lemma or_disjoint:
  assumes "(a :: nat) < 2 ^ k"
  shows "a OR push_bit k b = a + 2 ^ k * b"
proof -
  have "take_bit k a = a" using assms by (simp add: take_bit_nat_eq_self)
  then have "\<not> bit a n" if "k \<le> n" for n using that by (metis bit_take_bit_iff leD)
  then have "a AND push_bit k b = 0" by (intro bit_eqI) (auto simp: bit_and_iff bit_push_bit_iff)
  then show ?thesis by (simp add: disjunctive_add_eq_or [symmetric] push_bit_eq_mult mult.commute)
qed

lemma length_utf8: "scalar c \<Longrightarrow> 1 \<le> length (utf8_encode c) \<and> length (utf8_encode c) \<le> 4"
  by (auto simp: utf8_encode_def)

lemma encode_no_nul: "scalar c \<Longrightarrow> c \<noteq> 0 \<Longrightarrow> 0 \<notin> set (utf8_encode c)"
proof (cases "c < 128")
  case True
  assume "c \<noteq> 0"
  moreover have "byte_of c = 0 \<Longrightarrow> c = 0" using unat_byte_of [of c] True by simp
  ultimately show ?thesis using True by (auto simp: utf8_encode_def)
next
  case False
  assume "scalar c"
  with False obtain b bs where "utf8_encode c = b # bs" "192 \<le> unat b" "\<forall>x \<in> set bs. 128 \<le> unat x"
    by (metis utf8_shape linorder_not_less)
  then show ?thesis by auto
qed

lemma text_ok_append:
  assumes "text_ok u" "scalar c" "c \<noteq> 0"
  shows "text_ok (u @ utf8_encode c)"
proof -
  have "u = text_of (chars_of u)" "list_all scalar (chars_of u)"
    using assms(1) texts_are_characters [of u] by (auto simp: text_ok_def)
  then have "u @ utf8_encode c = text_of (chars_of u @ [c])" "list_all scalar (chars_of u @ [c])"
    using assms(2) by (simp_all add: text_of_append)
  then have "utf8_valid (u @ utf8_encode c)" using text_of_valid by metis
  then show ?thesis using assms(1) encode_no_nul [OF assms(2,3)] by (auto simp: text_ok_def)
qed

lemma inline_with_cell:
  assumes "inline_cell c" "scalar ch" "ch \<noteq> 0" "inline_with c ch = Some d"
  shows "inline_cell d \<and> inline_bytes d = inline_bytes c @ utf8_encode ch \<and> c_word d = c_word c AND KEPT"
proof -
  let ?u = "inline_bytes c" and ?e = "utf8_encode ch"
  have c: "c_text c = padded ?u" "text_ok ?u" "\<not> is_spilled c" "length ?u \<le> 4"
    using assms(1) length_inline_bytes [of c] by (auto simp: inline_cell_def)
  have "?u = [] \<or> last ?u \<noteq> 0" using c(2) last_in_set [of ?u] by (metis text_ok_def)
  then have used: "bytes_used (from_le (c_text c)) = length ?u"
    unfolding c(1) padded_def by (intro bytes_used_text c(4))
  have n: "from_le (c_text c) = from_le ?u" unfolding c(1) padded_def by (simp add: from_le_append)
  have d: "length ?u + length ?e \<le> 4"
      "d = \<lparr>c_text = to_le 4 (from_le ?u OR take_bit 32 (push_bit (length ?u * 8) (from_le ?e))), c_word = c_word c AND KEPT\<rparr>"
    using assms(4) unfolding inline_with_def Let_def used unfolding n by (auto split: if_splits)
  have "from_le ?u + 256 ^ length ?u * from_le ?e = from_le (?u @ ?e)" by (simp add: from_le_append)
  also have "\<dots> < 256 ^ length (?u @ ?e)" by (rule from_le_less)
  also have "\<dots> \<le> 256 ^ 4" using d(1) by (intro power_increasing) auto
  finally have less: "from_le ?u + 256 ^ length ?u * from_le ?e < 2 ^ 32" by simp
  have p: "(256 :: nat) ^ length ?u = 2 ^ (length ?u * 8)" using power_mult [of "2 :: nat" 8 "length ?u"] by (simp add: mult.commute)
  have "take_bit 32 (push_bit (length ?u * 8) (from_le ?e)) = push_bit (length ?u * 8) (from_le ?e)"
    using less by (intro take_bit_nat_eq_self) (simp add: push_bit_eq_mult p mult.commute)
  moreover have "from_le ?u OR push_bit (length ?u * 8) (from_le ?e) = from_le ?u + 256 ^ length ?u * from_le ?e"
    using from_le_less [of ?u] unfolding p by (rule or_disjoint)
  moreover have "from_le ?u + 256 ^ length ?u * from_le ?e = from_le (padded (?u @ ?e))"
    by (simp add: padded_def from_le_append)
  ultimately have "c_text d = padded (?u @ ?e)"
    using d to_le_from_le [of "padded (?u @ ?e)" 4] length_padded [of "?u @ ?e"] by simp
  moreover have "\<not> is_spilled d" using d(2) by (simp add: is_spilled_bit)
  ultimately show ?thesis
    using inline_cellI [of d "?u @ ?e"] d text_ok_append [OF c(2) assms(2,3)] by simp
qed

end
