(* ===== verification/Vt_Line.thy ===== *)
theory Vt_Line
  imports Vt_Compact
begin

text \<open>
  A row's cells with their text, to write into (\<open>Line\<close> of
  \<open>fux-vt/src/compact.rs\<close>): how a cluster is set, grown, replaced or moved,
  when a part is compacted, and what is cut where there is no room.  The row
  is shown as what a reader sees of it: each cell's text and the rest of its
  word.
\<close>

section \<open>Cutting a text\<close>

text \<open>\<open>str::is_char_boundary\<close>, and \<open>floor\<close> of \<open>cell.rs\<close>.\<close>

definition char_boundary :: "str \<Rightarrow> nat \<Rightarrow> bool" where
  "char_boundary t i \<longleftrightarrow>
     i = 0 \<or> i = length t \<or> i < length t \<and> (unat (t ! i) < 128 \<or> 192 \<le> unat (t ! i))"

fun floor_end :: "str \<Rightarrow> nat \<Rightarrow> nat" where
  "floor_end t 0 = 0"
| "floor_end t (Suc e) = (if char_boundary t (Suc e) then Suc e else floor_end t e)"

definition floor_text :: "nat \<Rightarrow> str \<Rightarrow> str" where
  "floor_text most t = take (floor_end t (min (length t) most)) t"

section \<open>A line\<close>

record line =
  l_cells :: "compact list"
  l_text :: row_text

definition put_cell :: "nat \<Rightarrow> compact \<Rightarrow> line \<Rightarrow> line" where
  "put_cell i c l = l\<lparr>l_cells := (l_cells l)[i := c]\<rparr>"

definition blank_at :: "nat \<Rightarrow> line \<Rightarrow> line" where
  "blank_at i l = (case get_at (l_cells l) i of None \<Rightarrow> l | Some c \<Rightarrow> put_cell i (blanked c) l)"

definition put_part :: "bool \<Rightarrow> byte list \<Rightarrow> line \<Rightarrow> line" where
  "put_part long bs l = l\<lparr>l_text := set_part long bs (l_text l)\<rparr>"

text \<open>\<open>compact\<close>: only the text of the cells outside \<open>skip\<close> is kept, end to end.\<close>

definition compact_one :: "bool \<Rightarrow> byte list \<Rightarrow> byte list \<Rightarrow> compact \<Rightarrow> byte list \<times> compact" where
  "compact_one long old store c =
     (case spilled long c of
        None \<Rightarrow> (store, c)
      | Some (s, e) \<Rightarrow>
          (case slice old s e of
             Some t \<Rightarrow>
               if length store \<le> u32_max
               then (store @ t, with_spilled c (length store) (unat (last (c_text c))))
               else (store, blanked c)
           | None \<Rightarrow> (store, blanked c)))"

fun compact_cells :: "bool \<Rightarrow> byte list \<Rightarrow> byte list \<Rightarrow> compact list \<Rightarrow> byte list \<times> compact list" where
  "compact_cells long old store [] = (store, [])"
| "compact_cells long old store (c # cs) =
     (let (store1, c') = compact_one long old store c;
          (store2, cs') = compact_cells long old store1 cs
      in (store2, c' # cs'))"

definition compact_line :: "bool \<Rightarrow> nat \<Rightarrow> nat \<Rightarrow> line \<Rightarrow> line" where
  "compact_line long a b l =
     (let old = part long (l_text l);
          cells = l_cells l;
          head = take (min a (length cells)) cells;
          rest = drop (min a (length cells)) cells;
          (store1, head') = compact_cells long old [] head;
          (store2, tail') = compact_cells long old store1 (drop (b - a) rest)
      in put_part long store2 (l\<lparr>l_cells := head' @ take (b - a) rest @ tail'\<rparr>))"

definition held_of :: "bool \<Rightarrow> compact \<Rightarrow> nat" where
  "held_of long c = (case spilled long c of Some (s, e) \<Rightarrow> e - s | None \<Rightarrow> 0)"

definition live :: "bool \<Rightarrow> compact list \<Rightarrow> nat" where
  "live long cells = sum_list (map (held_of long) cells)"

definition live_long :: "line \<Rightarrow> nat" where
  "live_long l = live True (l_cells l)"

definition store_long :: "nat \<Rightarrow> compact \<Rightarrow> byte list \<Rightarrow> bool \<Rightarrow> bool \<Rightarrow> line \<Rightarrow> bool \<times> line" where
  "store_long i cell t replace compacted l =
     (let limit = long_limit (length (l_cells l));
          l1 = (if limit < length (t_long (l_text l)) + length t then
                  let l0 = (if replace then blank_at i l else l)
                  in if \<not> compacted \<and> live_long l0 + length t \<le> limit then compact_line True 0 0 l0 else l0
                else l);
          store = t_long (l_text l1)
      in if length store \<le> u32_max \<and> length t \<le> 255 \<and> i < length (l_cells l1) \<and> length store + length t \<le> limit
         then (True, put_cell i (with_spilled cell (length store) (length t)) (put_part True (store @ t) l1))
         else (False, l1))"

definition store_short :: "nat \<Rightarrow> compact \<Rightarrow> byte list \<Rightarrow> bool \<Rightarrow> line \<Rightarrow> bool \<times> line" where
  "store_short i cell t compacted l =
     (case holding cell t of
        Some d \<Rightarrow> (True, put_cell i d l)
      | None \<Rightarrow>
          let limit = short_limit (length (l_cells l));
              l1 = (if limit < length (t_short (l_text l)) + length t then
                      let l0 = blank_at i l in if compacted then l0 else compact_line False 0 0 l0
                    else l);
              store = t_short (l_text l1)
          in if \<not> (i < length (l_cells l1) \<and> length store \<le> u32_max \<and> length t \<le> 255) then (False, l1)
             else if limit < length store + length t then
               (False, put_cell i
                  (case holding cell (floor_text 4 (utf8_or_empty t)) of Some d \<Rightarrow> d | None \<Rightarrow> blanked cell) l1)
             else (True, put_cell i (with_spilled cell (length store) (length t)) (put_part False (store @ t) l1)))"

definition store :: "nat \<Rightarrow> compact \<Rightarrow> str \<Rightarrow> bool \<Rightarrow> line \<Rightarrow> bool \<times> line" where
  "store i cell t compacted l =
     (if length (l_cells l) \<le> i then (False, l)
      else if length t \<le> SHORT then store_short i cell t compacted l
      else
        let (kept, l1) = store_long i cell t True compacted l
        in if kept then (True, l1)
           else (False, snd (store_short i cell (floor_text SHORT t) compacted l1)))"

definition line_set :: "nat \<Rightarrow> compact \<Rightarrow> str \<Rightarrow> line \<Rightarrow> bool \<times> line" where
  "line_set i cell t l =
     (let kept = floor_text CLUSTER_CAPACITY t;
          (whole, l1) = store i cell kept False l
      in (whole \<and> length kept = length t, l1))"

definition set_compacted :: "nat \<Rightarrow> compact \<Rightarrow> str \<Rightarrow> line \<Rightarrow> bool \<times> line" where
  "set_compacted i cell t l =
     (let kept = floor_text CLUSTER_CAPACITY t;
          (whole, l1) = store i cell kept True l
      in (whole \<and> length kept = length t, l1))"

text \<open>\<open>join\<close>: two pieces in a buffer, if they fit.\<close>

definition join :: "nat \<Rightarrow> byte list \<Rightarrow> byte list \<Rightarrow> byte list option" where
  "join room a b = (if length a + length b \<le> room then Some (a @ b) else None)"

definition grows_in_place :: "bool \<Rightarrow> nat \<Rightarrow> nat \<Rightarrow> compact \<Rightarrow> line \<Rightarrow> (nat \<times> nat) option" where
  "grows_in_place long added whole_len cell l =
     (case spilled long cell of
        Some (s, e) \<Rightarrow>
          let held = part long (l_text l)
          in if e = length held \<and> (long \<longrightarrow> length held + added \<le> long_limit (length (l_cells l))) \<and>
               s \<le> u32_max \<and> whole_len \<le> 255
             then Some (s, e) else None
      | None \<Rightarrow> None)"

definition line_append :: "nat \<Rightarrow> nat \<Rightarrow> line \<Rightarrow> bool \<times> line" where
  "line_append i ch l =
     (case get_at (l_cells l) i of
        None \<Rightarrow> (False, l)
      | Some cell \<Rightarrow>
          let encoded = utf8_encode ch;
              current = followed (l_text l) cell;
              whole_len = length current + length encoded;
              long = SHORT < whole_len
          in if CLUSTER_CAPACITY < whole_len then (False, l)
             else (case inline_with cell ch of
                 Some joined \<Rightarrow> (True, put_cell i joined l)
               | None \<Rightarrow>
                   (case grows_in_place long (length encoded) whole_len cell l of
                      Some (s, e) \<Rightarrow>
                        (True, put_cell i (with_spilled cell s whole_len) (put_part long (part long (l_text l) @ encoded) l))
                    | None \<Rightarrow>
                        if \<not> long then
                          (case join SHORT current encoded of
                             None \<Rightarrow> (False, l)
                           | Some joined \<Rightarrow> store_short i cell joined False l)
                        else
                          (case join CLUSTER_CAPACITY current encoded of
                             None \<Rightarrow> (False, l)
                           | Some joined \<Rightarrow> store_long i cell joined False False l))))"

definition replaces :: "nat \<Rightarrow> nat \<Rightarrow> line \<Rightarrow> bool" where
  "replaces i len l =
     (case Option.bind (get_at (l_cells l) i) locator of Some (s, held) \<Rightarrow> held = len | None \<Rightarrow> False)"

definition line_replace :: "nat \<Rightarrow> compact \<Rightarrow> str \<Rightarrow> line \<Rightarrow> line" where
  "line_replace i cell t l =
     (case Option.bind (get_at (l_cells l) i) locator of
        None \<Rightarrow> l
      | Some (s, len) \<Rightarrow>
          let long = SHORT < len; held = part long (l_text l)
          in if s + len \<le> length held \<and> s \<le> u32_max \<and> len \<le> 255 \<and> len = length t
             then put_cell i (with_spilled cell s len)
               (put_part long (take s held @ t @ drop (s + len) held) l)
             else l)"

text \<open>\<open>get_mut\<close> of a range that is not there blanks nothing.\<close>

definition clear_for :: "nat \<Rightarrow> nat \<Rightarrow> line \<Rightarrow> line" where
  "clear_for a b l =
     (let cells = l_cells l;
          l0 = (if a \<le> b \<and> b \<le> length cells
                then l\<lparr>l_cells := take a cells @ map blanked (take (b - a) (drop a cells)) @ drop b cells\<rparr> else l);
          l1 = (if t_long (l_text l0) = [] then l0 else compact_line True a b l0)
      in if t_short (l_text l1) = [] then l1 else compact_line False a b l1)"

definition line_text :: "nat \<Rightarrow> line \<Rightarrow> str" where
  "line_text i l = (case get_at (l_cells l) i of None \<Rightarrow> [] | Some c \<Rightarrow> text_in (l_text l) c)"

definition store_again :: "(nat \<times> compact) list \<Rightarrow> row_text \<Rightarrow> line \<Rightarrow> line" where
  "store_again again old l =
     fold (\<lambda>(i, c) l. snd (line_set i c (text_in old c) l)) again
       (fold (\<lambda>(i, c) l. if i < length (l_cells l) then put_cell i (blanked c) l else l) again l)"

definition rebuilt :: "compact list \<Rightarrow> row_text \<Rightarrow> line" where
  "rebuilt cells old =
     (if text_is_empty old then \<lparr>l_cells = cells, l_text = NO_TEXT\<rparr>
      else store_again (filter (\<lambda>(i, c). is_spilled c) (enumerate 0 cells)) old
        \<lparr>l_cells = cells, l_text = NO_TEXT\<rparr>)"

text \<open>The row's text, as the invariant checker reads it.\<close>

definition text_check :: "nat \<Rightarrow> line \<Rightarrow> bool" where
  "text_check width l \<longleftrightarrow>
     length (t_long (l_text l)) \<le> long_limit width \<and>
     length (t_short (l_text l)) \<le> short_limit width + CLUSTER_CAPACITY \<and>
     list_all (\<lambda>c. locator c = None \<or>
       text_in (l_text l) c \<noteq> [] \<and> length (text_in (l_text l) c) \<le> CLUSTER_CAPACITY) (l_cells l)"

section \<open>Cutting ends a text where a character does\<close>

lemma floor_end_le: "floor_end t e \<le> e"
  by (induction e) auto

lemma floor_end_boundary: "char_boundary t (floor_end t e)"
  by (induction e) (auto simp: char_boundary_def)

lemma take_boundary:
  "list_all scalar cs \<Longrightarrow> char_boundary (text_of cs) i \<Longrightarrow> utf8_valid (take i (text_of cs))"
proof (induction cs arbitrary: i)
  case (Cons c cs)
  let ?e = "utf8_encode c"
  have c: "scalar c" "list_all scalar cs" using Cons.prems by auto
  show ?case
  proof (cases "i < length ?e")
    case True
    have "i = 0"
    proof (rule ccontr)
      assume i: "i \<noteq> 0"
      have "128 \<le> c" using True i by (auto simp: utf8_encode_def split: if_splits)
      then obtain b bs where b: "?e = b # bs" "\<forall>x \<in> set bs. 128 \<le> unat x \<and> unat x < 192"
        using utf8_shape c(1) by metis
      have "text_of (c # cs) ! i \<in> set bs" using True i b(1) by (cases i) (auto simp: nth_append)
      then show False using Cons.prems(2) b i True by (auto simp: char_boundary_def)
    qed
    then show ?thesis by simp
  next
    case False
    have "char_boundary (text_of cs) (i - length ?e)"
      using Cons.prems(2) False by (auto simp: char_boundary_def nth_append)
    then have "utf8_valid (take (i - length ?e) (text_of cs))" by (rule Cons.IH [OF c(2)])
    then show ?thesis using False c(1) utf8_valid_encode by simp
  qed
qed simp

lemma floor_text_valid: "utf8_valid t \<Longrightarrow> utf8_valid (floor_text most t)"
  using take_boundary [of "chars_of t" "floor_end t (min (length t) most)"] texts_are_characters [of t]
    floor_end_boundary [of t "min (length t) most"] by (simp add: floor_text_def)

lemma floor_text_ok: "text_ok t \<Longrightarrow> text_ok (floor_text most t)"
  using floor_text_valid [of t most] set_take_subset unfolding text_ok_def floor_text_def by fast

lemma floor_text_length: "length (floor_text most t) \<le> most"
  using floor_end_le [of t "min (length t) most"] by (simp add: floor_text_def)

lemma floor_text_whole: "length t \<le> most \<Longrightarrow> floor_text most t = t"
  by (cases "length t") (simp_all add: floor_text_def min_absorb1 char_boundary_def)

lemma floor_text_same: "length (floor_text most t) = length t \<longleftrightarrow> length t \<le> most"
  using floor_text_length [of most t] floor_text_whole [of t most] by auto

end
