(* ===== verification/Vt_Row.thy ===== *)
theory Vt_Row
  imports Vt_Line
begin

text \<open>
  What a row of cells promises: every cell's text is where the cell says, no
  two share bytes, and the parts stay within their limits (\<open>line_ok\<close>).
  Writing to a row is what it is on the list of its texts (\<open>shown\<close>), whatever
  is moved to make room.
\<close>

section \<open>The invariant\<close>

definition located :: "row_text \<Rightarrow> compact \<Rightarrow> bool" where
  "located t c \<longleftrightarrow>
     (if is_spilled c then
        (case locator c of
           None \<Rightarrow> False
         | Some (s, len) \<Rightarrow>
             4 < len \<and> len \<le> CLUSTER_CAPACITY \<and> s + len \<le> length (part (SHORT < len) t) \<and>
             length (c_text c) = 4 \<and> text_ok (kept_bytes t c))
      else inline_cell c)"

definition apart :: "bool \<Rightarrow> compact \<Rightarrow> compact \<Rightarrow> bool" where
  "apart long c d \<longleftrightarrow>
     (case spilled long c of
        None \<Rightarrow> True
      | Some (s, e) \<Rightarrow> (case spilled long d of None \<Rightarrow> True | Some (s', e') \<Rightarrow> e \<le> s' \<or> e' \<le> s))"

definition short_start :: "nat \<Rightarrow> compact \<Rightarrow> bool" where
  "short_start n c \<longleftrightarrow> (case spilled False c of None \<Rightarrow> True | Some (s, e) \<Rightarrow> s \<le> short_limit n)"

definition line_ok :: "line \<Rightarrow> bool" where
  "line_ok l \<longleftrightarrow>
     (let cells = l_cells l; n = length cells in
      n * SHORT \<le> LOCATED \<and> (\<forall>c \<in> set cells. located (l_text l) c) \<and>
      sorted_wrt (apart True) cells \<and> sorted_wrt (apart False) cells \<and>
      (\<forall>c \<in> set cells. short_start n c) \<and>
      length (t_long (l_text l)) \<le> long_limit n \<and>
      length (t_short (l_text l)) \<le> short_limit n + SHORT)"

text \<open>A row as it is read: each cell's text, and its style, halves and protection.\<close>

type_synonym row = "(str \<times> 32 word) list"

definition shown :: "line \<Rightarrow> row" where
  "shown l = map (\<lambda>c. (text_in (l_text l) c, c_word c AND KEPT)) (l_cells l)"

lemma length_shown [simp]: "length (shown l) = length (l_cells l)"
  by (simp add: shown_def)

section \<open>Cells where they say\<close>

lemma slice_Some: "slice bs s e = Some t \<longleftrightarrow> s \<le> e \<and> e \<le> length bs \<and> t = take (e - s) (drop s bs)"
  by (auto simp: slice_def)

lemma spilled_locator: "spilled long c = Some (s, e) \<longleftrightarrow> (\<exists>len. locator c = Some (s, len) \<and> e = s + len \<and> (SHORT < len) = long)"
  by (auto simp: spilled_def split: option.splits if_splits)

lemma spilled_one: "spilled long c = Some r \<Longrightarrow> spilled (\<not> long) c = None"
  by (auto simp: spilled_def split: option.splits if_splits)

lemma spilled_inline: "\<not> is_spilled c \<Longrightarrow> spilled long c = None"
  by (simp add: spilled_def locator_def)

lemma located_cases:
  assumes "located t c"
  obtains "\<not> is_spilled c" "inline_cell c" "kept_bytes t c = inline_bytes c" "text_in t c = inline_bytes c"
      "length (inline_bytes c) \<le> 4" "locator c = None" "\<forall>long. spilled long c = None"
  | s len where "is_spilled c" "locator c = Some (s, len)" "4 < len" "len \<le> CLUSTER_CAPACITY"
      "s + len \<le> length (part (SHORT < len) t)" "text_ok (kept_bytes t c)" "text_in t c = kept_bytes t c"
      "kept_bytes t c = take len (drop s (part (SHORT < len) t))" "length (kept_bytes t c) = len"
      "spilled (SHORT < len) c = Some (s, s + len)"
proof (cases "is_spilled c")
  case False
  then have i: "inline_cell c" using assms by (simp add: located_def)
  then have "length (c_text c) = 4" unfolding inline_cell_def by blast
  then show thesis
    using False i that(1) length_inline_bytes [of c] inline_cell_text [OF i]
    by (simp add: kept_bytes_def text_in_def locator_inline spilled_inline)
next
  case True
  then obtain s len where s: "locator c = Some (s, len)" "4 < len" "len \<le> CLUSTER_CAPACITY"
    "s + len \<le> length (part (SHORT < len) t)" "text_ok (kept_bytes t c)"
    using assms by (auto simp: located_def split: option.splits)
  then have k: "kept_bytes t c = take len (drop s (part (SHORT < len) t))"
    by (simp add: kept_bytes_def or_none_def slice_def)
  show thesis
  proof (rule that(2) [OF True s])
    show "text_in t c = kept_bytes t c" using s by (simp add: text_in_def utf8_or_empty_def text_ok_def)
    show "length (kept_bytes t c) = len" using k s(4) by simp
    show "spilled (SHORT < len) c = Some (s, s + len)" using s(1) by (simp add: spilled_locator)
  qed (rule k)
qed

lemma located_text: "located t c \<Longrightarrow> text_in t c = kept_bytes t c \<and> text_ok (kept_bytes t c) \<and> length (kept_bytes t c) \<le> CLUSTER_CAPACITY"
  by (erule located_cases) (auto simp: inline_cell_def CLUSTER_CAPACITY_def)

lemma located_inline: "inline_cell c \<Longrightarrow> located t c \<and> text_in t c = inline_bytes c \<and> spilled long c = None"
  by (auto simp: located_def inline_cell_def text_in_def locator_def spilled_def inline_cell_text)

lemma located_range: "located t c \<Longrightarrow> spilled long c = Some (s, e) \<Longrightarrow> s + 4 < e \<and> e \<le> length (part long t)"
  by (erule located_cases) (auto simp: spilled_locator)

text \<open>A part that grows keeps what it held.\<close>

definition grown :: "row_text \<Rightarrow> row_text \<Rightarrow> bool" where
  "grown t u \<longleftrightarrow> (\<forall>long. \<exists>extra. part long u = part long t @ extra)"

lemma part_set_part [simp]: "part long (set_part long bs t) = bs" "part (\<not> long) (set_part long bs t) = part (\<not> long) t"
  "part long (set_part (\<not> long) bs t) = part long t"
  by (simp_all add: part_def set_part_def)

lemma grown_set_part: "grown t (set_part long (part long t @ extra) t)"
  unfolding grown_def
proof
  fix x
  show "\<exists>extra'. part x (set_part long (part long t @ extra) t) = part x t @ extra'"
    by (cases "x = long") (auto simp: part_def set_part_def)
qed

lemma grown_refl [simp]: "grown t t"
  by (simp add: grown_def)

lemma located_grown:
  assumes "located t c" "grown t u"
  shows "located u c \<and> kept_bytes u c = kept_bytes t c \<and> text_in u c = text_in t c"
proof (rule located_cases [OF assms(1)])
  fix s len
  assume c: "is_spilled c" "locator c = Some (s, len)" "4 < len" "len \<le> CLUSTER_CAPACITY"
      "s + len \<le> length (part (SHORT < len) t)" "text_ok (kept_bytes t c)" "text_in t c = kept_bytes t c"
  obtain extra where m: "part (SHORT < len) u = part (SHORT < len) t @ extra" using assms(2) by (auto simp: grown_def)
  have k: "kept_bytes u c = kept_bytes t c" using c by (simp add: kept_bytes_def m or_none_def slice_def)
  have "length (c_text c) = 4" using assms(1) c by (simp add: located_def)
  with c k m have "located u c" by (simp add: located_def)
  moreover have "text_in u c = text_in t c" using c(2) k by (simp add: text_in_def)
  ultimately show ?thesis using k by simp
next
  assume "\<not> is_spilled c" "inline_cell c"
  then show ?thesis using assms(1) by (simp add: located_def kept_bytes_def text_in_def locator_inline)
qed

lemma cells_apart_sym: "apart long c d \<longleftrightarrow> apart long d c"
  by (auto simp: apart_def split: option.splits)

lemma apart_none: "spilled long c = None \<Longrightarrow> apart long c d \<and> apart long d c"
  by (auto simp: apart_def split: option.splits)

lemma sorted_apart_nth:
  "sorted_wrt (apart long) cs \<longleftrightarrow> (\<forall>i j. i < length cs \<longrightarrow> j < length cs \<longrightarrow> i \<noteq> j \<longrightarrow> apart long (cs ! i) (cs ! j))"
  (is "?l \<longleftrightarrow> ?r")
proof
  assume ?l
  then have "\<And>i j. i < j \<Longrightarrow> j < length cs \<Longrightarrow> apart long (cs ! i) (cs ! j)" by (simp add: sorted_wrt_iff_nth_less)
  then show ?r using cells_apart_sym by (metis linorder_neqE_nat)
qed (simp add: sorted_wrt_iff_nth_less)

lemma sorted_apart_update:
  assumes "sorted_wrt (apart long) cs" "\<And>j. j < length cs \<Longrightarrow> j \<noteq> i \<Longrightarrow> apart long d (cs ! j)"
  shows "sorted_wrt (apart long) (cs[i := d])"
  unfolding sorted_apart_nth
proof (intro allI impI)
  fix j k
  assume "j < length (cs[i := d])" "k < length (cs[i := d])" "j \<noteq> k"
  then show "apart long (cs[i := d] ! j) (cs[i := d] ! k)"
    using assms cells_apart_sym [of long d "cs ! j"] by (cases "j = i"; cases "k = i") (simp_all add: sorted_apart_nth)
qed

section \<open>Limits\<close>

lemma long_limit_located: "long_limit n \<le> LOCATED" by (simp add: long_limit_def)
lemma short_limit_located: "short_limit n \<le> LOCATED" by (simp add: short_limit_def)
lemma short_limit_exact: "n * SHORT \<le> LOCATED \<Longrightarrow> short_limit n = n * SHORT"
  by (simp add: short_limit_def)

lemma width_located: "n \<le> u16_max \<Longrightarrow> n * SHORT \<le> LOCATED"
  by (simp add: LOCATED_def SHORT_def u16_max_def)

lemma live_simps [simp]: "live long [] = 0" "live long (c # cs) = held_of long c + live long cs"
  by (simp_all add: live_def)

lemma live_append: "live long (a @ b) = live long a + live long b"
  by (simp add: live_def)

text \<open>What the cells hold of a part is no extra than the part.\<close>

definition bytes_at :: "bool \<Rightarrow> compact \<Rightarrow> nat set" where
  "bytes_at long c = (case spilled long c of None \<Rightarrow> {} | Some (s, e) \<Rightarrow> {s..<e})"

lemma live_card:
  "sorted_wrt (apart long) cs \<Longrightarrow> live long cs = card (\<Union> (bytes_at long ` set cs)) \<and> finite (\<Union> (bytes_at long ` set cs))"
proof (induction cs)
  case (Cons c cs)
  let ?u = "\<Union> (bytes_at long ` set cs)"
  have f: "finite (bytes_at long c)" "card (bytes_at long c) = held_of long c"
    by (auto simp: bytes_at_def held_of_def split: option.splits)
  have "bytes_at long c \<inter> bytes_at long d = {}" if "d \<in> set cs" for d
    using Cons.prems that by (fastforce simp: bytes_at_def apart_def split: option.splits)
  then have "bytes_at long c \<inter> ?u = {}" by blast
  then show ?case using Cons f by (simp add: card_Un_disjoint)
qed simp

lemma live_within:
  assumes "sorted_wrt (apart long) cs" "\<forall>c \<in> set cs. located t c"
  shows "live long cs \<le> length (part long t)"
proof -
  have "\<Union> (bytes_at long ` set cs) \<subseteq> {..<length (part long t)}"
    using assms(2) located_range by (fastforce simp: bytes_at_def split: option.splits)
  then have "card (\<Union> (bytes_at long ` set cs)) \<le> card {..<length (part long t)}" by (intro card_mono) auto
  then show ?thesis using live_card [OF assms(1)] by simp
qed

lemma held_short: "held_of False c \<le> SHORT"
  by (auto simp: held_of_def spilled_locator not_less split: option.splits)

lemma live_short: "live False cs \<le> length cs * SHORT"
  by (induction cs) (auto intro: add_mono held_short)

lemma inline_line_ok:
  assumes "\<forall>c \<in> set cs. inline_cell c" "length cs * SHORT \<le> LOCATED"
  shows "line_ok \<lparr>l_cells = cs, l_text = NO_TEXT\<rparr>"
proof -
  have "located NO_TEXT c" "spilled long c = None" if "c \<in> set cs" for c long
    using assms(1) that located_inline by auto
  then have "\<forall>c \<in> set cs. located NO_TEXT c" "\<forall>c \<in> set cs. \<forall>long. spilled long c = None" by blast+
  moreover from this have "sorted_wrt (apart long) cs" for long by (auto simp: sorted_apart_nth apart_none)
  ultimately show ?thesis using assms(2) by (simp add: line_ok_def NO_TEXT_def short_start_def)
qed

text \<open>A row of blank cells, as one begins.\<close>

definition blank_line :: "nat \<Rightarrow> line" where
  "blank_line n = \<lparr>l_cells = replicate n BLANK, l_text = NO_TEXT\<rparr>"

lemma BLANK_inline: "inline_cell BLANK \<and> inline_bytes BLANK = []"
proof -
  have "c_text BLANK = padded []" "\<not> is_spilled BLANK" by (simp_all add: BLANK_def padded_def is_spilled_bit numeral_eq_Suc)
  then show ?thesis using inline_cellI [of BLANK "[]"] by simp
qed

lemma blank_line_ok: "n * SHORT \<le> LOCATED \<Longrightarrow> line_ok (blank_line n)"
  unfolding blank_line_def using BLANK_inline by (intro inline_line_ok) auto

lemma shown_blank_line: "shown (blank_line n) = replicate n ([], 0)"
  using located_inline [of BLANK NO_TEXT] BLANK_inline by (simp add: shown_def blank_line_def) (simp add: BLANK_def)

section \<open>Writing one cell\<close>

text \<open>
  A cell put in a row whose text has only grown: what the others hold stays,
  and the row is as before if the new cell is located, apart from the others
  and within limits.
\<close>

lemma put_cell_any:
  assumes "line_ok l" "i < length (l_cells l)" "located u d"
    "\<And>j. j < length (l_cells l) \<Longrightarrow> j \<noteq> i \<Longrightarrow>
       located u (l_cells l ! j) \<and> text_in u (l_cells l ! j) = text_in (l_text l) (l_cells l ! j)"
    "\<And>long j. j < length (l_cells l) \<Longrightarrow> j \<noteq> i \<Longrightarrow> apart long d (l_cells l ! j)"
    "short_start (length (l_cells l)) d" "length (t_long u) \<le> long_limit (length (l_cells l))"
    "length (t_short u) \<le> short_limit (length (l_cells l)) + SHORT"
  shows "line_ok (put_cell i d (l\<lparr>l_text := u\<rparr>))"
    and "shown (put_cell i d (l\<lparr>l_text := u\<rparr>)) = (shown l)[i := (text_in u d, c_word d AND KEPT)]"
proof -
  let ?cs = "l_cells l"
  have l: "\<forall>long. sorted_wrt (apart long) ?cs" "length ?cs * SHORT \<le> LOCATED" "\<forall>c \<in> set ?cs. short_start (length ?cs) c"
    using assms(1) by (auto simp: line_ok_def Let_def) (metis (full_types))
  have "located u (?cs[i := d] ! j)" if "j < length ?cs" for j
    using assms(3,4) that by (cases "j = i") auto
  then have "\<forall>x \<in> set (?cs[i := d]). located u x" by (auto simp: in_set_conv_nth)
  moreover have "set (?cs[i := d]) \<subseteq> insert d (set ?cs)" by (rule set_update_subset_insert)
  then have "\<forall>x \<in> set (?cs[i := d]). short_start (length ?cs) x" using assms(6) l(3) by blast
  moreover have "sorted_wrt (apart long) (?cs[i := d])" for long
    by (rule sorted_apart_update) (use l(1) assms(5) in auto)
  ultimately show "line_ok (put_cell i d (l\<lparr>l_text := u\<rparr>))"
    using l(2) assms(7,8) by (simp add: line_ok_def put_cell_def)
  show "shown (put_cell i d (l\<lparr>l_text := u\<rparr>)) = (shown l)[i := (text_in u d, c_word d AND KEPT)]"
  proof (rule nth_equalityI)
    fix j
    assume "j < length (shown (put_cell i d (l\<lparr>l_text := u\<rparr>)))"
    then show "shown (put_cell i d (l\<lparr>l_text := u\<rparr>)) ! j = (shown l)[i := (text_in u d, c_word d AND KEPT)] ! j"
      using assms(4) by (cases "j = i") (simp_all add: shown_def put_cell_def)
  qed (simp add: put_cell_def)
qed

lemma put_cell_ok:
  assumes "line_ok l" "i < length (l_cells l)" "grown (l_text l) u" "located u d"
    "\<And>long j. j < length (l_cells l) \<Longrightarrow> j \<noteq> i \<Longrightarrow> apart long d (l_cells l ! j)"
    "short_start (length (l_cells l)) d" "length (t_long u) \<le> long_limit (length (l_cells l))"
    "length (t_short u) \<le> short_limit (length (l_cells l)) + SHORT"
  shows "line_ok (put_cell i d (l\<lparr>l_text := u\<rparr>))"
    and "shown (put_cell i d (l\<lparr>l_text := u\<rparr>)) = (shown l)[i := (text_in u d, c_word d AND KEPT)]"
proof -
  have "located u (l_cells l ! j) \<and> text_in u (l_cells l ! j) = text_in (l_text l) (l_cells l ! j)"
    if "j < length (l_cells l)" for j
    using located_grown [OF _ assms(3)] assms(1) that by (simp add: line_ok_def Let_def)
  then show "line_ok (put_cell i d (l\<lparr>l_text := u\<rparr>))"
    "shown (put_cell i d (l\<lparr>l_text := u\<rparr>)) = (shown l)[i := (text_in u d, c_word d AND KEPT)]"
    using put_cell_any [OF assms(1,2,4) _ assms(5-8)] by blast+
qed

lemma line_okD:
  assumes "line_ok l"
  shows "length (l_cells l) * SHORT \<le> LOCATED" "c \<in> set (l_cells l) \<Longrightarrow> located (l_text l) c"
    "sorted_wrt (apart long) (l_cells l)" "c \<in> set (l_cells l) \<Longrightarrow> short_start (length (l_cells l)) c"
    "length (t_long (l_text l)) \<le> long_limit (length (l_cells l))"
    "length (t_short (l_text l)) \<le> short_limit (length (l_cells l)) + SHORT"
  using assms unfolding line_ok_def Let_def by (auto, cases long, auto)

lemma put_inline_ok:
  assumes "line_ok l" "i < length (l_cells l)" "inline_cell d"
  shows "line_ok (put_cell i d l) \<and> shown (put_cell i d l) = (shown l)[i := (inline_bytes d, c_word d AND KEPT)]"
proof -
  have d: "spilled long d = None" for long using located_inline [OF assms(3)] by simp
  have "line_ok (put_cell i d (l\<lparr>l_text := l_text l\<rparr>))"
    "shown (put_cell i d (l\<lparr>l_text := l_text l\<rparr>)) = (shown l)[i := (text_in (l_text l) d, c_word d AND KEPT)]"
    by (rule put_cell_ok; use assms line_okD(5,6) [OF assms(1)] located_inline [OF assms(3)] in
        \<open>simp add: apart_none d short_start_def\<close>)+
  then show ?thesis using located_inline [OF assms(3)] by simp
qed

lemma style_kept: "(c_word c AND STYLE) AND KEPT = c_word c AND STYLE"
  by (rule bit_word_eqI) (auto simp: bit_and_iff word_flag_bits)

lemma blank_at_ok:
  assumes "line_ok l" "i < length (l_cells l)"
  shows "line_ok (blank_at i l) \<and> shown (blank_at i l) = (shown l)[i := ([], compact_style (l_cells l ! i))]"
  using put_inline_ok [OF assms, of "blanked (l_cells l ! i)"] blanked_cell [of "l_cells l ! i"] assms(2)
  by (simp add: blank_at_def get_at_def blanked_def compact_blank_def compact_style_def style_kept)

text \<open>A text put at the end of a part.\<close>

lemma put_spilled_ok:
  assumes "line_ok l" "i < length (l_cells l)" "text_ok t" "4 < length t" "length t \<le> CLUSTER_CAPACITY"
    "long = (SHORT < length t)"
    "length (part long (l_text l)) + length t \<le> (if long then long_limit else short_limit) (length (l_cells l))"
  shows "line_ok (put_cell i (with_spilled cell (length (part long (l_text l))) (length t))
            (put_part long (part long (l_text l) @ t) l)) \<and>
    shown (put_cell i (with_spilled cell (length (part long (l_text l))) (length t))
            (put_part long (part long (l_text l) @ t) l)) = (shown l)[i := (t, c_word cell AND KEPT)]"
proof -
  let ?p = "part long (l_text l)" and ?u = "set_part long (part long (l_text l) @ t) (l_text l)"
  let ?d = "with_spilled cell (length ?p) (length t)" and ?n = "length (l_cells l)"
  have "length ?p + length t \<le> LOCATED"
    using assms(7) long_limit_located [of ?n] short_limit_located [of ?n] by (auto split: if_splits)
  then have d: "locator ?d = Some (length ?p, length t)" "c_word ?d = (c_word cell AND KEPT) OR SPILLED" "is_spilled ?d"
      "length (c_text ?d) = 4"
    using with_spilled_cell [of "length ?p" "length t" cell] assms(4,5) by (auto simp: CLUSTER_CAPACITY_def)
  then have k: "kept_bytes ?u ?d = t" using assms(6) by (simp add: kept_bytes_def or_none_def slice_def)
  with d have loc: "located ?u ?d" using assms(3-6) by (simp add: located_def)
  have "apart x ?d c" if "c \<in> set (l_cells l)" for x c
  proof (cases "spilled x c")
    case (Some r)
    then show ?thesis
      using located_range [OF line_okD(2) [OF assms(1) that], of x "fst r" "snd r"] d(1) assms(6)
      by (auto simp: apart_def spilled_def split: option.splits)
  qed (simp add: apart_none)
  moreover have "short_start ?n ?d"
    using d(1) assms(6,7) by (auto simp: short_start_def spilled_def split: option.splits if_splits)
  moreover have "length (t_long ?u) \<le> long_limit ?n" "length (t_short ?u) \<le> short_limit ?n + SHORT"
    using assms(7) line_okD(5,6) [OF assms(1)] by (cases long; simp add: set_part_def part_def)+
  ultimately have "line_ok (put_cell i ?d (l\<lparr>l_text := ?u\<rparr>))"
    "shown (put_cell i ?d (l\<lparr>l_text := ?u\<rparr>)) = (shown l)[i := (text_in ?u ?d, c_word ?d AND KEPT)]"
    by (intro put_cell_ok assms(1,2) grown_set_part loc; simp)+
  moreover have "text_in ?u ?d = t" using located_text [OF loc] k by simp
  ultimately show ?thesis using d(2) by (simp add: put_part_def kept_word)
qed

section \<open>Compacting\<close>

text \<open>
  One cell compacted: with what \<open>compact_cells\<close> gives, its text is at the
  store's end, and nothing else of it changed.
\<close>

definition moved :: "bool \<Rightarrow> row_text \<Rightarrow> row_text \<Rightarrow> compact \<Rightarrow> compact \<Rightarrow> bool" where
  "moved long t u c d \<longleftrightarrow>
     located u d \<and> text_in u d = text_in t c \<and> c_word d AND KEPT = c_word c AND KEPT \<and>
     held_of long d = held_of long c \<and> spilled (\<not> long) d = spilled (\<not> long) c"

definition inside :: "bool \<Rightarrow> nat \<Rightarrow> nat \<Rightarrow> compact \<Rightarrow> bool" where
  "inside long a b c \<longleftrightarrow> (case spilled long c of None \<Rightarrow> True | Some (s, e) \<Rightarrow> a \<le> s \<and> e \<le> b)"

lemma locator_last: "locator c = Some (s, len) \<Longrightarrow> unat (last (c_text c)) = len"
  by (auto simp: locator_def split: if_splits list.splits)

lemma compact_one_moves:
  assumes "located t c" "length kept0 + held_of long c \<le> LOCATED"
    "compact_one long (part long t) kept0 c = (kept1, d)"
  shows "(\<exists>x. kept1 = kept0 @ x) \<and> length kept1 = length kept0 + held_of long c \<and> inside long (length kept0) (length kept1) d"
    and "part (\<not> long) u = part (\<not> long) t \<Longrightarrow> part long u = kept1 @ x \<Longrightarrow> moved long t u c d"
proof -
  have both: "((\<exists>x. kept1 = kept0 @ x) \<and> length kept1 = length kept0 + held_of long c \<and> inside long (length kept0) (length kept1) d) \<and>
    (part (\<not> long) u = part (\<not> long) t \<longrightarrow> part long u = kept1 @ x \<longrightarrow> moved long t u c d)"
  proof (cases "spilled long c")
    case None
    then have e: "kept1 = kept0" "d = c" using assms(3) by (auto simp: compact_one_def)
    have "moved long t u c c" if "part (\<not> long) u = part (\<not> long) t"
    proof (rule located_cases [OF assms(1)])
      assume "inline_cell c"
      then show ?thesis using located_inline by (simp add: moved_def)
    next
      fix s len
      assume c: "is_spilled c" "locator c = Some (s, len)" "4 < len" "len \<le> CLUSTER_CAPACITY"
        "s + len \<le> length (part (SHORT < len) t)" "text_ok (kept_bytes t c)"
      have "(SHORT < len) = (\<not> long)" using None c(2) by (simp add: spilled_def split: if_splits)
      then have p: "part (SHORT < len) u = part (SHORT < len) t" using that by simp
      have k: "kept_bytes u c = kept_bytes t c" using c(2) p by (simp add: kept_bytes_def)
      then have "located u c" using assms(1) c p by (simp add: located_def)
      then show ?thesis using k c(2) by (simp add: moved_def text_in_def)
    qed
    then show ?thesis using e None by (simp add: held_of_def inside_def)
  next
    case (Some r)
    obtain s e where r: "spilled long c = Some (s, e)" using Some by (cases r) simp
    then obtain len where len: "locator c = Some (s, len)" "e = s + len" "(SHORT < len) = long"
      by (auto simp: spilled_locator)
    have c: "4 < len" "len \<le> CLUSTER_CAPACITY" "s + len \<le> length (part long t)" "text_ok (kept_bytes t c)"
      "text_in t c = kept_bytes t c" "kept_bytes t c = take len (drop s (part long t))" "length (kept_bytes t c) = len"
      using len by (rule_tac located_cases [OF assms(1)]; simp)+
    have h: "held_of long c = len" using r len(2) by (simp add: held_of_def)
    have st: "length kept0 < LOCATED" "length kept0 \<le> u32_max"
      using assms(2) h c(1) by (auto simp: LOCATED_def u32_max_def)
    have sl: "slice (part long t) s e = Some (kept_bytes t c)" using c(3,6) len(2) by (simp add: slice_def)
    have e: "kept1 = kept0 @ kept_bytes t c" "d = with_spilled c (length kept0) len"
      using assms(3) r sl st(2) locator_last [OF len(1)] by (simp_all add: compact_one_def)
    have d: "locator d = Some (length kept0, len)" "c_word d = (c_word c AND KEPT) OR SPILLED" "is_spilled d" "length (c_text d) = 4"
      using with_spilled_cell [OF st(1), of len c] c(2) e(2) by (auto simp: CLUSTER_CAPACITY_def)
    have sp: "spilled long d = Some (length kept0, length kept0 + len)" using d(1) len(3) by (simp add: spilled_locator)
    have "moved long t u c d" if "part long u = kept1 @ x"
    proof -
      have "kept_bytes u d = kept_bytes t c"
        using d(1) len(3) that e(1) c(7) by (simp add: kept_bytes_def or_none_def slice_def)
      moreover from this have "located u d" using c d len(3) that e(1) by (simp add: located_def)
      ultimately show ?thesis
        using c(5) d(2) sp h spilled_one [OF sp] spilled_one [OF r] located_text
        by (simp add: moved_def kept_word held_of_def)
    qed
    then show ?thesis using e(1) h c(7) sp by (simp add: inside_def)
  qed
  from both show "(\<exists>x. kept1 = kept0 @ x) \<and> length kept1 = length kept0 + held_of long c \<and> inside long (length kept0) (length kept1) d" ..
  from both show "part (\<not> long) u = part (\<not> long) t \<Longrightarrow> part long u = kept1 @ x \<Longrightarrow> moved long t u c d" by blast
qed

lemma compact_cells_moves:
  assumes "\<forall>c \<in> set cs. located t c" "length kept0 + live long cs \<le> LOCATED"
    "compact_cells long (part long t) kept0 cs = (kept1, ds)"
  shows "(\<exists>x. kept1 = kept0 @ x) \<and> length kept1 = length kept0 + live long cs \<and>
    (\<forall>d \<in> set ds. inside long (length kept0) (length kept1) d) \<and> sorted_wrt (apart long) ds \<and>
    (\<forall>u x. part (\<not> long) u = part (\<not> long) t \<longrightarrow> part long u = kept1 @ x \<longrightarrow> list_all2 (moved long t u) cs ds)"
  using assms
proof (induction cs arbitrary: kept0 ds)
  case (Cons c cs)
  obtain mid d where one: "compact_one long (part long t) kept0 c = (mid, d)" by (cases "compact_one long (part long t) kept0 c")
  obtain ds' where r: "compact_cells long (part long t) mid cs = (kept1, ds')" "ds = d # ds'"
    using Cons.prems(3) one by (auto split: prod.splits)
  have c: "located t c" "length kept0 + held_of long c \<le> LOCATED" using Cons.prems(1,2) by auto
  have m: "\<exists>x. mid = kept0 @ x" "length mid = length kept0 + held_of long c" "inside long (length kept0) (length mid) d"
    using compact_one_moves(1) [OF c one] by auto
  have "length mid + live long cs \<le> LOCATED" using Cons.prems(2) m(2) by simp
  note IH = Cons.IH [OF _ this r(1)]
  have i: "\<exists>x. kept1 = mid @ x" "length kept1 = length mid + live long cs" "sorted_wrt (apart long) ds'"
    "\<forall>d \<in> set ds'. inside long (length mid) (length kept1) d"
    "\<And>u x. part (\<not> long) u = part (\<not> long) t \<Longrightarrow> part long u = kept1 @ x \<Longrightarrow> list_all2 (moved long t u) cs ds'"
    using IH Cons.prems(1) by auto
  have "\<forall>e \<in> set ds'. apart long d e"
    using i(4) m(3) by (fastforce simp: inside_def apart_def split: option.splits)
  moreover have "\<forall>e \<in> set ds. inside long (length kept0) (length kept1) e"
    using i(2,4) m(2,3) by (fastforce simp: r(2) inside_def split: option.splits)
  moreover have "list_all2 (moved long t u) (c # cs) ds"
    if u: "part (\<not> long) u = part (\<not> long) t" "part long u = kept1 @ x" for u x
  proof -
    obtain y where "part long u = mid @ y" using i(1) u(2) by auto
    then show ?thesis using compact_one_moves(2) [OF c one u(1)] i(5) [OF u] by (simp add: r(2))
  qed
  ultimately show ?case using i(1-3) m(1,2) r(2) by auto
qed auto

lemma compact_line_whole:
  "compact_line long 0 0 l =
     (let (kept, cells) = compact_cells long (part long (l_text l)) [] (l_cells l)
      in put_part long kept (l\<lparr>l_cells := cells\<rparr>))"
  by (simp add: compact_line_def split: prod.splits)

lemma moved_all:
  assumes "list_all2 (moved long t u) cs ds"
  shows "live long ds = live long cs" "\<forall>d \<in> set ds. located u d"
    "map (\<lambda>d. (text_in u d, c_word d AND KEPT)) ds = map (\<lambda>c. (text_in t c, c_word c AND KEPT)) cs"
    "map (spilled (\<not> long)) ds = map (spilled (\<not> long)) cs"
  using assms by (induction rule: list_all2_induct) (auto simp: moved_def)

lemma apart_map: "sorted_wrt (apart long) cs = sorted_wrt (\<lambda>x y. case x of None \<Rightarrow> True
     | Some (s, e) \<Rightarrow> (case y of None \<Rightarrow> True | Some (s', e') \<Rightarrow> e \<le> s' \<or> e' \<le> s)) (map (spilled long) cs)"
  unfolding sorted_wrt_map apart_def by (rule refl)

lemma live_fits:
  assumes "line_ok l"
  shows "live long (l_cells l) \<le> (if long then long_limit else short_limit) (length (l_cells l))"
proof (cases long)
  case True
  then show ?thesis
    using live_within [OF line_okD(3) [OF assms, of long], where t = "l_text l"] line_okD(2,5) [OF assms]
    by (auto simp: part_def)
next
  case False
  then show ?thesis using live_short [of "l_cells l"] short_limit_exact line_okD(1) [OF assms] by simp
qed

lemma compact_ok:
  assumes "line_ok l"
  shows "line_ok (compact_line long 0 0 l)" "shown (compact_line long 0 0 l) = shown l"
    "length (part long (l_text (compact_line long 0 0 l))) = live long (l_cells l)"
    "part (\<not> long) (l_text (compact_line long 0 0 l)) = part (\<not> long) (l_text l)"
    "length (l_cells (compact_line long 0 0 l)) = length (l_cells l)"
proof -
  let ?t = "l_text l" and ?cs = "l_cells l"
  obtain kept ds where k: "compact_cells long (part long ?t) [] ?cs = (kept, ds)"
    by (cases "compact_cells long (part long ?t) [] ?cs")
  let ?u = "set_part long kept ?t"
  have line: "compact_line long 0 0 l = \<lparr>l_cells = ds, l_text = ?u\<rparr>" by (simp add: compact_line_whole k put_part_def)
  have "live long ?cs \<le> LOCATED"
    using live_fits [OF assms, of long] long_limit_located [of "length ?cs"] short_limit_located [of "length ?cs"]
    by (cases long) simp_all
  then have m: "length kept = live long ?cs" "\<forall>d \<in> set ds. inside long 0 (length kept) d" "sorted_wrt (apart long) ds"
    "\<And>x. part long ?u = kept @ x \<Longrightarrow> list_all2 (moved long ?t ?u) ?cs ds"
    using compact_cells_moves [OF _ _ k] line_okD(2) [OF assms] by auto
  then have a: "list_all2 (moved long ?t ?u) ?cs ds" using m(4) [of "[]"] by simp
  then have n: "length ds = length ?cs" by (simp add: list_all2_lengthD)
  have o: "sorted_wrt (apart (\<not> long)) ds"
    using line_okD(3) [OF assms, of "\<not> long"] unfolding apart_map moved_all(4) [OF a] .
  have s: "short_start (length ?cs) d" if "d \<in> set ds" for d
  proof (cases long)
    case True
    then have "map (spilled False) ds = map (spilled False) ?cs" using moved_all(4) [OF a] by simp
    moreover have "spilled False d \<in> set (map (spilled False) ds)" using that by simp
    ultimately have "spilled False d \<in> set (map (spilled False) ?cs)" by simp
    then show ?thesis using line_okD(4) [OF assms] by (auto simp: short_start_def)
  next
    case False
    have "inside False 0 (length kept) d" using m(2) that False by simp
    moreover have "length kept \<le> short_limit (length ?cs)" using m(1) live_fits [OF assms, of False] False by simp
    moreover have "s \<le> e" if "spilled False d = Some (s, e)" for s e using that by (auto simp: spilled_locator)
    ultimately show ?thesis by (cases "spilled False d") (force simp: short_start_def inside_def)+
  qed
  have "length (part long ?u) \<le> (if long then long_limit else short_limit) (length ?cs)"
    using m(1) live_fits [OF assms, of long] by simp
  then have "length (t_long ?u) \<le> long_limit (length ?cs)" "length (t_short ?u) \<le> short_limit (length ?cs) + SHORT"
    using line_okD(5,6) [OF assms] by (cases long; simp add: part_def set_part_def)+
  moreover have "sorted_wrt (apart True) ds" "sorted_wrt (apart False) ds" using m(3) o by (cases long; simp)+
  ultimately show "line_ok (compact_line long 0 0 l)"
    using moved_all(2) [OF a] s n line_okD(1) [OF assms] by (simp add: line line_ok_def)
  show "shown (compact_line long 0 0 l) = shown l" using moved_all(3) [OF a] by (simp add: line shown_def)
  show "length (part long (l_text (compact_line long 0 0 l))) = live long (l_cells l)" using m(1) by (simp add: line)
  show "part (\<not> long) (l_text (compact_line long 0 0 l)) = part (\<not> long) (l_text l)" by (simp add: line)
  show "length (l_cells (compact_line long 0 0 l)) = length (l_cells l)" using n by (simp add: line)
qed

text \<open>What long clusters take of a row, as it is read.\<close>

definition long_total :: "row \<Rightarrow> nat" where
  "long_total row = sum_list (map (\<lambda>(t, w). if SHORT < length t then length t else 0) row)"

lemma held_long: "located t c \<Longrightarrow> held_of True c = (if SHORT < length (text_in t c) then length (text_in t c) else 0)"
  by (erule located_cases) (auto simp: held_of_def spilled_def SHORT_def)

lemma live_long_total: "line_ok l \<Longrightarrow> live_long l = long_total (shown l)"
  using line_okD(2) [of l] held_long unfolding live_long_def live_def long_total_def shown_def
  by (auto simp: comp_def intro!: arg_cong [of _ _ sum_list] map_cong)

section \<open>Setting a cell\<close>

text \<open>The row as it is meant: a cell is set to its text, cut only where it must be.\<close>

definition row_fits :: "nat \<Rightarrow> str \<Rightarrow> row \<Rightarrow> bool" where
  "row_fits i t row \<longleftrightarrow> length t \<le> SHORT \<or> long_total (row[i := ([], 0)]) + length t \<le> long_limit (length row)"

definition row_set :: "nat \<Rightarrow> str \<Rightarrow> 32 word \<Rightarrow> row \<Rightarrow> bool \<times> row" where
  "row_set i t w row =
     (if length row \<le> i then (False, row)
      else
        let kept = floor_text CLUSTER_CAPACITY t
        in if row_fits i kept row then (kept = t, row[i := (kept, w)])
           else (False, row[i := (floor_text SHORT kept, w)]))"

lemma holding_length: "length t \<le> 4 \<Longrightarrow> \<exists>d. holding c t = Some d" "4 < length t \<Longrightarrow> holding c t = None"
  by (simp_all add: holding_def)

lemma long_total_update: "long_total (row[i := ([], w)]) = long_total (row[i := ([], v)])"
  by (cases "i < length row") (simp_all add: long_total_def map_update list_update_beyond)

lemma long_total_blank_le: "long_total (row[i := ([], w)]) \<le> long_total row"
  unfolding long_total_def
  by (induction row arbitrary: i) (auto split: nat.splits intro: add_mono)

lemma blank_at_length [simp]: "length (l_cells (blank_at i l)) = length (l_cells l)"
  "l_text (blank_at i l) = l_text l"
  by (simp_all add: blank_at_def put_cell_def split: option.splits)

lemma blank_at_cells: "i < length (l_cells l) \<Longrightarrow> l_cells (blank_at i l) = (l_cells l)[i := blanked (l_cells l ! i)]"
  by (simp add: blank_at_def put_cell_def get_at_def)

lemma blank_at_live: "i < length (l_cells l) \<Longrightarrow> live long (l_cells (blank_at i l)) + held_of long (l_cells l ! i) = live long (l_cells l)"
proof -
  assume i: "i < length (l_cells l)"
  have "held_of long (blanked (l_cells l ! i)) = 0"
    using blanked_cell [of "l_cells l ! i"] by (simp add: held_of_def spilled_inline)
  moreover have "live long (cs[j := d]) + held_of long (cs ! j) = live long cs + held_of long d" if "j < length cs" for cs j d
    using that by (induction cs arbitrary: j) (auto simp: nth_Cons split: nat.splits)
  ultimately show ?thesis using i by (simp add: blank_at_cells)
qed

lemma put_part_True: "put_part True (t_long (l_text l) @ t) l = put_part True (part True (l_text l) @ t) l"
  by (simp add: part_def)

lemma store_short_ok:
  assumes "line_ok l" "i < length (l_cells l)" "text_ok t" "length t \<le> SHORT"
  shows "\<exists>l1. store_short i cell t False l = (True, l1) \<and> line_ok l1 \<and> shown l1 = (shown l)[i := (t, c_word cell AND KEPT)]"
proof (cases "length t \<le> 4")
  case True
  then obtain d where d: "holding cell t = Some d" using holding_length by blast
  then show ?thesis
    using put_inline_ok [OF assms(1,2), of d] holding_cell [OF d assms(3)] by (simp add: store_short_def kept_word)
next
  case False
  let ?n = "length (l_cells l)" and ?b = "blank_at i l" and ?c = "\<lambda>l. compact_line False 0 0 (blank_at i l)"
  let ?out = "short_limit ?n < length (t_short (l_text l)) + length t"
  obtain l1 where l1: "l1 = (if ?out then ?c l else l)" by simp
  have b: "line_ok ?b" "length (l_cells ?b) = ?n" using blank_at_ok [OF assms(1,2)] by auto
  note c = compact_ok [OF b(1), of False]
  have ok: "line_ok l1" "length (l_cells l1) = ?n" using c(1,5) b(2) assms(1) by (auto simp: l1)
  have sh: "(shown l1)[i := x] = (shown l)[i := x]" for x
    using c(2) blank_at_ok [OF assms(1,2)] by (auto simp: l1)
  have room: "length (t_short (l_text l1)) + length t \<le> short_limit ?n"
  proof (cases ?out)
    case True
    have "live False (l_cells ?b) \<le> (?n - 1) * SHORT"
    proof -
      have "live False (l_cells ?b) = live False (take i (l_cells ?b)) + live False (drop (Suc i) (l_cells ?b))"
        using assms(2) blanked_cell [of "l_cells l ! i"] id_take_nth_drop [of i "l_cells ?b"] b(2)
        by (simp add: blank_at_cells live_append [symmetric])
          (metis (no_types, lifting) add_0 held_of_def live_append live_simps(2) option.simps(4) spilled_inline)
      also have "\<dots> \<le> i * SHORT + (?n - Suc i) * SHORT"
        using live_short [of "take i (l_cells ?b)"] live_short [of "drop (Suc i) (l_cells ?b)"] assms(2) b(2)
        by (intro add_mono) auto
      also have "\<dots> = (?n - 1) * SHORT" using assms(2) by (simp add: add_mult_distrib [symmetric])
      finally show ?thesis .
    qed
    then have "length (t_short (l_text l1)) \<le> (?n - 1) * SHORT" using True c(3) by (simp add: l1 part_def)
    then have "length (t_short (l_text l1)) + length t \<le> (?n - 1) * SHORT + SHORT" using assms(4) by linarith
    also have "\<dots> = ?n * SHORT" using assms(2) by (cases ?n) simp_all
    finally show ?thesis using short_limit_exact line_okD(1) [OF assms(1)] by simp
  qed (simp add: l1)
  let ?l2 = "put_cell i (with_spilled cell (length (part False (l_text l1))) (length t)) (put_part False (part False (l_text l1) @ t) l1)"
  have "length (t_short (l_text l1)) \<le> u32_max" "length t \<le> 255"
    using room short_limit_located [of ?n] assms(4) by (auto simp: LOCATED_def u32_max_def SHORT_def)
  then have "store_short i cell t False l = (True, ?l2)"
    using False room ok(2) assms(2) by (cases ?out) (simp_all add: store_short_def holding_length Let_def l1 part_def)
  moreover have "line_ok ?l2 \<and> shown ?l2 = (shown l1)[i := (t, c_word cell AND KEPT)]"
    using put_spilled_ok [OF ok(1), of i t False] assms(2-4) ok(2) room False
    by (simp add: part_def SHORT_def CLUSTER_CAPACITY_def)
  ultimately show ?thesis by (simp add: sh)
qed

text \<open>A long cluster is stored wherever what the row keeps leaves it room.\<close>

lemma store_long_ok:
  assumes "line_ok l" "i < length (l_cells l)" "text_ok t" "SHORT < length t" "length t \<le> CLUSTER_CAPACITY"
    "store_long i cell t replace False l = (ok, l1)"
  shows "line_ok l1 \<and> length (l_cells l1) = length (l_cells l)"
    and "ok \<Longrightarrow> shown l1 = (shown l)[i := (t, c_word cell AND KEPT)]"
    and "\<not> ok \<Longrightarrow> (shown l1)[i := x] = (shown l)[i := x] \<and> (\<not> replace \<longrightarrow> shown l1 = shown l)"
    and "ok \<or> long_limit (length (l_cells l)) < long_total (if replace then (shown l)[i := ([], 0)] else shown l) + length t"
    and "replace \<Longrightarrow> ok \<Longrightarrow> long_total ((shown l)[i := ([], 0)]) + length t \<le> long_limit (length (l_cells l))"
proof -
  let ?n = "length (l_cells l)"
  obtain l0 where l0: "l0 = (if replace then blank_at i l else l)" by simp
  have b: "line_ok l0" "length (l_cells l0) = ?n" "(shown l0)[i := y] = (shown l)[i := y]" "\<not> replace \<Longrightarrow> l0 = l" for y
    using blank_at_ok [OF assms(1,2)] assms(1) by (auto simp: l0)
  have lt: "live_long l0 = long_total (if replace then (shown l)[i := ([], 0)] else shown l)"
    using live_long_total [OF b(1)] blank_at_ok [OF assms(1,2)] long_total_update [of "shown l" i "compact_style (l_cells l ! i)" 0]
    by (simp add: l0)
  note c = compact_ok [OF b(1), of True]
  let ?go = "live_long l0 + length t \<le> long_limit ?n"
  obtain m where m: "m = (if long_limit ?n < length (t_long (l_text l)) + length t then if ?go then compact_line True 0 0 l0 else l0 else l)"
    by simp
  have ok: "line_ok m" "length (l_cells m) = ?n" "(shown m)[i := y] = (shown l)[i := y]" "\<not> replace \<Longrightarrow> shown m = shown l" for y
    using b c(1,2,5) assms(1) by (auto simp: m)
  let ?fit = "length (t_long (l_text m)) + length t \<le> long_limit ?n"
  let ?l2 = "put_cell i (with_spilled cell (length (part True (l_text m))) (length t)) (put_part True (part True (l_text m) @ t) m)"
  have s: "store_long i cell t replace False l = (if ?fit then (True, ?l2) else (False, m))"
  proof -
    have "length t \<le> 255" using assms(5) by (simp add: CLUSTER_CAPACITY_def)
    moreover have "length (t_long (l_text m)) \<le> u32_max" if ?fit
      using that long_limit_located [of ?n] by (simp add: LOCATED_def u32_max_def)
    moreover have "store_long i cell t replace False l =
        (if length (t_long (l_text m)) \<le> u32_max \<and> length t \<le> 255 \<and> i < length (l_cells m) \<and> ?fit
         then (True, put_cell i (with_spilled cell (length (t_long (l_text m))) (length t)) (put_part True (t_long (l_text m) @ t) m))
         else (False, m))"
      unfolding store_long_def Let_def m l0 by (simp only: simp_thms)
    ultimately show ?thesis using ok(2) assms(2) by (cases ?fit) (simp_all add: part_def)
  qed
  have put: "line_ok ?l2 \<and> shown ?l2 = (shown m)[i := (t, c_word cell AND KEPT)]" if ?fit
    using put_spilled_ok [OF ok(1), of i t True cell] assms(2-5) ok(2) that by (simp add: part_def SHORT_def)
  have "length (l_cells ?l2) = ?n" using ok(2) by (simp add: put_cell_def put_part_def)
  then show "line_ok l1 \<and> length (l_cells l1) = ?n" using s put ok(1,2) assms(6) by (auto split: if_splits)
  show "shown l1 = (shown l)[i := (t, c_word cell AND KEPT)]" if ok
    using s put ok(3) assms(6) that by (auto split: if_splits)
  show "(shown l1)[i := x] = (shown l)[i := x] \<and> (\<not> replace \<longrightarrow> shown l1 = shown l)" if "\<not> ok"
    using s ok(3,4) assms(6) that by (auto split: if_splits)
  have "?fit" if ?go
  proof (cases "long_limit ?n < length (t_long (l_text l)) + length t")
    case True
    then show ?thesis using that c(3) by (simp add: m part_def live_long_def)
  qed (simp add: m)
  then have "?go \<longrightarrow> ?fit" by blast
  then show "ok \<or> long_limit ?n < long_total (if replace then (shown l)[i := ([], 0)] else shown l) + length t"
    using s assms(6) lt by (auto split: if_splits)
  show "long_total ((shown l)[i := ([], 0)]) + length t \<le> long_limit ?n" if "replace" "ok"
  proof (cases "long_limit ?n < length (t_long (l_text l)) + length t")
    case True
    have "?go"
    proof (rule ccontr)
      assume "\<not> ?go"
      then have "m = l0" using True by (simp add: m)
      then have "t_long (l_text m) = t_long (l_text l)" by (simp add: l0)
      then show False using True s that assms(6) by (auto split: if_splits)
    qed
    then show ?thesis using lt that by simp
  next
    case False
    have "live_long l0 \<le> length (part True (l_text l0))"
      unfolding live_long_def by (rule live_within [OF line_okD(3) [OF b(1)]]) (use line_okD(2) [OF b(1)] in blast)
    then show ?thesis using False lt that by (simp add: l0 part_def)
  qed
qed

lemma store_ok:
  assumes "line_ok l" "i < length (l_cells l)" "text_ok t" "length t \<le> CLUSTER_CAPACITY" "store i cell t False l = (ok, l1)"
  shows "line_ok l1 \<and> (ok \<longleftrightarrow> row_fits i t (shown l)) \<and>
    shown l1 = (shown l)[i := (if ok then t else floor_text SHORT t, c_word cell AND KEPT)]"
proof (cases "length t \<le> SHORT")
  case True
  then show ?thesis
    using store_short_ok [OF assms(1-3) True, of cell] assms(2,5) by (auto simp: store_def row_fits_def)
next
  case False
  obtain k m where s: "store_long i cell t True False l = (k, m)" by (cases "store_long i cell t True False l")
  note a = store_long_ok [OF assms(1-3) _ assms(4) s]
  have n: "SHORT < length t" using False by simp
  have m: "line_ok m" "length (l_cells m) = length (l_cells l)" using a(1) [OF n] by auto
  have f: "k \<longleftrightarrow> row_fits i t (shown l)" using a(4,5) [OF n] False by (auto simp: row_fits_def)
  show ?thesis
  proof (cases k)
    case True
    then have "ok" "l1 = m" using assms(2,5) s False by (auto simp: store_def)
    then show ?thesis using True a(2) [OF n] m f by simp
  next
    case k: False
    obtain l2 where l2: "store_short i cell (floor_text SHORT t) False m = (True, l2)" "line_ok l2"
      "shown l2 = (shown m)[i := (floor_text SHORT t, c_word cell AND KEPT)]"
      using store_short_ok [OF m(1), of i "floor_text SHORT t" cell] m(2) assms(2) floor_text_ok [OF assms(3)] floor_text_length
      by auto
    then have "\<not> ok" "l1 = l2" using assms(2,5) s False k by (auto simp: store_def)
    then show ?thesis using k l2 a(3) [OF n] f by simp
  qed
qed

text \<open>
  C6: Setting a cell of a row does to what is read of the row exactly what is
  meant: the cell has its text, cut at 128 bytes, or at 17 where the long
  clusters of the other cells leave it no room; every other cell reads as
  before, wherever its text went; and the row is as sound as it was.
\<close>

theorem set_refines:
  assumes "line_ok l" "text_ok t"
  shows "line_ok (snd (line_set i cell t l)) \<and>
    map_prod id shown (line_set i cell t l) = row_set i t (c_word cell AND KEPT) (shown l)"
proof (cases "i < length (l_cells l)")
  case True
  let ?k = "floor_text CLUSTER_CAPACITY t"
  obtain ok l1 where s: "store i cell ?k False l = (ok, l1)" by (cases "store i cell ?k False l")
  have "length ?k = length t \<longleftrightarrow> ?k = t" using floor_text_same floor_text_whole by metis
  then show ?thesis
    using store_ok [OF assms(1) True floor_text_ok [OF assms(2)] floor_text_length s] True
    by (auto simp: line_set_def s row_set_def Let_def)
next
  case False
  then show ?thesis using assms(1) by (simp add: line_set_def store_def row_set_def Let_def)
qed

lemma two_cells: "replicate 2 x = [x, x]"
  by (simp add: numeral_eq_Suc)

lemma set_refines_witness:
  "map_prod id shown (line_set 0 BLANK [97, 98, 99, 100, 101, 102] (blank_line 2)) =
     (True, [([97, 98, 99, 100, 101, 102], 0), ([], 0)])"
proof -
  have "line_ok (blank_line 2)" by (rule blank_line_ok) (simp add: SHORT_def LOCATED_def)
  moreover have "text_ok [97, 98, 99, 100, 101, 102]" by (simp add: text_ok_def)
  moreover have "(c_word BLANK AND KEPT) = 0" by (simp add: BLANK_def)
  ultimately show ?thesis
    using set_refines [of "blank_line 2" "[97, 98, 99, 100, 101, 102]" 0 BLANK]
    by (simp add: shown_blank_line row_set_def row_fits_def floor_text_whole CLUSTER_CAPACITY_def SHORT_def Let_def two_cells)
qed

section \<open>Appending to a cell\<close>

definition row_joined :: "str \<Rightarrow> nat \<Rightarrow> str" where
  "row_joined t ch = (if t = [] then [32] else t) @ utf8_encode ch"

lemma followed_text: "located t c \<Longrightarrow> followed t c = (if text_in t c = [] then [32] else text_in t c)"
proof (erule located_cases)
  assume c: "inline_cell c" "kept_bytes t c = inline_bytes c" "text_in t c = inline_bytes c" "\<not> is_spilled c"
  have p: "c_text c = padded (inline_bytes c)" "0 \<notin> set (inline_bytes c)" using c(1) by (auto simp: inline_cell_def text_ok_def)
  have "has_contents c \<longleftrightarrow> inline_bytes c \<noteq> []"
  proof (cases "inline_bytes c")
    case Nil
    then show ?thesis using p(1) c(4) by (simp add: has_contents_def padded_def numeral_eq_Suc)
  next
    case (Cons b bs)
    then have "c_text c = b # bs @ replicate (4 - length (b # bs)) 0" "b \<noteq> 0" using p by (auto simp: padded_def)
    then show ?thesis using c(4) Cons by (simp add: has_contents_def)
  qed
  then show ?thesis using c by (simp add: followed_def)
next
  fix s len
  assume "is_spilled c" "4 < len" "text_in t c = kept_bytes t c" "length (kept_bytes t c) = len"
  then show ?thesis by (auto simp: followed_def has_contents_def)
qed

lemma joined_ok: "text_ok t \<Longrightarrow> scalar ch \<Longrightarrow> ch \<noteq> 0 \<Longrightarrow> text_ok (row_joined t ch)"
  using text_ok_append [of t ch] text_ok_append [of "[32]" ch] by (simp add: row_joined_def text_ok_def)

text \<open>The last cluster of a part grows where it is.\<close>

lemma grow_ok:
  assumes "line_ok l" "i < length (l_cells l)" "spilled long (l_cells l ! i) = Some (s, length (part long (l_text l)))"
    "text_ok (text_in (l_text l) (l_cells l ! i) @ x)" "t = text_in (l_text l) (l_cells l ! i) @ x" "length t \<le> CLUSTER_CAPACITY"
    "long = (SHORT < length t)"
    "long \<longrightarrow> length (part long (l_text l)) + length x \<le> long_limit (length (l_cells l))"
    "l1 = put_cell i (with_spilled (l_cells l ! i) s (length t)) (put_part long (part long (l_text l) @ x) l)"
  shows "line_ok l1 \<and> shown l1 = (shown l)[i := (t, c_word (l_cells l ! i) AND KEPT)]"
proof -
  let ?c = "l_cells l ! i" and ?p = "part long (l_text l)"
  let ?u = "set_part long (?p @ x) (l_text l)" and ?d = "with_spilled (l_cells l ! i) s (length t)"
  have mem: "?c \<in> set (l_cells l)" using assms(2) by simp
  have loc: "located (l_text l) ?c" by (rule line_okD(2) [OF assms(1) mem])
  obtain len where len: "locator ?c = Some (s, len)" "length ?p = s + len" "(SHORT < len) = long"
    using assms(3) by (auto simp: spilled_locator)
  have c: "4 < len" "text_in (l_text l) ?c = take len (drop s ?p)" "length (text_in (l_text l) ?c) = len"
    using len by (rule_tac located_cases [OF loc]; simp)+
  have st: "s < LOCATED" using locator_bounds [OF len(1)] by simp
  have d: "locator ?d = Some (s, length t)" "c_word ?d = (c_word ?c AND KEPT) OR SPILLED" "is_spilled ?d" "length (c_text ?d) = 4"
    using with_spilled_cell [OF st, of "length t" ?c] assms(6) by (auto simp: CLUSTER_CAPACITY_def)
  have t: "length t = len + length x" using assms(5) c(3) by simp
  have L: "(SHORT < length t) = long" using assms(7) by simp
  have "take (length t) (drop s (?p @ x)) = take len (drop s ?p) @ x" using t len(2) by simp
  also have "\<dots> = t" unfolding assms(5) c(2) ..
  finally have p: "take (length t) (drop s (?p @ x)) = t" .
  have bound: "s + length t \<le> length (?p @ x)" using t len(2) by simp
  have k: "kept_bytes ?u ?d = t"
    unfolding kept_bytes_def d(1) option.case prod.case L part_set_part or_none_def slice_def
    using bound p by simp
  have "text_ok t" using assms(4,5) by simp
  moreover have "4 < length t" using c(1) t by simp
  ultimately have ld: "located ?u ?d"
    unfolding located_def d(1) option.case prod.case L k part_set_part using d(3,4) bound assms(6) by simp
  have spd: "spilled long ?d = Some (s, s + length t)" "spilled (\<not> long) ?d = None"
    using d(1) L by (simp_all add: spilled_def)
  have "apart y ?d (l_cells l ! j)" if j: "j < length (l_cells l)" "j \<noteq> i" for y j
  proof (cases "spilled y (l_cells l ! j)")
    case (Some r)
    have r: "fst r + 4 < snd r" "snd r \<le> length (part y (l_text l))"
      using located_range [OF line_okD(2) [OF assms(1)], of "l_cells l ! j" y "fst r" "snd r"] Some j by auto
    have "apart y ?c (l_cells l ! j)"
      using line_okD(3) [OF assms(1), of y] j assms(2) by (auto simp: sorted_apart_nth)
    then show ?thesis
      using Some r spd len(2) by (cases r; cases "y = long") (auto simp: apart_def assms(3) split: option.splits)
  qed (simp add: apart_none)
  moreover have short: "s \<le> short_limit (length (l_cells l))" if "\<not> long"
    using line_okD(4) [OF assms(1) mem] assms(3) that by (simp add: short_start_def)
  moreover have "short_start (length (l_cells l)) ?d"
    using short spd by (cases long) (simp_all add: short_start_def)
  moreover have "length (t_long ?u) \<le> long_limit (length (l_cells l))"
    "length (t_short ?u) \<le> short_limit (length (l_cells l)) + SHORT"
    using L assms(8) line_okD(5,6) [OF assms(1)] short t len(2) by (cases long; auto simp: set_part_def part_def)+
  ultimately have "line_ok (put_cell i ?d (l\<lparr>l_text := ?u\<rparr>))"
    "shown (put_cell i ?d (l\<lparr>l_text := ?u\<rparr>)) = (shown l)[i := (text_in ?u ?d, c_word ?d AND KEPT)]"
    by (intro put_cell_ok assms(1,2) grown_set_part ld; simp)+
  moreover have "text_in ?u ?d = t" using located_text [OF ld] k by simp
  ultimately show ?thesis using d(2) by (simp add: assms(9) put_part_def kept_word)
qed

lemma located_text_spilled:
  assumes "located t c" "spilled long c = Some r"
  shows "4 < length (text_in t c)"
  using assms by (rule_tac located_cases [OF assms(1)]) auto

lemma inline_with_text:
  assumes "located t c" "inline_with c ch = Some d" "scalar ch" "ch \<noteq> 0"
  shows "inline_cell d \<and> inline_bytes d = row_joined (text_in t c) ch \<and> c_word d = c_word c AND KEPT"
proof -
  have n: "\<not> is_spilled c" "has_contents c" using assms(2) by (auto simp: inline_with_def split: if_splits)
  then have i: "inline_cell c" "text_in t c = inline_bytes c"
    using assms(1) located_inline by (auto simp: located_def)
  have "text_in t c \<noteq> []"
    using followed_text [OF assms(1)] n(2) i by (auto simp: followed_def kept_bytes_def locator_inline n(1) split: if_splits)
  then show ?thesis using inline_with_cell [OF i(1) assms(3,4,2)] i(2) by (simp add: row_joined_def)
qed

text \<open>
  C11: A character appended to a cell of a row is at the end of the cell's
  text, after a space where there was none, and nothing else of the row
  reads otherwise; or the row reads as before, and then the cell is not
  there, its text would be past 128 bytes, or the long clusters of the row
  leave it no room.  The row stays sound either way.
\<close>

theorem append_refines:
  assumes "line_ok l" "scalar ch" "ch \<noteq> 0" "line_append i ch l = (ok, l1)"
  shows "line_ok l1 \<and>
    (if ok then i < length (shown l) \<and> length (row_joined (fst (shown l ! i)) ch) \<le> CLUSTER_CAPACITY \<and>
         shown l1 = (shown l)[i := (row_joined (fst (shown l ! i)) ch, snd (shown l ! i))]
     else shown l1 = shown l \<and>
       (i < length (shown l) \<longrightarrow> length (row_joined (fst (shown l ! i)) ch) \<le> CLUSTER_CAPACITY \<longrightarrow>
         SHORT < length (row_joined (fst (shown l ! i)) ch) \<and>
         long_limit (length (shown l)) < long_total (shown l) + length (row_joined (fst (shown l ! i)) ch)))"
proof (cases "i < length (l_cells l)")
  case False
  then show ?thesis using assms(1,4) by (simp add: line_append_def get_at_def)
next
  case i: True
  let ?c = "l_cells l ! i" and ?e = "utf8_encode ch"
  let ?t = "text_in (l_text l) ?c"
  let ?j = "row_joined ?t ch"
  have loc: "located (l_text l) ?c" using line_okD(2) [OF assms(1)] i by simp
  have row: "shown l ! i = (?t, c_word ?c AND KEPT)" using i by (simp add: shown_def)
  have ok_j: "text_ok ?j" using joined_ok [OF _ assms(2,3)] located_text [OF loc] by simp
  have joined: "followed (l_text l) ?c @ ?e = ?j" using followed_text [OF loc] by (simp add: row_joined_def)
  then have n: "length (followed (l_text l) ?c) + length ?e = length ?j" by (metis length_append)
  have len: "length ?t + length ?e \<le> length ?j" by (simp add: row_joined_def)
  let ?long = "SHORT < length ?j"
  have app: "line_append i ch l =
     (if CLUSTER_CAPACITY < length ?j then (False, l)
      else case inline_with ?c ch of
        Some d \<Rightarrow> (True, put_cell i d l)
      | None \<Rightarrow>
          (case grows_in_place ?long (length ?e) (length ?j) ?c l of
             Some (s, e) \<Rightarrow> (True, put_cell i (with_spilled ?c s (length ?j)) (put_part ?long (part ?long (l_text l) @ ?e) l))
           | None \<Rightarrow> if ?long then store_long i ?c ?j False False l else store_short i ?c ?j False l))"
    using i by (simp add: line_append_def get_at_def Let_def n join_def joined split: option.splits)
  show ?thesis
  proof (cases "CLUSTER_CAPACITY < length ?j")
    case True
    then show ?thesis using app assms(1,4) row by simp
  next
    case cap: False
    then have le: "length ?j \<le> CLUSTER_CAPACITY" by simp
    show ?thesis
    proof (cases "inline_with ?c ch")
      case (Some d)
      note d = inline_with_text [OF loc Some assms(2,3)]
      then show ?thesis using app assms(4) cap Some i row put_inline_ok [OF assms(1) i, of d] by (simp add: kept_word)
    next
      case inl: None
      show ?thesis
      proof (cases "grows_in_place ?long (length ?e) (length ?j) ?c l")
        case (Some r)
        obtain s e where r: "r = (s, e)" by (cases r)
        have s: "spilled ?long ?c = Some (s, length (part ?long (l_text l)))"
            "?long \<longrightarrow> length (part ?long (l_text l)) + length ?e \<le> long_limit (length (l_cells l))"
          using Some r unfolding grows_in_place_def by (auto simp: Let_def split: option.splits if_splits)
        have "?t \<noteq> []" using located_text_spilled [OF loc s(1)] by auto
        then have j: "?j = ?t @ ?e" by (simp add: row_joined_def)
        have "line_append i ch l = (True, put_cell i (with_spilled ?c s (length ?j)) (put_part ?long (part ?long (l_text l) @ ?e) l))"
          using app cap inl Some r by simp
        then have l1: "l1 = put_cell i (with_spilled ?c s (length ?j)) (put_part ?long (part ?long (l_text l) @ ?e) l)" "ok"
          using assms(4) by auto
        have "text_ok (?t @ ?e)" using ok_j unfolding j .
        from grow_ok [OF assms(1) i s(1) this j le refl s(2) l1(1)] show ?thesis using l1(2) i row le by simp
      next
        case None
        then have app: "line_append i ch l = (if ?long then store_long i ?c ?j False False l else store_short i ?c ?j False l)"
          using app cap inl by simp
        show ?thesis
        proof (cases ?long)
          case True
          then have "store_long i ?c ?j False False l = (ok, l1)" using app assms(4) by simp
          from store_long_ok [OF assms(1) i ok_j True le this] show ?thesis using i row True le by auto
        next
          case False
          then show ?thesis
            using app assms(4) i row le store_short_ok [OF assms(1) i ok_j, of ?c] by (auto simp: not_less)
        qed
      qed
    qed
  qed
qed

section \<open>Writing over a cell\<close>

lemma overwrite_other:
  assumes "length t = len" "s + len \<le> length h" "e \<le> s \<or> s + len \<le> b" "b \<le> e" "e \<le> length h"
  shows "take (e - b) (drop b (take s h @ t @ drop (s + len) h)) = take (e - b) (drop b h)"
proof (cases "e \<le> s")
  case True
  then have "take e (take s h @ t @ drop (s + len) h) = take e h" using assms(2) by (simp add: min_absorb1)
  then show ?thesis by (metis drop_take)
next
  case False
  then have "s + len \<le> b" using assms(3) by simp
  then have "drop b (take s h @ t @ drop (s + len) h) = drop b h" using assms(1,2) by simp
  then show ?thesis by simp
qed

lemma replace_refines:
  assumes "line_ok l" "text_ok t" "replaces i (length t) l"
  shows "line_ok (line_replace i cell t l) \<and> shown (line_replace i cell t l) = (shown l)[i := (t, c_word cell AND KEPT)]"
proof -
  obtain c s where c: "get_at (l_cells l) i = Some c" "locator c = Some (s, length t)"
    using assms(3) by (auto simp: replaces_def split: option.splits bind_splits)
  then have i: "i < length (l_cells l)" "l_cells l ! i = c" by (auto simp: get_at_Some_iff)
  have loc: "located (l_text l) c" using line_okD(2) [OF assms(1)] i by auto
  let ?len = "length t"
  let ?long = "SHORT < ?len"
  let ?h = "part ?long (l_text l)"
  let ?new = "take s ?h @ t @ drop (s + ?len) ?h"
  let ?u = "set_part ?long ?new (l_text l)" and ?d = "with_spilled cell s ?len"
  have b: "4 < ?len" "?len \<le> CLUSTER_CAPACITY" "s + ?len \<le> length ?h" "spilled ?long c = Some (s, s + ?len)"
    using c(2) by (rule_tac located_cases [OF loc]; simp)+
  have n: "length ?new = length ?h" using b(3) by simp
  have st: "s < LOCATED" "s \<le> u32_max" "?len \<le> 255"
    using locator_bounds [OF c(2)] by (auto simp: LOCATED_def u32_max_def)
  have d: "locator ?d = Some (s, ?len)" "c_word ?d = (c_word cell AND KEPT) OR SPILLED" "is_spilled ?d" "length (c_text ?d) = 4"
    using with_spilled_cell [OF st(1), of ?len cell] st(3) by auto
  have k: "kept_bytes ?u ?d = t"
    unfolding kept_bytes_def d(1) option.case prod.case part_set_part or_none_def slice_def
    using b(3) by simp
  have ld: "located ?u ?d"
    unfolding located_def d(1) option.case prod.case k part_set_part n using d(3,4) b assms(2) by simp
  have spd: "spilled ?long ?d = Some (s, s + ?len)" "spilled (\<not> ?long) ?d = None"
    "spilled (\<not> ?long) c = None" using d(1) c(2) by (simp_all add: spilled_def)
  have other: "located ?u x \<and> text_in ?u x = text_in (l_text l) x" if j: "j < length (l_cells l)" "j \<noteq> i" "x = l_cells l ! j" for x j
  proof -
    have lx: "located (l_text l) x" using line_okD(2) [OF assms(1)] j by auto
    have ap: "apart ?long c x" using line_okD(3) [OF assms(1)] i j by (auto simp: sorted_apart_nth)
    show ?thesis
    proof (rule located_cases [OF lx])
      assume "inline_cell x"
      then show ?thesis using located_inline by simp
    next
      fix a len
      assume x: "is_spilled x" "locator x = Some (a, len)" "4 < len" "len \<le> CLUSTER_CAPACITY"
        "a + len \<le> length (part (SHORT < len) (l_text l))" "text_ok (kept_bytes (l_text l) x)"
        "kept_bytes (l_text l) x = take len (drop a (part (SHORT < len) (l_text l)))"
        "spilled (SHORT < len) x = Some (a, a + len)"
      have k: "a + len \<le> length (part (SHORT < len) ?u) \<and>
          take len (drop a (part (SHORT < len) ?u)) = take len (drop a (part (SHORT < len) (l_text l)))"
      proof (cases "(SHORT < len) = ?long")
        case True
        have "s + ?len \<le> a \<or> a + len \<le> s" using ap b(4) x(8) True by (simp add: apart_def)
        then show ?thesis
          unfolding True part_set_part n using overwrite_other [OF refl b(3), of "a + len" a] x(5) True by auto
      next
        case False
        then have "(SHORT < len) = (\<not> ?long)" by blast
        then show ?thesis using x(5) by simp
      qed
      then have kb: "kept_bytes ?u x = kept_bytes (l_text l) x"
        unfolding kept_bytes_def x(2) option.case prod.case or_none_def slice_def using x(5) by simp
      then have "located ?u x" using lx k x(1-6) by (simp add: located_def)
      then show ?thesis using kb x(2) by (simp add: text_in_def)
    qed
  qed
  have "apart y ?d (l_cells l ! j)" if j: "j < length (l_cells l)" "j \<noteq> i" for y j
  proof -
    have "apart y c (l_cells l ! j)" using line_okD(3) [OF assms(1), of y] i j by (auto simp: sorted_apart_nth)
    then show ?thesis using spd b(4) by (cases "y = ?long") (auto simp: apart_def)
  qed
  moreover have "short_start (length (l_cells l)) ?d"
    using line_okD(4) [OF assms(1), of c] i spd b(4) by (cases ?long) (auto simp: short_start_def)
  moreover have "length (t_long ?u) \<le> long_limit (length (l_cells l))"
    "length (t_short ?u) \<le> short_limit (length (l_cells l)) + SHORT"
    using n line_okD(5,6) [OF assms(1)] by (cases ?long; simp add: set_part_def part_def)+
  ultimately have "line_ok (put_cell i ?d (l\<lparr>l_text := ?u\<rparr>))"
    "shown (put_cell i ?d (l\<lparr>l_text := ?u\<rparr>)) = (shown l)[i := (text_in ?u ?d, c_word ?d AND KEPT)]"
    by (intro put_cell_any assms(1) i(1) ld; use other in simp)+
  moreover have "line_replace i cell t l = put_cell i ?d (l\<lparr>l_text := ?u\<rparr>)"
    using c b(3) st(2,3) by (simp add: line_replace_def Let_def put_part_def)
  moreover have "text_in ?u ?d = t" using located_text [OF ld] k by simp
  ultimately show ?thesis using d(2) by (simp add: kept_word)
qed

lemma append_refines_witness:
  "shown (snd (line_append 0 65 (blank_line 2))) = [([32, 65], 0), ([], 0)]"
proof -
  have "line_ok (blank_line 2)" by (rule blank_line_ok) (simp add: SHORT_def LOCATED_def)
  moreover obtain ok l1 where "line_append 0 65 (blank_line 2) = (ok, l1)" by (cases "line_append 0 65 (blank_line 2)")
  ultimately show ?thesis
    using append_refines [of "blank_line 2" 65 0 ok l1]
    by (simp add: shown_blank_line row_joined_def scalar_def utf8_encode_def byte_of_def SHORT_def CLUSTER_CAPACITY_def two_cells split: if_splits)
qed

end
