(* ===== verification/Vt_Row_Copy.thy ===== *)
theory Vt_Row_Copy
  imports Vt_Row
begin

text \<open>
  Filling cells of a row in bulk: a span cleared first and then set cell by
  cell without compacting again, as a copied rectangle is; and a row's
  text stored again in a fresh row, as a resize does.
\<close>

section \<open>Clearing a span\<close>

text \<open>A row whose parts hold what its cells hold and no more.\<close>

definition tight :: "line \<Rightarrow> bool" where
  "tight l \<longleftrightarrow> (\<forall>long. length (part long (l_text l)) = live long (l_cells l))"

definition row_clear :: "nat \<Rightarrow> nat \<Rightarrow> row \<Rightarrow> row" where
  "row_clear a b row =
     take a row @ map (\<lambda>(t, w). ([], w AND STYLE)) (take (b - a) (drop a row)) @ drop b row"

lemma compact_cells_append:
  "compact_cells long old st (xs @ ys) =
     (let (s1, a) = compact_cells long old st xs; (s2, b) = compact_cells long old s1 ys in (s2, a @ b))"
  by (induction xs arbitrary: st) (auto split: prod.splits)

lemma compact_cells_none: "\<forall>c \<in> set cs. spilled long c = None \<Longrightarrow> compact_cells long old st cs = (st, cs)"
  by (induction cs) (auto simp: compact_one_def)

text \<open>Cells passed over make no difference when they hold nothing of the part.\<close>

lemma compact_skip:
  assumes "a \<le> b" "b \<le> length (l_cells l)" "\<forall>c \<in> set (take (b - a) (drop a (l_cells l))). spilled long c = None"
  shows "compact_line long a b l = compact_line long 0 0 l"
proof -
  let ?cs = "l_cells l"
  have "?cs = take a ?cs @ take (b - a) (drop a ?cs) @ drop (b - a) (drop a ?cs)" by (metis append_take_drop_id)
  then have "compact_cells long old [] ?cs =
    compact_cells long old [] (take a ?cs @ take (b - a) (drop a ?cs) @ drop (b - a) (drop a ?cs))" for old by simp
  then have "compact_cells long old [] ?cs =
    (let (s1, x) = compact_cells long old [] (take a ?cs);
         (s2, y) = compact_cells long old s1 (drop (b - a) (drop a ?cs))
     in (s2, x @ take (b - a) (drop a ?cs) @ y))" for old
    unfolding compact_cells_append compact_cells_none [OF assms(3)] by (simp split: prod.splits)
  then show ?thesis
    using assms(1,2) by (simp add: compact_line_whole) (simp add: compact_line_def split: prod.splits)
qed

lemma blank_run_ok:
  assumes "line_ok l" "a \<le> b" "b \<le> length (l_cells l)"
    "l0 = l\<lparr>l_cells := take a (l_cells l) @ map blanked (take (b - a) (drop a (l_cells l))) @ drop b (l_cells l)\<rparr>"
  shows "line_ok l0 \<and> shown l0 = row_clear a b (shown l) \<and> length (l_cells l0) = length (l_cells l)"
proof -
  let ?cs = "l_cells l"
  have cs: "l_cells l0 ! j = (if a \<le> j \<and> j < b then blanked (?cs ! j) else ?cs ! j)" if "j < length ?cs" for j
    using that assms(2-4) by (auto simp: nth_append min_def)
  have n: "length (l_cells l0) = length ?cs" using assms(2-4) by simp
  have none: "spilled long (blanked c) = None" "located t (blanked c)" for long c t
    using blanked_cell [of c] located_inline by auto
  have "located (l_text l) (l_cells l0 ! j)" "short_start (length ?cs) (l_cells l0 ! j)" if "j < length ?cs" for j
    using cs [OF that] line_okD(2,4) [OF assms(1)] none that by (auto simp: short_start_def)
  then have "\<forall>c \<in> set (l_cells l0). located (l_text l) c" "\<forall>c \<in> set (l_cells l0). short_start (length ?cs) c"
    using n by (auto simp: in_set_conv_nth)
  moreover have "sorted_wrt (apart long) (l_cells l0)" for long
    using line_okD(3) [OF assms(1), of long] n cs none(1) apart_none by (auto simp: sorted_apart_nth)
  ultimately have "line_ok l0" using line_okD(1,5,6) [OF assms(1)] n assms(4) by (simp add: line_ok_def)
  moreover have "(c_word (blanked c)) AND KEPT = (c_word c AND KEPT) AND STYLE" for c
    by (rule bit_word_eqI) (auto simp: blanked_def compact_blank_def compact_style_def bit_and_iff word_flag_bits)
  then have "map (\<lambda>c. (text_in (l_text l) c, c_word c AND KEPT)) (map blanked xs) =
      map ((\<lambda>(t, w). ([], w AND STYLE)) \<circ> (\<lambda>c. (text_in (l_text l) c, c_word c AND KEPT))) xs" for xs
    using blanked_cell located_inline by simp
  then have "shown l0 = row_clear a b (shown l)"
    by (simp add: shown_def row_clear_def assms(4) take_map drop_map)
  ultimately show ?thesis using n by simp
qed

lemma compact_tight:
  assumes "line_ok l"
  shows "length (part long (l_text (compact_line long 0 0 l))) = live long (l_cells (compact_line long 0 0 l))"
    "live (\<not> long) (l_cells (compact_line long 0 0 l)) = live (\<not> long) (l_cells l)"
    "\<forall>j < length (l_cells l). is_spilled (l_cells (compact_line long 0 0 l) ! j) = is_spilled (l_cells l ! j)"
proof -
  let ?t = "l_text l" and ?cs = "l_cells l"
  obtain kept ds where k: "compact_cells long (part long ?t) [] ?cs = (kept, ds)"
    by (cases "compact_cells long (part long ?t) [] ?cs")
  let ?u = "set_part long kept ?t"
  have line: "compact_line long 0 0 l = \<lparr>l_cells = ds, l_text = ?u\<rparr>" by (simp add: compact_line_whole k put_part_def)
  have "live long ?cs \<le> LOCATED"
    using live_fits [OF assms, of long] long_limit_located [of "length ?cs"] short_limit_located [of "length ?cs"]
    by (cases long) simp_all
  then have m: "length kept = live long ?cs" "\<And>x. part long ?u = kept @ x \<Longrightarrow> list_all2 (moved long ?t ?u) ?cs ds"
    using compact_cells_moves [OF _ _ k] line_okD(2) [OF assms] by auto
  then have a: "list_all2 (moved long ?t ?u) ?cs ds" using m(2) [of "[]"] by simp
  then show "length (part long (l_text (compact_line long 0 0 l))) = live long (l_cells (compact_line long 0 0 l))"
    using m(1) moved_all(1) [OF a] by (simp add: line)
  have "map (held_of (\<not> long)) ds = map (held_of (\<not> long)) ?cs"
    using moved_all(4) [OF a] by (auto simp: held_of_def list_eq_iff_nth_eq)
  then show "live (\<not> long) (l_cells (compact_line long 0 0 l)) = live (\<not> long) ?cs" by (simp add: line live_def)
  have "is_spilled (ds ! j) = is_spilled (?cs ! j)" if "j < length ?cs" for j
  proof -
    have l: "located ?u (ds ! j)" "located ?t (?cs ! j)" "text_in ?u (ds ! j) = text_in ?t (?cs ! j)"
      using list_all2_nthD [OF a that] line_okD(2) [OF assms] that by (auto simp: moved_def)
    have "is_spilled d \<longleftrightarrow> 4 < length (text_in x d)" if "located x d" for x d
      using that by (rule located_cases) auto
    then show ?thesis using l by simp
  qed
  then show "\<forall>j < length ?cs. is_spilled (l_cells (compact_line long 0 0 l) ! j) = is_spilled (?cs ! j)"
    by (simp add: line)
qed

definition span_clear :: "nat \<Rightarrow> nat \<Rightarrow> row \<Rightarrow> line \<Rightarrow> bool" where
  "span_clear a b row l \<longleftrightarrow>
     line_ok l \<and> shown l = row \<and> (\<forall>j. a \<le> j \<longrightarrow> j < b \<longrightarrow> \<not> is_spilled (l_cells l ! j))"

lemma compact_span:
  assumes "span_clear a b row l" "a \<le> b" "b \<le> length (l_cells l)"
    "l1 = (if part long (l_text l) = [] then l else compact_line long a b l)"
  shows "span_clear a b row l1 \<and> length (l_cells l1) = length (l_cells l) \<and>
    length (part long (l_text l1)) = live long (l_cells l1) \<and>
    (length (part (\<not> long) (l_text l)) = live (\<not> long) (l_cells l) \<longrightarrow>
       length (part (\<not> long) (l_text l1)) = live (\<not> long) (l_cells l1))"
proof (cases "part long (l_text l) = []")
  case True
  have ok: "line_ok l" using assms(1) by (simp add: span_clear_def)
  have "live long (l_cells l) \<le> length (part long (l_text l))"
    by (rule live_within [OF line_okD(3) [OF ok]]) (use line_okD(2) [OF ok] in blast)
  then show ?thesis using True assms(1,4) by simp
next
  case False
  have ok: "line_ok l" "shown l = row" "\<forall>j. a \<le> j \<longrightarrow> j < b \<longrightarrow> \<not> is_spilled (l_cells l ! j)"
    using assms(1) by (auto simp: span_clear_def)
  have "\<forall>c \<in> set (take (b - a) (drop a (l_cells l))). spilled long c = None"
    using ok(3) assms(2,3) spilled_inline by (auto simp: in_set_conv_nth)
  then have l1: "l1 = compact_line long 0 0 l" using False assms(4) compact_skip [OF assms(2,3)] by simp
  have "\<not> is_spilled (l_cells l1 ! j)" if "a \<le> j" "j < b" for j
    using compact_tight(3) [OF ok(1), of long] that assms(3) ok(3) by (auto simp: l1)
  then show ?thesis
    using compact_ok [OF ok(1), of long] compact_tight [OF ok(1), of long] ok(2) by (simp add: span_clear_def l1)
qed

lemma clear_for_ok:
  assumes "line_ok l" "a \<le> b" "b \<le> length (l_cells l)"
  shows "span_clear a b (row_clear a b (shown l)) (clear_for a b l) \<and> tight (clear_for a b l) \<and>
    length (l_cells (clear_for a b l)) = length (l_cells l)"
proof -
  let ?S = "row_clear a b (shown l)"
  obtain l0 where l0: "l0 = l\<lparr>l_cells := take a (l_cells l) @ map blanked (take (b - a) (drop a (l_cells l))) @ drop b (l_cells l)\<rparr>"
    by simp
  have r: "line_ok l0" "shown l0 = ?S" "length (l_cells l0) = length (l_cells l)"
    using blank_run_ok [OF assms l0] by auto
  have "\<not> is_spilled (l_cells l0 ! j)" if "a \<le> j" "j < b" for j
    using that assms(2,3) blanked_cell by (auto simp: l0 nth_append min_def)
  then have c0: "span_clear a b ?S l0" using r by (simp add: span_clear_def)
  obtain l1 where l1: "l1 = (if part True (l_text l0) = [] then l0 else compact_line True a b l0)" by simp
  have b0: "b \<le> length (l_cells l0)" using r(3) assms(3) by simp
  have c1: "span_clear a b ?S l1" "length (l_cells l1) = length (l_cells l0)" "length (part True (l_text l1)) = live True (l_cells l1)"
    using compact_span [OF c0 assms(2) b0 l1] by auto
  obtain l2 where l2: "l2 = (if part False (l_text l1) = [] then l1 else compact_line False a b l1)" by simp
  have c2: "span_clear a b ?S l2" "length (l_cells l2) = length (l_cells l1)" "length (part False (l_text l2)) = live False (l_cells l2)"
    "length (part True (l_text l2)) = live True (l_cells l2)"
    using compact_span [OF c1(1) assms(2) _ l2] c1(2,3) b0 by auto
  have "clear_for a b l = l2"
    using assms(2,3) by (simp add: clear_for_def Let_def l0 [symmetric] l1 l2 part_def)
  moreover have "tight l2" unfolding tight_def using c2(3,4) by (metis (full_types))
  ultimately show ?thesis using c2(1,2) c1(2) r(3) by simp
qed

section \<open>Setting without compacting again\<close>

lemma live_update: "j < length cs \<Longrightarrow> live long (cs[j := d]) + held_of long (cs ! j) = live long cs + held_of long d"
  by (induction cs arbitrary: j) (auto simp: nth_Cons split: nat.splits)

lemma live_short_others:
  "i < length cs \<Longrightarrow> \<not> is_spilled (cs ! i) \<Longrightarrow> live False cs + SHORT \<le> length cs * SHORT"
proof (induction cs arbitrary: i)
  case (Cons c cs)
  show ?case
  proof (cases i)
    case 0
    then show ?thesis using Cons.prems live_short [of cs] by (simp add: held_of_def spilled_inline)
  next
    case (Suc k)
    then show ?thesis using Cons.prems Cons.IH [of k] held_short [of c] by simp
  qed
qed simp

lemma blank_at_same:
  assumes "i < length (l_cells l)" "\<not> is_spilled (l_cells l ! i)"
  shows "live long (l_cells (blank_at i l)) = live long (l_cells l)"
  using blank_at_live [OF assms(1), of long] assms(2) by (simp add: held_of_def spilled_inline)

text \<open>In a tight row an unspilled cell is set the same, compacting or not, and the row stays tight.\<close>

lemma store_long_tight:
  assumes "line_ok l" "tight l" "i < length (l_cells l)" "\<not> is_spilled (l_cells l ! i)" "SHORT < length t" "length t \<le> CLUSTER_CAPACITY"
  shows "store_long i cell t True True l = store_long i cell t True False l"
    and "tight (snd (store_long i cell t True False l))"
    and "\<not> fst (store_long i cell t True False l) \<Longrightarrow> snd (store_long i cell t True False l) = blank_at i l"
proof -
  let ?limit = "long_limit (length (l_cells l))"
  have p: "length (t_long (l_text l)) = live_long l"
    using assms(2) unfolding tight_def live_long_def by (metis (full_types) part_def)
  have b: "live_long (blank_at i l) = live_long l" using blank_at_same [OF assms(3,4)] by (simp add: live_long_def)
  let ?l2 = "put_cell i (with_spilled cell (length (t_long (l_text l))) (length t)) (put_part True (t_long (l_text l) @ t) l)"
  have s: "store_long i cell t True x l =
      (if live_long l + length t \<le> ?limit then (True, ?l2) else (False, blank_at i l))" for x
  proof -
    have "length t \<le> 255" "live_long l + length t \<le> ?limit \<Longrightarrow> live_long l \<le> u32_max"
      using assms(6) long_limit_located [of "length (l_cells l)"] by (auto simp: CLUSTER_CAPACITY_def LOCATED_def u32_max_def)
    then show ?thesis using assms(3) by (simp add: store_long_def Let_def p b not_less)
  qed
  then show "store_long i cell t True True l = store_long i cell t True False l" by simp
  show "\<not> fst (store_long i cell t True False l) \<Longrightarrow> snd (store_long i cell t True False l) = blank_at i l"
    by (simp add: s split: if_splits)
  have "tight ?l2" if "live_long l + length t \<le> ?limit"
  proof -
    let ?d = "with_spilled cell (length (t_long (l_text l))) (length t)"
    have "length (t_long (l_text l)) < LOCATED" "length t < 256"
      using that p assms(5,6) long_limit_located [of "length (l_cells l)"] by (auto simp: CLUSTER_CAPACITY_def SHORT_def)
    then have d: "held_of True ?d = length t" "held_of False ?d = 0"
      using with_spilled_cell(1) [of "length (t_long (l_text l))" "length t" cell] assms(5)
      by (simp_all add: held_of_def spilled_def)
    have z: "held_of x (l_cells l ! i) = 0" for x using assms(4) by (simp add: held_of_def spilled_inline)
    show ?thesis
      unfolding tight_def
    proof
      fix x
      have "length (part x (l_text l)) = live x (l_cells l)" using assms(2) by (simp add: tight_def)
      then show "length (part x (l_text ?l2)) = live x (l_cells ?l2)"
        using live_update [OF assms(3), of x ?d] d z [of x]
        by (cases x) (simp_all add: put_cell_def put_part_def set_part_def part_def)
    qed
  qed
  moreover have "tight (blank_at i l)" using assms(2) blank_at_same [OF assms(3,4)] by (simp add: tight_def)
  ultimately show "tight (snd (store_long i cell t True False l))" by (simp add: s)
qed

lemma put_inline_tight:
  assumes "tight l" "i < length (l_cells l)" "\<not> is_spilled (l_cells l ! i)" "\<not> is_spilled d"
  shows "tight (put_cell i d l)"
  unfolding tight_def
proof
  fix x
  have "held_of x (l_cells l ! i) = 0" "held_of x d = 0" using assms(3,4) by (simp_all add: held_of_def spilled_inline)
  then show "length (part x (l_text (put_cell i d l))) = live x (l_cells (put_cell i d l))"
    using assms(1) live_update [OF assms(2), of x d] by (simp add: put_cell_def tight_def)
qed

lemma store_short_tight:
  assumes "line_ok l" "tight l" "i < length (l_cells l)" "\<not> is_spilled (l_cells l ! i)" "length t \<le> SHORT"
  shows "store_short i cell t True l = store_short i cell t False l" "tight (snd (store_short i cell t False l))"
proof -
  have "store_short i cell t True l = store_short i cell t False l \<and> tight (snd (store_short i cell t False l))"
  proof (cases "holding cell t")
    case (Some d)
    then have "\<not> is_spilled d" by (auto simp: holding_def is_spilled_bit split: if_splits)
    then show ?thesis using Some put_inline_tight [OF assms(2-4)] by (simp add: store_short_def)
  next
    case None
    let ?limit = "short_limit (length (l_cells l))" and ?s = "t_short (l_text l)"
    have p: "length ?s = live False (l_cells l)" using assms(2) unfolding tight_def by (metis (full_types) part_def)
    have room: "length ?s + length t \<le> ?limit"
      using live_short_others [OF assms(3,4)] short_limit_exact line_okD(1) [OF assms(1)] assms(5) p by simp
    then have st: "length ?s < LOCATED" "length ?s \<le> u32_max" "length t \<le> 255" "4 < length t"
      using None short_limit_located [of "length (l_cells l)"] assms(5)
      by (auto simp: holding_def LOCATED_def u32_max_def SHORT_def split: if_splits)
    let ?d = "with_spilled cell (length ?s) (length t)"
    let ?l2 = "put_cell i ?d (put_part False (?s @ t) l)"
    have s: "store_short i cell t x l = (True, ?l2)" for x
      using None room st(2,3) assms(3) by (simp add: store_short_def Let_def)
    have d: "held_of False ?d = length t" "held_of True ?d = 0"
      using with_spilled_cell(1) [OF st(1), of "length t" cell] assms(5) st(3) by (simp_all add: held_of_def spilled_def)
    have z: "held_of x (l_cells l ! i) = 0" for x using assms(4) by (simp add: held_of_def spilled_inline)
    have "tight ?l2"
      unfolding tight_def
    proof
      fix x
      have "length (part x (l_text l)) = live x (l_cells l)" using assms(2) by (simp add: tight_def)
      then show "length (part x (l_text ?l2)) = live x (l_cells ?l2)"
        using live_update [OF assms(3), of x ?d] d z [of x]
        by (cases x) (simp_all add: put_cell_def put_part_def set_part_def part_def)
    qed
    then show ?thesis by (simp add: s)
  qed
  then show "store_short i cell t True l = store_short i cell t False l" "tight (snd (store_short i cell t False l))" by auto
qed

lemma store_tight:
  assumes "line_ok l" "tight l" "\<not> is_spilled (l_cells l ! i)" "text_ok t" "length t \<le> CLUSTER_CAPACITY"
  shows "store i cell t True l = store i cell t False l \<and> tight (snd (store i cell t False l))"
proof (cases "i < length (l_cells l) \<and> SHORT < length t")
  case True
  note a = store_long_tight [OF assms(1,2) _ assms(3) _ assms(5), of cell]
  obtain k m where s: "store_long i cell t True False l = (k, m)" by (cases "store_long i cell t True False l")
  show ?thesis
  proof (cases k)
    case k: True
    then show ?thesis using a True s by (simp add: store_def)
  next
    case False
    then have m: "m = blank_at i l" "tight m" using a True s by auto
    have "line_ok m" "length (l_cells m) = length (l_cells l)" "\<not> is_spilled (l_cells m ! i)"
      using m(1) blank_at_ok [OF assms(1)] True blanked_cell by (auto simp: blank_at_cells)
    then show ?thesis
      using store_short_tight [of m i "floor_text SHORT t" cell] floor_text_length m a(1) True s False by (simp add: store_def)
  qed
next
  case False
  then show ?thesis
    using store_short_tight [OF assms(1,2) _ assms(3), of t cell] assms(2) by (auto simp: store_def not_less)
qed

lemma set_compacted_set:
  assumes "line_ok l" "tight l" "\<not> is_spilled (l_cells l ! i)" "text_ok t"
  shows "set_compacted i cell t l = line_set i cell t l \<and> tight (snd (line_set i cell t l))"
  using store_tight [OF assms(1-3) floor_text_ok [OF assms(4)] floor_text_length, of cell]
  by (auto simp: set_compacted_def line_set_def Let_def split: prod.splits)

text \<open>Setting a cell leaves every other cell spilled or not as it was.\<close>

lemma spilled_shown:
  assumes "line_ok l" "j < length (l_cells l)"
  shows "is_spilled (l_cells l ! j) \<longleftrightarrow> 4 < length (fst (shown l ! j))"
proof -
  have "located (l_text l) (l_cells l ! j)" using line_okD(2) [OF assms(1)] assms(2) by simp
  then have "is_spilled (l_cells l ! j) \<longleftrightarrow> 4 < length (text_in (l_text l) (l_cells l ! j))" by (rule located_cases) auto
  then show ?thesis using assms(2) by (simp add: shown_def)
qed

lemma row_set_length [simp]: "length (snd (row_set i t w row)) = length row"
  by (simp add: row_set_def Let_def)

lemma row_set_other: "j \<noteq> i \<Longrightarrow> snd (row_set i t w row) ! j = row ! j"
  by (simp add: row_set_def Let_def)

type_synonym cell_write = "nat \<times> compact \<times> str"

definition writes_ok :: "nat \<Rightarrow> nat \<Rightarrow> cell_write list \<Rightarrow> bool" where
  "writes_ok a b ws \<longleftrightarrow> distinct (map fst ws) \<and> list_all (\<lambda>(i, cell, t). a \<le> i \<and> i < b \<and> text_ok t) ws"

text \<open>
  C13: A span of a row cleared once, then set cell by cell without compacting
  again, is set exactly as if each were set on its own, with room sought for
  each: the row reads as the span blanked and then each cell written as it
  is meant, in that order, and is as sound as it was.
\<close>

theorem cleared_span_refines:
  assumes "line_ok l" "a \<le> b" "b \<le> length (l_cells l)" "writes_ok a b ws"
  shows "line_ok (fold (\<lambda>(i, cell, t). snd \<circ> set_compacted i cell t) ws (clear_for a b l)) \<and>
    shown (fold (\<lambda>(i, cell, t). snd \<circ> set_compacted i cell t) ws (clear_for a b l)) =
      fold (\<lambda>(i, cell, t). snd \<circ> row_set i t (c_word cell AND KEPT)) ws (row_clear a b (shown l))"
proof -
  have main: "line_ok (fold (\<lambda>(i, cell, t). snd \<circ> set_compacted i cell t) ws m) \<and>
    shown (fold (\<lambda>(i, cell, t). snd \<circ> set_compacted i cell t) ws m) =
      fold (\<lambda>(i, cell, t). snd \<circ> row_set i t (c_word cell AND KEPT)) ws (shown m)"
    if "line_ok m" "tight m" "b \<le> length (l_cells m)" "\<forall>i \<in> fst ` set ws. \<not> is_spilled (l_cells m ! i)" "writes_ok a b ws" for m
    using that
  proof (induction ws arbitrary: m)
    case (Cons x ws)
    obtain i cell t where x: "x = (i, cell, t)" by (cases x)
    have w: "i < b" "text_ok t" "i \<notin> fst ` set ws" "writes_ok a b ws" "\<not> is_spilled (l_cells m ! i)"
      using Cons.prems(4,5) by (auto simp: x writes_ok_def)
    obtain ok m1 where m1: "line_set i cell t m = (ok, m1)" by (cases "line_set i cell t m")
    have c: "set_compacted i cell t m = (ok, m1)" "tight m1"
      using set_compacted_set [OF Cons.prems(1,2) w(5,2), of cell] m1 by auto
    have r: "line_ok m1" "shown m1 = snd (row_set i t (c_word cell AND KEPT) (shown m))"
      using set_refines [OF Cons.prems(1) w(2), of i cell] m1 by (auto simp: prod_eq_iff)
    then have n: "length (l_cells m1) = length (l_cells m)" by (metis length_shown row_set_length)
    have "\<not> is_spilled (l_cells m1 ! j)" if "j \<in> fst ` set ws" for j
    proof -
      have j: "j \<noteq> i" "j < b" "\<not> is_spilled (l_cells m ! j)"
        using that w(3,4) Cons.prems(4) by (auto simp: x writes_ok_def list_all_iff)
      then show ?thesis
        using spilled_shown [OF r(1), of j] spilled_shown [OF Cons.prems(1), of j] row_set_other [OF j(1)] r(2) n Cons.prems(3)
        by simp
    qed
    then have "\<forall>j \<in> fst ` set ws. \<not> is_spilled (l_cells m1 ! j)" by blast
    from Cons.IH [OF r(1) c(2) _ this w(4)] show ?case using n Cons.prems(3) by (simp add: x c(1) r(2))
  qed simp
  have c: "span_clear a b (row_clear a b (shown l)) (clear_for a b l)" "tight (clear_for a b l)"
    "length (l_cells (clear_for a b l)) = length (l_cells l)"
    using clear_for_ok [OF assms(1-3)] by auto
  then have "\<forall>i \<in> fst ` set ws. \<not> is_spilled (l_cells (clear_for a b l) ! i)"
    using assms(4) by (auto simp: span_clear_def writes_ok_def list_all_iff)
  then show ?thesis using main [of "clear_for a b l"] c assms(3,4) by (simp add: span_clear_def)
qed

lemma cleared_span_refines_witness:
  "shown (fold (\<lambda>(i, cell, t). snd \<circ> set_compacted i cell t) [(1, BLANK, [98]), (0, BLANK, [97])] (clear_for 0 2 (blank_line 3))) =
     [([97], 0), ([98], 0), ([], 0)]"
proof -
  have "line_ok (blank_line 3)" by (rule blank_line_ok) (simp add: SHORT_def LOCATED_def)
  moreover have "writes_ok 0 2 [(1, BLANK, [98]), (0, BLANK, [97])]" by (simp add: writes_ok_def text_ok_def)
  moreover have "length (l_cells (blank_line 3)) = 3" by (simp add: blank_line_def)
  moreover have "(c_word BLANK AND KEPT) = 0" by (simp add: BLANK_def)
  moreover have "row_clear 0 2 (replicate 3 ([], 0)) = [([], 0), ([], 0), ([], 0)]"
    by (simp add: row_clear_def numeral_eq_Suc)
  ultimately show ?thesis
    using cleared_span_refines [of "blank_line 3" 0 2 "[(1, BLANK, [98]), (0, BLANK, [97])]"]
    by (simp add: shown_blank_line row_set_def row_fits_def floor_text_whole CLUSTER_CAPACITY_def SHORT_def Let_def)
qed

section \<open>A row's text stored again\<close>

lemma text_located_same: "\<not> is_spilled c \<Longrightarrow> located t c \<Longrightarrow> located u c \<and> text_in u c = text_in t c"
  using located_inline by (simp add: located_def)

lemma long_total_le:
  "list_all2 (\<lambda>x y. fst x = [] \<or> fst x = fst y) row full \<Longrightarrow> long_total row \<le> long_total full"
  unfolding long_total_def by (induction rule: list_all2_induct) auto

lemma long_total_put:
  "i < length row \<Longrightarrow> long_total (row[i := (t, w)]) = long_total (row[i := ([], 0)]) + (if SHORT < length t then length t else 0)"
  unfolding long_total_def by (induction row arbitrary: i) (auto split: nat.splits)

text \<open>Cells put back one by one in a row that will hold them all are all put back whole.\<close>

definition half_done :: "row \<Rightarrow> nat set \<Rightarrow> row \<Rightarrow> bool" where
  "half_done full left row \<longleftrightarrow> length row = length full \<and>
     (\<forall>j < length full. if j \<in> left then fst (row ! j) = [] else row ! j = full ! j)"

lemma put_back:
  assumes "half_done full (insert i rest) row" "i < length full" "full ! i = (t, w)" "length t \<le> CLUSTER_CAPACITY"
    "long_total full \<le> long_limit (length full)" "i \<notin> rest"
  shows "row_set i t w row = (True, row[i := (t, w)]) \<and> half_done full rest (row[i := (t, w)])"
proof -
  have n: "length row = length full" using assms(1) by (simp add: half_done_def)
  have "list_all2 (\<lambda>x y. fst x = [] \<or> fst x = fst y) (row[i := (t, w)]) full"
    using assms(1-3) by (auto simp: list_all2_conv_all_nth nth_list_update half_done_def split: if_splits)
  then have "long_total (row[i := (t, w)]) \<le> long_limit (length row)" using long_total_le assms(5) n by fastforce
  then have "row_fits i t row"
    using long_total_put [of i row t w] assms(2) n by (cases "SHORT < length t") (simp_all add: row_fits_def not_less)
  moreover have "half_done full rest (row[i := (t, w)])"
    using assms(1-3,6) by (auto simp: half_done_def nth_list_update)
  ultimately show ?thesis using assms(2,4) n by (simp add: row_set_def floor_text_whole)
qed

lemma store_again_ok:
  assumes "distinct (map fst again)" "long_total full \<le> long_limit (length full)"
    "\<forall>(i, c) \<in> set again. i < length full \<and> full ! i = (text_in old c, c_word c AND KEPT) \<and> located old c"
    "line_ok m" "half_done full (fst ` set again) (shown m)"
  shows "line_ok (fold (\<lambda>(i, c). snd \<circ> line_set i c (text_in old c)) again m) \<and>
    shown (fold (\<lambda>(i, c). snd \<circ> line_set i c (text_in old c)) again m) = full"
  using assms
proof (induction again arbitrary: m)
  case Nil
  then show ?case by (auto simp: half_done_def intro: nth_equalityI)
next
  case (Cons x again)
  obtain i c where x: "x = (i, c)" by (cases x)
  have c: "i < length full" "full ! i = (text_in old c, c_word c AND KEPT)" "located old c" "i \<notin> fst ` set again"
    using Cons.prems(1,3) by (auto simp: x)
  have t: "text_ok (text_in old c)" "length (text_in old c) \<le> CLUSTER_CAPACITY" using located_text [OF c(3)] by auto
  have r: "line_ok (snd (line_set i c (text_in old c) m))"
    "map_prod id shown (line_set i c (text_in old c) m) = row_set i (text_in old c) (c_word c AND KEPT) (shown m)"
    using set_refines [OF Cons.prems(4) t(1)] by blast+
  have "half_done full (insert i (fst ` set again)) (shown m)" using Cons.prems(5) by (simp add: x)
  then have p: "row_set i (text_in old c) (c_word c AND KEPT) (shown m) = (True, (shown m)[i := full ! i])"
    "half_done full (fst ` set again) ((shown m)[i := full ! i])"
    using put_back [OF _ c(1,2) t(2) Cons.prems(2) c(4)] c(2) by auto
  then have "shown (snd (line_set i c (text_in old c) m)) = (shown m)[i := full ! i]"
    using r(2) by (metis snd_conv snd_map_prod)
  then have "half_done full (fst ` set again) (shown (snd (line_set i c (text_in old c) m)))" using p(2) by simp
  from Cons.IH [OF _ Cons.prems(2) _ r(1) this] Cons.prems(1,3) show ?case by (simp add: x)
qed

lemma blanks_fold:
  assumes "distinct (map fst again)" "\<forall>(i, c) \<in> set again. i < length cs"
  shows "fold (\<lambda>(i, c) l. if i < length (l_cells l) then put_cell i (blanked c) l else l) again \<lparr>l_cells = cs, l_text = u\<rparr> =
    \<lparr>l_cells = map (\<lambda>(j, d). case map_of again j of Some c \<Rightarrow> blanked c | None \<Rightarrow> d) (enumerate 0 cs), l_text = u\<rparr>"
  using assms
proof (induction again arbitrary: cs)
  case Nil
  have "map (\<lambda>(j, d). d) (enumerate 0 cs) = cs" by (simp add: enumerate_eq_zip split_def)
  then show ?case by simp
next
  case (Cons x again)
  obtain i c where x: "x = (i, c)" by (cases x)
  have i: "i < length cs" "map_of again i = None" using Cons.prems by (auto simp: x map_of_eq_None_iff)
  have "map (\<lambda>(j, d). case map_of again j of Some c \<Rightarrow> blanked c | None \<Rightarrow> d) (enumerate 0 (cs[i := blanked c])) =
    map (\<lambda>(j, d). case map_of (x # again) j of Some c \<Rightarrow> blanked c | None \<Rightarrow> d) (enumerate 0 cs)"
    using i by (intro nth_equalityI) (auto simp: nth_enumerate_eq x nth_list_update split: option.splits)
  then show ?case using Cons.IH [of "cs[i := blanked c]"] Cons.prems i by (simp add: x put_cell_def)
qed

lemma spilled_enumerate:
  "distinct (map fst (filter (\<lambda>(i, c). is_spilled c) (enumerate 0 cs)))"
  "(i, c) \<in> set (filter (\<lambda>(i, c). is_spilled c) (enumerate 0 cs)) \<longleftrightarrow> i < length cs \<and> cs ! i = c \<and> is_spilled c"
  "map_of (filter (\<lambda>(i, c). is_spilled c) (enumerate 0 cs)) j =
     (if j < length cs \<and> is_spilled (cs ! j) then Some (cs ! j) else None)"
proof -
  show d: "distinct (map fst (filter (\<lambda>(i, c). is_spilled c) (enumerate 0 cs)))"
    by (rule distinct_map_filter) (simp add: enumerate_eq_zip)
  show m: "(i, c) \<in> set (filter (\<lambda>(i, c). is_spilled c) (enumerate 0 cs)) \<longleftrightarrow> i < length cs \<and> cs ! i = c \<and> is_spilled c" for i c
    by (auto simp: in_set_enumerate_eq)
  show "map_of (filter (\<lambda>(i, c). is_spilled c) (enumerate 0 cs)) j =
     (if j < length cs \<and> is_spilled (cs ! j) then Some (cs ! j) else None)"
  proof (cases "j < length cs \<and> is_spilled (cs ! j)")
    case True
    then show ?thesis using m map_of_is_SomeI [OF d] by simp
  next
    case False
    then have "j \<notin> fst ` set (filter (\<lambda>(i, c). is_spilled c) (enumerate 0 cs))" using m by fastforce
    then have "map_of (filter (\<lambda>(i, c). is_spilled c) (enumerate 0 cs)) j = None" unfolding map_of_eq_None_iff .
    then show ?thesis using False by auto
  qed
qed

text \<open>
  C14: A row's cells with their text stored again in a row of any width that
  their long clusters fit read as before, every one, and the row is sound.
\<close>

theorem rebuilt_keeps:
  assumes "\<forall>c \<in> set cells. located old c" "length cells * SHORT \<le> LOCATED"
    "long_total (map (\<lambda>c. (text_in old c, c_word c AND KEPT)) cells) \<le> long_limit (length cells)"
  shows "line_ok (rebuilt cells old) \<and>
    shown (rebuilt cells old) = map (\<lambda>c. (text_in old c, c_word c AND KEPT)) cells"
proof -
  let ?full = "map (\<lambda>c. (text_in old c, c_word c AND KEPT)) cells"
  let ?again = "filter (\<lambda>(i, c). is_spilled c) (enumerate 0 cells)"
  let ?bl = "map (\<lambda>c. if is_spilled c then blanked c else c) cells"
  have inl: "\<forall>c \<in> set ?bl. inline_cell c" using assms(1) blanked_cell by (auto simp: located_def)
  have ok: "line_ok \<lparr>l_cells = ?bl, l_text = NO_TEXT\<rparr>" by (rule inline_line_ok) (use inl assms(2) in auto)
  have sh: "shown \<lparr>l_cells = ?bl, l_text = NO_TEXT\<rparr> ! j =
      (if is_spilled (cells ! j) then ([], c_word (blanked (cells ! j)) AND KEPT) else ?full ! j)" if "j < length cells" for j
    using that assms(1) located_inline blanked_cell text_located_same [of "cells ! j" old NO_TEXT] by (simp add: shown_def)
  have again: "store_again ?again old \<lparr>l_cells = cells, l_text = NO_TEXT\<rparr> =
      fold (\<lambda>(i, c). snd \<circ> line_set i c (text_in old c)) ?again \<lparr>l_cells = ?bl, l_text = NO_TEXT\<rparr>"
  proof -
    have "map (\<lambda>(j, d). case map_of ?again j of Some c \<Rightarrow> blanked c | None \<Rightarrow> d) (enumerate 0 cells) = ?bl"
      using spilled_enumerate(3) [of cells] by (intro nth_equalityI) (simp_all add: nth_enumerate_eq)
    moreover have "\<forall>(i, c) \<in> set ?again. i < length cells" using spilled_enumerate(2) by blast
    ultimately show ?thesis
      using blanks_fold [OF spilled_enumerate(1), of cells cells NO_TEXT] by (simp add: store_again_def comp_def)
  qed
  have half: "half_done ?full (fst ` set ?again) (shown \<lparr>l_cells = ?bl, l_text = NO_TEXT\<rparr>)"
  proof -
    have "j \<in> fst ` set ?again \<longleftrightarrow> is_spilled (cells ! j)" if "j < length cells" for j
      using spilled_enumerate(2) [of j "cells ! j" cells] that by (force simp: in_set_enumerate_eq)
    then show ?thesis using sh by (simp add: half_done_def)
  qed
  have "\<forall>(i, c) \<in> set ?again. i < length ?full \<and> ?full ! i = (text_in old c, c_word c AND KEPT) \<and> located old c"
    using spilled_enumerate(2) [of _ _ cells] assms(1) by fastforce
  from store_again_ok [OF spilled_enumerate(1) _ this ok half] assms(3)
  have stored: "line_ok (store_again ?again old \<lparr>l_cells = cells, l_text = NO_TEXT\<rparr>) \<and>
      shown (store_again ?again old \<lparr>l_cells = cells, l_text = NO_TEXT\<rparr>) = ?full" by (simp add: again)
  show ?thesis
  proof (cases "text_is_empty old")
    case True
    have "\<not> is_spilled c" if "c \<in> set cells" for c
    proof
      assume "is_spilled c"
      then show False
        using assms(1) that True by (fastforce simp: located_def text_is_empty_def part_def split: option.splits if_splits)
    qed
    then have "?again = []" by (auto simp: filter_empty_conv in_set_enumerate_eq)
    then show ?thesis using stored True by (simp add: rebuilt_def store_again_def)
  next
    case False
    then show ?thesis using stored by (simp add: rebuilt_def)
  qed
qed

lemma rebuilt_keeps_witness:
  "shown (rebuilt [with_spilled BLANK 2 6, BLANK] \<lparr>t_long = [], t_short = [1, 2, 97, 98, 99, 100, 101, 102]\<rparr>) =
     [([97, 98, 99, 100, 101, 102], 0), ([], 0)]"
proof -
  let ?c = "with_spilled BLANK 2 6" and ?old = "\<lparr>t_long = [], t_short = [1, 2, 97, 98, 99, 100, 101, 102]\<rparr>"
  have d: "locator ?c = Some (2, 6)" "is_spilled ?c" "length (c_text ?c) = 4" "c_word ?c = (c_word BLANK AND KEPT) OR SPILLED"
    using with_spilled_cell [of 2 6 BLANK] by (simp_all add: LOCATED_def)
  then have k: "kept_bytes ?old ?c = [97, 98, 99, 100, 101, 102]"
    by (simp add: kept_bytes_def or_none_def slice_def part_def SHORT_def)
  then have "located ?old ?c" using d by (simp add: located_def part_def SHORT_def CLUSTER_CAPACITY_def text_ok_def)
  then have c: "located ?old ?c" "text_in ?old ?c = [97, 98, 99, 100, 101, 102]" "c_word ?c AND KEPT = 0"
    using k located_text by (auto simp: d(4) kept_word) (simp add: BLANK_def)
  have b: "located ?old BLANK" "text_in ?old BLANK = []" "c_word BLANK AND KEPT = 0"
    using located_inline BLANK_inline by (simp_all add: BLANK_def)
  show ?thesis
    using rebuilt_keeps [of "[?c, BLANK]" ?old] c b by (simp add: SHORT_def LOCATED_def long_total_def)
qed

section \<open>The row's own check\<close>

lemma line_ok_check: "line_ok l \<Longrightarrow> text_check (length (l_cells l)) l"
proof -
  assume ok: "line_ok l"
  have "locator c = None \<or> text_in (l_text l) c \<noteq> [] \<and> length (text_in (l_text l) c) \<le> CLUSTER_CAPACITY"
    if "c \<in> set (l_cells l)" for c
    using line_okD(2) [OF ok that] by (rule located_cases) auto
  then show ?thesis
    using line_okD(5,6) [OF ok] by (auto simp: text_check_def list_all_iff SHORT_def CLUSTER_CAPACITY_def)
qed

end
