(* ===== verification/Vt_Cells.thy ===== *)
theory Vt_Cells
  imports Vt_Row_Copy
begin

text \<open>
  Cells as a host reads and stores them (\<open>CellRef\<close> and \<open>Cells\<close> of
  \<open>fux-vt/src/cell.rs\<close>): a run of cells kept as a row is, attributes in place
  of a style.  Two runs are compared byte by byte where their text is inline;
  that is comparing what they read as.
\<close>

section \<open>A cell as it is read\<close>

record cell_ref =
  r_text :: str
  r_attributes :: attributes
  r_halves :: byte

definition R_CONTINUATION :: byte where "R_CONTINUATION = 0x40"
definition R_WIDE :: byte where "R_WIDE = 0x80"
definition R_HALVES :: byte where "R_HALVES = R_WIDE OR R_CONTINUATION"

definition ref_of :: "str \<Rightarrow> attributes \<Rightarrow> byte \<Rightarrow> cell_ref" where
  "ref_of t a h = \<lparr>r_text = t, r_attributes = a, r_halves = h AND R_HALVES\<rparr>"

definition ref_new :: "str \<Rightarrow> bool \<Rightarrow> attributes \<Rightarrow> cell_ref" where
  "ref_new t wide a = ref_of t a (if wide then R_WIDE else 0)"

definition ref_continuation :: cell_ref where
  "ref_continuation = ref_of [] attrs_default R_CONTINUATION"

text \<open>What a picture's cell holds (\<open>screen/pictures.rs\<close>).\<close>

definition PLACEHOLDER :: str where
  "PLACEHOLDER = utf8_encode 0x80"

definition ref_shown :: "cell_ref \<Rightarrow> str" where
  "ref_shown r = (if r_text r = [] \<or> r_text r = PLACEHOLDER then [32] else r_text r)"

definition ref_is_wide :: "cell_ref \<Rightarrow> bool" where
  "ref_is_wide r \<longleftrightarrow> r_halves r AND R_WIDE \<noteq> 0"

definition ref_is_continuation :: "cell_ref \<Rightarrow> bool" where
  "ref_is_continuation r \<longleftrightarrow> r_halves r AND R_CONTINUATION \<noteq> 0"

definition ref_eq :: "cell_ref \<Rightarrow> cell_ref \<Rightarrow> bool" where
  "ref_eq a b \<longleftrightarrow> r_halves a = r_halves b \<and> r_attributes a = r_attributes b \<and> r_text a = r_text b"

definition read_as :: "row_text \<Rightarrow> compact \<times> attributes \<Rightarrow> cell_ref" where
  "read_as t c = ref_of (text_in t (fst c)) (snd c) (compact_halves (fst c))"

section \<open>A run of cells\<close>

record cells =
  s_cells :: "(compact \<times> attributes) list"
  s_text :: row_text

definition MAX_CELLS :: nat where "MAX_CELLS = 64 * 1024 * 1024"

definition stored_blank :: "compact \<times> attributes" where
  "stored_blank = (BLANK, attrs_default)"

text \<open>\<open>room\<close> says whether there is memory for so many; \<open>None\<close> is \<open>Error::Capacity\<close>.\<close>

definition room_for :: "(nat \<Rightarrow> bool) \<Rightarrow> nat \<Rightarrow> bool" where
  "room_for room len \<longleftrightarrow> len \<le> MAX_CELLS \<and> room len"

definition cells_new :: "(nat \<Rightarrow> bool) \<Rightarrow> nat \<Rightarrow> cells option" where
  "cells_new room len =
     (if room_for room len then Some \<lparr>s_cells = replicate len stored_blank, s_text = NO_TEXT\<rparr> else None)"

definition cells_get :: "nat \<Rightarrow> cells \<Rightarrow> cell_ref option" where
  "cells_get i cs = map_option (read_as (s_text cs)) (get_at (s_cells cs) i)"

definition cells_range :: "nat \<Rightarrow> nat \<Rightarrow> cells \<Rightarrow> cell_ref list" where
  "cells_range a b cs =
     (let e = min b (length (s_cells cs)); s = min a e
      in map (read_as (s_text cs)) (or_none (slice (s_cells cs) s e)))"

definition range_eq :: "nat \<Rightarrow> nat \<Rightarrow> cells \<Rightarrow> cells \<Rightarrow> bool" where
  "range_eq a b mine theirs =
     (case (slice (s_cells mine) a b, slice (s_cells theirs) a b) of
        (Some xs, Some ys) \<Rightarrow>
          list_all (\<lambda>(x, y).
            if \<not> is_spilled (fst x) \<and> \<not> is_spilled (fst y) then x = y
            else ref_eq (read_as (s_text mine) x) (read_as (s_text theirs) y)) (zip xs ys)
      | _ \<Rightarrow> list_all2 ref_eq (cells_range a b mine) (cells_range a b theirs))"

definition cells_eq :: "cells \<Rightarrow> cells \<Rightarrow> bool" where
  "cells_eq mine theirs \<longleftrightarrow>
     length (s_cells mine) = length (s_cells theirs) \<and> range_eq 0 (length (s_cells mine)) mine theirs"

definition as_line :: "cells \<Rightarrow> line" where
  "as_line cs = \<lparr>l_cells = map fst (s_cells cs), l_text = s_text cs\<rparr>"

definition with_line :: "line \<Rightarrow> cells \<Rightarrow> cells" where
  "with_line l cs = \<lparr>s_cells = zip (l_cells l) (map snd (s_cells cs)), s_text = l_text l\<rparr>"

definition cells_set :: "nat \<Rightarrow> cell_ref \<Rightarrow> cells \<Rightarrow> bool \<times> cells" where
  "cells_set i r cs =
     (if length (s_cells cs) \<le> i then (False, cs)
      else
        let cs1 = cs\<lparr>s_cells := (s_cells cs)[i := (fst (s_cells cs ! i), r_attributes r)]\<rparr>;
            shape = compact_shaped (r_halves r)
        in case holding shape (r_text r) of
             Some d \<Rightarrow> (True, cs1\<lparr>s_cells := (s_cells cs1)[i := (d, r_attributes r)]\<rparr>)
           | None \<Rightarrow> let (whole, l) = line_set i shape (r_text r) (as_line cs1) in (whole, with_line l cs1))"

definition cells_set_attributes :: "nat \<Rightarrow> attributes \<Rightarrow> cells \<Rightarrow> cells" where
  "cells_set_attributes i a cs =
     (if i < length (s_cells cs) then cs\<lparr>s_cells := (s_cells cs)[i := (fst (s_cells cs ! i), a)]\<rparr> else cs)"

definition cells_fill :: "nat \<Rightarrow> nat \<Rightarrow> cell_ref \<Rightarrow> cells \<Rightarrow> cells" where
  "cells_fill a b r cs =
     (let e = min b (length (s_cells cs)); s = min a e;
          cs1 = (if s = 0 \<and> e = length (s_cells cs) then cs\<lparr>s_text := NO_TEXT\<rparr> else cs)
      in case holding (compact_shaped (r_halves r)) (r_text r) of
           Some d \<Rightarrow>
             cs1\<lparr>s_cells := take s (s_cells cs1) @ replicate (e - s) (d, r_attributes r) @ drop e (s_cells cs1)\<rparr>
         | None \<Rightarrow> fold (\<lambda>i cs. snd (cells_set i r cs)) [s..<e] cs1)"

definition cells_reset :: "(nat \<Rightarrow> bool) \<Rightarrow> nat \<Rightarrow> cells \<Rightarrow> cells option" where
  "cells_reset room len cs =
     (if room_for room len then Some \<lparr>s_cells = replicate len stored_blank, s_text = NO_TEXT\<rparr> else None)"

section \<open>What a run reads as\<close>

definition cells_view :: "cells \<Rightarrow> cell_ref list" where
  "cells_view cs = map (read_as (s_text cs)) (s_cells cs)"

text \<open>A run is sound as a row is, and its cells have no style and no protection.\<close>

definition cells_ok :: "cells \<Rightarrow> bool" where
  "cells_ok cs \<longleftrightarrow> line_ok (as_line cs) \<and> list_all (\<lambda>(t, w). w AND HALVES = w) (shown (as_line cs))"

definition halves_of :: "32 word \<Rightarrow> byte" where
  "halves_of w = ucast (drop_bit 22 (w AND HALVES))"

lemma halves_of_bit: "bit (halves_of w) n \<longleftrightarrow> (n = 6 \<or> n = 7) \<and> bit w (n + 22)"
  unfolding halves_of_def bit_ucast_iff bit_drop_bit_eq comp_def bit_and_iff word_flag_bits
  by (auto simp: numeral_eq_Suc)

lemma halves_kept: "halves_of (w AND KEPT) = halves_of w"
  by (rule bit_word_eqI) (auto simp: halves_of_bit bit_and_iff word_flag_bits)

lemma halves_inject: "v AND HALVES = v \<Longrightarrow> w AND HALVES = w \<Longrightarrow> halves_of v = halves_of w \<Longrightarrow> v = w"
proof (rule bit_word_eqI)
  fix n
  assume h: "v AND HALVES = v" "w AND HALVES = w" "halves_of v = halves_of w"
  have "bit x n \<longleftrightarrow> (n = 28 \<or> n = 29) \<and> bit (halves_of x) (n - 22)" if "x AND HALVES = x" for x
  proof -
    have "bit x n \<longleftrightarrow> bit (x AND HALVES) n" using that by simp
    then show ?thesis by (auto simp: bit_and_iff word_flag_bits halves_of_bit)
  qed
  then show "bit v n \<longleftrightarrow> bit w n" using h by simp
qed

lemma halves_in: "halves_of w AND R_HALVES = halves_of w"
proof (rule bit_word_eqI)
  fix n
  assume "n < LENGTH(8)"
  have "bit R_HALVES n \<longleftrightarrow> n = 6 \<or> n = 7"
  proof -
    have "R_HALVES = push_bit 6 1 OR push_bit 7 1" by (simp add: R_HALVES_def R_WIDE_def R_CONTINUATION_def)
    then show ?thesis unfolding \<open>R_HALVES = _\<close> bit_or_iff bit_one_at by auto
  qed
  then show "bit (halves_of w AND R_HALVES) n \<longleftrightarrow> bit (halves_of w) n" by (auto simp: bit_and_iff halves_of_bit)
qed

lemma read_shown:
  "read_as t (c, a) = \<lparr>r_text = text_in t c, r_attributes = a, r_halves = halves_of (c_word c AND KEPT)\<rparr>"
proof -
  have "compact_halves c = halves_of (c_word c)" by (simp only: compact_halves_def halves_of_def)
  then show ?thesis by (simp add: read_as_def ref_of_def halves_in halves_kept)
qed

lemma cells_view_nth:
  "j < length (s_cells cs) \<Longrightarrow> cells_view cs ! j =
     \<lparr>r_text = fst (shown (as_line cs) ! j), r_attributes = snd (s_cells cs ! j), r_halves = halves_of (snd (shown (as_line cs) ! j))\<rparr>"
  by (cases "s_cells cs ! j") (simp add: cells_view_def shown_def as_line_def read_shown)

lemma cells_okD:
  assumes "cells_ok cs" "(c, a) \<in> set (s_cells cs)"
  shows "located (s_text cs) c" "(c_word c AND KEPT) AND HALVES = c_word c AND KEPT"
  using assms line_okD(2) [of "as_line cs" c]
  by (force simp: cells_ok_def as_line_def shown_def list_all_iff)+

text \<open>Two cells with inline text are equal exactly when they read the same.\<close>

lemma unspilled_word: "\<not> is_spilled c \<Longrightarrow> c_word c AND KEPT = c_word c"
  by (rule bit_word_eqI) (auto simp: is_spilled_bit bit_and_iff word_flag_bits)

lemma inline_eq_reads:
  assumes "cells_ok mine" "cells_ok theirs" "(c, a) \<in> set (s_cells mine)" "(d, b) \<in> set (s_cells theirs)"
    "\<not> is_spilled c" "\<not> is_spilled d"
  shows "(c, a) = (d, b) \<longleftrightarrow> read_as (s_text mine) (c, a) = read_as (s_text theirs) (d, b)"
proof
  assume r: "read_as (s_text mine) (c, a) = read_as (s_text theirs) (d, b)"
  have c: "inline_cell c" "inline_cell d" using cells_okD(1) [OF assms(1,3)] cells_okD(1) [OF assms(2,4)] assms(5,6)
    by (auto simp: located_def)
  have "c_word c AND KEPT = c_word d AND KEPT"
    by (rule halves_inject) (use cells_okD(2) [OF assms(1,3)] cells_okD(2) [OF assms(2,4)] r in \<open>auto simp: read_shown\<close>)
  then have "c_word c = c_word d" using unspilled_word assms(5,6) by simp
  moreover have "inline_bytes c = inline_bytes d" using r located_inline c by (simp add: read_shown)
  then have "c_text c = c_text d" using c by (metis inline_cell_def)
  ultimately have "c = d" by (intro compact.equality) simp_all
  moreover have "a = b" using r by (simp add: read_shown)
  ultimately show "(c, a) = (d, b)" by simp
next
  assume "(c, a) = (d, b)"
  then show "read_as (s_text mine) (c, a) = read_as (s_text theirs) (d, b)"
    using text_located_same [OF assms(5) cells_okD(1) [OF assms(1,3)], of "s_text theirs"] by (auto simp: read_shown)
qed

text \<open>
  C36: Two runs of cells compare equal, their inline cells byte by byte,
  exactly when they read the same cell for cell, wherever each keeps its
  text.
\<close>

theorem cells_eq_reads:
  assumes "cells_ok mine" "cells_ok theirs"
  shows "cells_eq mine theirs \<longleftrightarrow> cells_view mine = cells_view theirs"
proof (cases "length (s_cells mine) = length (s_cells theirs)")
  case True
  let ?xs = "s_cells mine" and ?ys = "s_cells theirs"
  have one: "(if \<not> is_spilled (fst x) \<and> \<not> is_spilled (fst y) then x = y
      else ref_eq (read_as (s_text mine) x) (read_as (s_text theirs) y)) \<longleftrightarrow>
      read_as (s_text mine) x = read_as (s_text theirs) y" if "x \<in> set ?xs" "y \<in> set ?ys" for x y
    using inline_eq_reads [OF assms, of "fst x" "snd x" "fst y" "snd y"] that
    by (auto simp: ref_eq_def)
  have "cells_eq mine theirs \<longleftrightarrow> list_all (\<lambda>(x, y).
      if \<not> is_spilled (fst x) \<and> \<not> is_spilled (fst y) then x = y
      else ref_eq (read_as (s_text mine) x) (read_as (s_text theirs) y)) (zip ?xs ?ys)"
    using True by (simp add: cells_eq_def range_eq_def slice_def)
  also have "\<dots> \<longleftrightarrow> list_all (\<lambda>(x, y). read_as (s_text mine) x = read_as (s_text theirs) y) (zip ?xs ?ys)"
    unfolding list_all_iff by (intro ball_cong refl) (use one set_zip_leftD set_zip_rightD in fastforce)
  also have "\<dots> \<longleftrightarrow> cells_view mine = cells_view theirs"
    using True by (auto simp: cells_view_def list_all_length list_eq_iff_nth_eq)
  finally show ?thesis .
next
  case False
  then show ?thesis by (auto simp: cells_eq_def cells_view_def dest: map_eq_imp_length_eq)
qed

lemma cells_eq_reads_witness:
  "cells_eq \<lparr>s_cells = [stored_blank], s_text = NO_TEXT\<rparr> \<lparr>s_cells = [stored_blank], s_text = NO_TEXT\<rparr> \<longleftrightarrow>
     cells_view \<lparr>s_cells = [stored_blank], s_text = NO_TEXT\<rparr> = cells_view \<lparr>s_cells = [stored_blank], s_text = NO_TEXT\<rparr>"
proof -
  have l: "as_line \<lparr>s_cells = [stored_blank], s_text = NO_TEXT\<rparr> = blank_line 1"
    by (simp add: as_line_def blank_line_def stored_blank_def)
  have "cells_ok \<lparr>s_cells = [stored_blank], s_text = NO_TEXT\<rparr>"
    using blank_line_ok [of 1] by (simp add: cells_ok_def l shown_blank_line SHORT_def LOCATED_def)
  then show ?thesis by (intro cells_eq_reads)
qed

section \<open>Setting a cell of a run\<close>

lemma shaped_word: "c_word (compact_shaped h) AND KEPT = c_word (compact_shaped h)" "c_word (compact_shaped h) AND HALVES = c_word (compact_shaped h)"
  by (rule bit_word_eqI; auto simp: compact_shaped_def bit_and_iff word_flag_bits)+

lemma shaped_halves: "h AND R_HALVES = h \<Longrightarrow> halves_of (c_word (compact_shaped h)) = h"
proof (rule bit_word_eqI)
  fix n
  assume h: "h AND R_HALVES = h" "n < LENGTH(8)"
  have r: "bit R_HALVES n \<longleftrightarrow> n = 6 \<or> n = 7"
  proof -
    have "R_HALVES = push_bit 6 1 OR push_bit 7 1" by (simp add: R_HALVES_def R_WIDE_def R_CONTINUATION_def)
    then show ?thesis using h(2) unfolding \<open>R_HALVES = _\<close> bit_or_iff bit_one_at by auto
  qed
  have "bit h n \<longleftrightarrow> bit h n \<and> bit R_HALVES n" using h(1) by (metis bit_and_iff)
  then show "bit (halves_of (c_word (compact_shaped h))) n \<longleftrightarrow> bit h n"
    using r by (auto simp: halves_of_bit compact_shaped_def bit_and_iff word_flag_bits bit_push_bit_iff bit_ucast_iff)
qed

text \<open>What the cell's line is after, whether its text was put in at once or not.\<close>

lemma cells_set_line:
  assumes "line_ok (as_line cs)" "text_ok (r_text r)" "i < length (s_cells cs)"
  shows "as_line (snd (cells_set i r cs)) = snd (line_set i (compact_shaped (r_halves r)) (r_text r) (as_line cs)) \<and>
    fst (cells_set i r cs) = fst (line_set i (compact_shaped (r_halves r)) (r_text r) (as_line cs)) \<and>
    map snd (s_cells (snd (cells_set i r cs))) = (map snd (s_cells cs))[i := r_attributes r]"
proof -
  let ?shape = "compact_shaped (r_halves r)"
  obtain cs1 where cs1: "cs1 = cs\<lparr>s_cells := (s_cells cs)[i := (fst (s_cells cs ! i), r_attributes r)]\<rparr>" by simp
  have l1: "as_line cs1 = as_line cs" using assms(3) by (simp add: cs1 as_line_def map_update list_update_same_conv)
  have a1: "map snd (s_cells cs1) = (map snd (s_cells cs))[i := r_attributes r]" by (simp add: cs1 map_update)
  show ?thesis
  proof (cases "holding ?shape (r_text r)")
    case (Some d)
    then have n: "length (r_text r) \<le> 4" by (simp add: holding_def split: if_splits)
    then have "line_set i ?shape (r_text r) (as_line cs) = (True, put_cell i d (as_line cs))"
      using assms(3) Some
      by (simp add: line_set_def floor_text_whole CLUSTER_CAPACITY_def store_def store_short_def as_line_def SHORT_def)
    then show ?thesis
      using Some assms(3) by (simp add: cells_set_def Let_def as_line_def put_cell_def map_update)
  next
    case None
    obtain ok l where l: "line_set i ?shape (r_text r) (as_line cs) = (ok, l)" by (cases "line_set i ?shape (r_text r) (as_line cs)")
    have "map_prod id shown (ok, l) = row_set i (r_text r) (c_word ?shape AND KEPT) (shown (as_line cs))"
      using set_refines [OF assms(1,2), of i ?shape] l by simp
    then have "shown l = snd (row_set i (r_text r) (c_word ?shape AND KEPT) (shown (as_line cs)))"
      by (metis map_prod_simp snd_conv)
    then have "length (shown l) = length (shown (as_line cs))" by simp
    then have n: "length (l_cells l) = length (s_cells cs1)" by (simp add: as_line_def cs1)
    have "cells_set i r cs = (ok, with_line l cs1)"
      using assms(3) None l l1 by (simp add: cells_set_def Let_def flip: cs1)
    moreover have "length (l_cells l) = length (s_cells cs)" using n by (simp add: cs1)
    ultimately show ?thesis using l a1 by (simp add: as_line_def with_line_def)
  qed
qed



lemma cells_new_ok:
  "cells_new room len = Some cs \<Longrightarrow> len * SHORT \<le> LOCATED \<Longrightarrow>
     cells_ok cs \<and> cells_view cs = replicate len (ref_of [] attrs_default 0)"
proof -
  assume c: "cells_new room len = Some cs" "len * SHORT \<le> LOCATED"
  then have cs: "cs = \<lparr>s_cells = replicate len stored_blank, s_text = NO_TEXT\<rparr>"
    by (auto simp: cells_new_def split: if_splits)
  then have l: "as_line cs = blank_line len" by (simp add: as_line_def blank_line_def stored_blank_def)
  have "read_as NO_TEXT stored_blank = ref_of [] attrs_default 0"
    using located_inline [of BLANK NO_TEXT] BLANK_inline by (simp add: read_as_def stored_blank_def compact_halves_def) (simp add: BLANK_def)
  then show ?thesis using c(2) l shown_blank_line blank_line_ok by (simp add: cells_ok_def cells_view_def cs list_all_iff)
qed

end
