(* ===== verification/Vt_Queue.thy ===== *)
theory Vt_Queue
  imports Prelude
begin

text \<open>
  Queues: the interface of what arrives at one end and leaves at the other,
  and the queue of bytes of \<open>fux-vt/src/bytes.rs\<close>, whose front is an offset
  moved along a buffer.  History's ring is another (\<open>Vt_Ring\<close>).
\<close>

section \<open>The interface\<close>

datatype 'a queue_op = Put "'a list" | Take_Out nat

fun queue_run ::
  "('a list \<Rightarrow> 'q \<Rightarrow> 'q) \<Rightarrow> (nat \<Rightarrow> 'q \<Rightarrow> 'a list \<times> 'q) \<Rightarrow> 'a queue_op list \<Rightarrow> 'q \<Rightarrow> 'a list \<times> 'q" where
  "queue_run put take_out [] q = ([], q)"
| "queue_run put take_out (Put xs # ops) q = queue_run put take_out ops (put xs q)"
| "queue_run put take_out (Take_Out n # ops) q =
     (let (out, q1) = take_out n q; (outs, q2) = queue_run put take_out ops q1 in (out @ outs, q2))"

fun put_in :: "'a queue_op list \<Rightarrow> 'a list" where
  "put_in [] = []"
| "put_in (Put xs # ops) = xs @ put_in ops"
| "put_in (Take_Out n # ops) = put_in ops"

locale fifo =
  fixes sound :: "'q \<Rightarrow> bool" and held :: "'q \<Rightarrow> 'a list"
    and put :: "'a list \<Rightarrow> 'q \<Rightarrow> 'q" and take_out :: "nat \<Rightarrow> 'q \<Rightarrow> 'a list \<times> 'q"
  assumes put_sound: "sound q \<Longrightarrow> sound (put xs q)"
    and put_held: "sound q \<Longrightarrow> held (put xs q) = held q @ xs"
    and take_sound: "sound q \<Longrightarrow> take_out n q = (out, q1) \<Longrightarrow> sound q1"
    and take_held: "sound q \<Longrightarrow> take_out n q = (out, q1) \<Longrightarrow> out = take n (held q) \<and> held q1 = drop n (held q)"
begin

text \<open>What leaves, then what is left, is what was there, then what came, in order.\<close>

lemma in_order:
  "sound q \<Longrightarrow> queue_run put take_out ops q = (outs, q1) \<Longrightarrow> sound q1 \<and> outs @ held q1 = held q @ put_in ops"
proof (induction ops arbitrary: q outs)
  case (Cons x ops)
  show ?case
  proof (cases x)
    case (Put xs)
    then show ?thesis using Cons.IH [of "put xs q" outs] Cons.prems put_sound put_held by simp
  next
    case (Take_Out n)
    obtain out m where m: "take_out n q = (out, m)" by (cases "take_out n q")
    obtain rest l where l: "queue_run put take_out ops m = (rest, l)" by (cases "queue_run put take_out ops m")
    then have e: "outs = out @ rest" "q1 = l" using Cons.prems(2) Take_Out m by auto
    have "sound l \<and> rest @ held l = held m @ put_in ops"
      using Cons.IH [OF take_sound [OF Cons.prems(1) m]] l e(2) by simp
    then show ?thesis using take_held [OF Cons.prems(1) m] e Take_Out by (metis append.assoc append_take_drop_id put_in.simps(3))
  qed
qed simp

lemma held_apart: "sound q \<Longrightarrow> take_out n (put xs q) = (out, q1) \<Longrightarrow> n \<le> length (held q) \<Longrightarrow> out = take n (held q)"
  using take_held [OF put_sound] put_held by fastforce

end

section \<open>The queue of bytes\<close>

type_synonym octets = "8 word list"

record byte_queue =
  q_bytes :: octets
  q_taken :: nat

definition copy_within :: "nat \<Rightarrow> nat \<Rightarrow> nat \<Rightarrow> 'a list \<Rightarrow> 'a list option" where
  "copy_within a b dest xs =
     (if a \<le> b \<and> b \<le> length xs \<and> dest + (b - a) \<le> length xs
      then Some (take dest xs @ take (b - a) (drop a xs) @ drop (dest + (b - a)) xs) else None)"

definition q_new :: byte_queue where
  "q_new = \<lparr>q_bytes = [], q_taken = 0\<rparr>"

definition as_slice :: "byte_queue \<Rightarrow> octets" where
  "as_slice q = (if q_taken q \<le> length (q_bytes q) then drop (q_taken q) (q_bytes q) else [])"

definition q_len :: "byte_queue \<Rightarrow> nat" where
  "q_len q = length (q_bytes q) - q_taken q"

definition q_is_empty :: "byte_queue \<Rightarrow> bool" where
  "q_is_empty q \<longleftrightarrow> q_len q = 0"

definition move_to_front :: "byte_queue \<Rightarrow> byte_queue" where
  "move_to_front q =
     (case copy_within (q_taken q) (length (q_bytes q)) 0 (q_bytes q) of
        Some bs \<Rightarrow>
          if 0 < q_taken q then \<lparr>q_bytes = take (length (q_bytes q) - q_taken q) bs, q_taken = 0\<rparr> else q
      | None \<Rightarrow> q)"

definition q_compact :: "byte_queue \<Rightarrow> byte_queue" where
  "q_compact q = (if q_len q \<le> q_taken q then move_to_front q else q)"

definition q_push :: "octets \<Rightarrow> byte_queue \<Rightarrow> byte_queue" where
  "q_push extra q = (let q1 = q_compact q in q1\<lparr>q_bytes := q_bytes q1 @ extra\<rparr>)"

definition clamp_taken :: "byte_queue \<Rightarrow> byte_queue" where
  "clamp_taken q = (if length (q_bytes q) < q_taken q then q\<lparr>q_taken := length (q_bytes q)\<rparr> else q)"

definition push_with :: "(octets \<Rightarrow> 'b \<times> octets) \<Rightarrow> byte_queue \<Rightarrow> 'b \<times> byte_queue" where
  "push_with write_on q =
     (let q1 = q_compact q; (wrote, bs) = write_on (q_bytes q1) in (wrote, clamp_taken (q1\<lparr>q_bytes := bs\<rparr>)))"

text \<open>\<open>capacity\<close> is the buffer's; what it gives back is not seen in what it holds.\<close>

definition q_shrink :: "nat \<Rightarrow> nat \<Rightarrow> byte_queue \<Rightarrow> byte_queue" where
  "q_shrink capacity keep q = (if keep < q_len q \<or> capacity \<le> keep then q else move_to_front q)"

definition q_take :: "nat \<Rightarrow> byte_queue \<Rightarrow> byte_queue" where
  "q_take n q =
     (let taken = q_taken q + n
      in if length (q_bytes q) \<le> taken then \<lparr>q_bytes = [], q_taken = 0\<rparr> else q\<lparr>q_taken := taken\<rparr>)"

definition take_front :: "nat \<Rightarrow> byte_queue \<Rightarrow> octets \<times> byte_queue" where
  "take_front n q =
     (let start = q_taken q; taken = min (q_taken q + n) (length (q_bytes q))
      in (take (taken - start) (drop start (q_bytes q)), q\<lparr>q_taken := taken\<rparr>))"

definition q_ok :: "byte_queue \<Rightarrow> bool" where
  "q_ok q \<longleftrightarrow> q_taken q \<le> length (q_bytes q)"

lemma move_to_front_ok:
  assumes "q_ok q"
  shows "q_ok (move_to_front q)" "as_slice (move_to_front q) = as_slice q" "q_taken (move_to_front q) = 0"
  using assms by (auto simp: q_ok_def as_slice_def move_to_front_def copy_within_def)

lemma q_compact_ok: "q_ok q \<Longrightarrow> q_ok (q_compact q) \<and> as_slice (q_compact q) = as_slice q"
  using move_to_front_ok by (simp add: q_compact_def)

lemma q_push_ok: "q_ok q \<Longrightarrow> q_ok (q_push xs q) \<and> as_slice (q_push xs q) = as_slice q @ xs"
  using q_compact_ok [of q] by (auto simp: q_push_def Let_def q_ok_def as_slice_def)

lemma push_with_ok:
  assumes "q_ok q" "\<And>bs. snd (write_on bs) = bs @ x"
  shows "q_ok (snd (push_with write_on q)) \<and> as_slice (snd (push_with write_on q)) = as_slice q @ x"
proof -
  obtain w bs where w: "write_on (q_bytes (q_compact q)) = (w, bs)" by (cases "write_on (q_bytes (q_compact q))")
  then have bs: "bs = q_bytes (q_compact q) @ x" using assms(2) by (metis snd_conv)
  have "snd (push_with write_on q) = (q_compact q)\<lparr>q_bytes := bs\<rparr>"
    using q_compact_ok [OF assms(1)] w bs by (simp add: push_with_def Let_def clamp_taken_def q_ok_def)
  then show ?thesis using q_compact_ok [OF assms(1)] bs assms(1) by (auto simp: q_ok_def as_slice_def)
qed

lemma q_take_ok: "q_ok q \<Longrightarrow> q_ok (q_take n q) \<and> as_slice (q_take n q) = drop n (as_slice q)"
  by (auto simp: q_take_def Let_def q_ok_def as_slice_def add.commute)

lemma take_front_ok:
  "q_ok q \<Longrightarrow> take_front n q = (out, q1) \<Longrightarrow> q_ok q1 \<and> out = take n (as_slice q) \<and> as_slice q1 = drop n (as_slice q)"
  by (auto simp: take_front_def Let_def q_ok_def as_slice_def min_def add.commute)

lemma q_shrink_ok: "q_ok q \<Longrightarrow> q_ok (q_shrink c keep q) \<and> as_slice (q_shrink c keep q) = as_slice q"
  using move_to_front_ok by (simp add: q_shrink_def)

interpretation bytes: fifo q_ok as_slice q_push take_front
  by unfold_locales (use q_push_ok take_front_ok in blast)+

text \<open>
  C38: Bytes leave a queue in the order they came, none lost and none twice,
  whatever is put in and taken out and whenever the buffer is compacted.
\<close>

theorem bytes_in_order:
  assumes "queue_run q_push take_front ops q_new = (outs, q)"
  shows "outs @ as_slice q = put_in ops \<and> length outs + q_len q = length (put_in ops)"
proof -
  have "q_ok q_new" "as_slice q_new = []" by (simp_all add: q_ok_def q_new_def as_slice_def)
  then have r: "q_ok q" "outs @ as_slice q = put_in ops" using bytes.in_order [OF _ assms] by auto
  then have "length outs + length (as_slice q) = length (put_in ops)" by (metis length_append)
  then show ?thesis using r by (simp add: as_slice_def q_len_def q_ok_def)
qed

theorem bytes_in_order_witness:
  "queue_run q_push take_front [Put [1, 2, 3], Take_Out 2, Put [4], Take_Out 3] q_new =
     ([1, 2, 3, 4], \<lparr>q_bytes = [3, 4], q_taken = 2\<rparr>) \<and> length [1, 2, 3, 4 :: 8 word] = 4"
proof -
  have r: "queue_run q_push take_front [Put [1, 2, 3], Take_Out 2, Put [4], Take_Out 3] q_new =
      ([1, 2, 3, 4], \<lparr>q_bytes = [3, 4], q_taken = 2\<rparr>)"
    by code_simp
  from bytes_in_order [OF r] show ?thesis using r by simp
qed

end
