(* ===== verification/Vt_Ring.thy ===== *)
theory Vt_Ring
  imports Vt_Queue
begin

text \<open>
  History's ring of row records (\<open>fux-vt/src/history/ring.rs\<close>): chunks of one
  size, the last being filled, the first being emptied, those let go dropped
  together.  What it holds is a list; each operation is one on that list.
  A chunk's memory is what is asked for, as \<open>try_reserve_exact\<close> gives it.
\<close>

unbundle bit_operations_syntax

section \<open>The ring\<close>

record 'a ring =
  g_full :: "'a list list"
  g_start :: nat
  g_last :: "'a list"
  g_room :: nat
  g_head :: nat
  g_len :: nat
  g_shift :: nat

definition ring_new :: "nat \<Rightarrow> 'a ring" where
  "ring_new shift = \<lparr>g_full = [], g_start = 0, g_last = [], g_room = 0, g_head = 0, g_len = 0, g_shift = shift\<rparr>"

definition chunk_of :: "'a ring \<Rightarrow> nat" where
  "chunk_of r = (if g_shift r < 64 then 2 ^ g_shift r else 1)"

definition full_of :: "'a ring \<Rightarrow> 'a list list" where
  "full_of r = (if g_start r \<le> length (g_full r) then drop (g_start r) (g_full r) else [])"

definition ring_is_empty :: "'a ring \<Rightarrow> bool" where
  "ring_is_empty r \<longleftrightarrow> g_len r = 0"

definition ring_capacity :: "'a ring \<Rightarrow> nat" where
  "ring_capacity r = length (full_of r) * chunk_of r + g_room r"

definition has_room :: "'a ring \<Rightarrow> bool" where
  "has_room r \<longleftrightarrow> length (g_last r) < g_room r"

text \<open>\<open>memory\<close> says whether there is memory for the chunk and its place.\<close>

definition ring_grow :: "bool \<Rightarrow> 'a ring \<Rightarrow> 'a ring option" where
  "ring_grow memory r =
     (if memory then
        Some (r\<lparr>g_full := (if g_last r = [] then g_full r else g_full r @ [g_last r]),
               g_last := [], g_room := chunk_of r\<rparr>)
      else None)"

definition push_back :: "'a \<Rightarrow> 'a ring \<Rightarrow> 'a ring" where
  "push_back x r = r\<lparr>g_last := g_last r @ [x], g_len := g_len r + 1\<rparr>"

definition front_run :: "'a ring \<Rightarrow> 'a list" where
  "front_run r =
     (let first = (case full_of r of [] \<Rightarrow> g_last r | c # cs \<Rightarrow> c)
      in if g_head r \<le> length first then drop (g_head r) first else [])"

definition let_first_go :: "'a ring \<Rightarrow> 'a ring" where
  "let_first_go r =
     (let r1 = (if g_start r < length (g_full r)
                then r\<lparr>g_full := (g_full r)[g_start r := []], g_start := g_start r + 1\<rparr> else r)
      in if length (g_full r1) \<le> g_start r1 * 2
         then r1\<lparr>g_full := drop (g_start r1) (g_full r1), g_start := 0\<rparr> else r1)"

definition advance :: "nat \<Rightarrow> 'a ring \<Rightarrow> bool \<times> 'a ring" where
  "advance n r =
     (let r1 = r\<lparr>g_head := g_head r + n, g_len := g_len r - n\<rparr>;
          freed = (chunk_of r \<le> g_head r1 \<and> full_of r1 \<noteq> [])
      in (freed,
          if freed then (let_first_go r1)\<lparr>g_head := 0\<rparr>
          else if g_len r1 = 0 then r1\<lparr>g_last := [], g_head := 0\<rparr>
          else r1))"

definition pop_front :: "'a ring \<Rightarrow> ('a \<times> bool) option \<times> 'a ring" where
  "pop_front r =
     (case front_run r of
        [] \<Rightarrow> (None, r)
      | x # xs \<Rightarrow> let (freed, r1) = advance 1 r in (Some (x, freed), r1))"

definition pop_back :: "'a ring \<Rightarrow> ('a \<times> bool) option \<times> 'a ring" where
  "pop_back r =
     (let freed = (g_last r = [] \<and> full_of r \<noteq> []);
          r1 = (if freed then r\<lparr>g_full := butlast (g_full r), g_last := last (g_full r), g_room := chunk_of r\<rparr> else r)
      in if g_last r1 = [] then (None, r1)
         else
           let x = last (g_last r1);
               r2 = r1\<lparr>g_last := butlast (g_last r1), g_len := g_len r1 - 1\<rparr>
           in (Some (x, freed), if g_len r2 = 0 then r2\<lparr>g_last := [], g_head := 0\<rparr> else r2))"

definition ring_get :: "nat \<Rightarrow> 'a ring \<Rightarrow> 'a option" where
  "ring_get index r =
     (if g_len r \<le> index then None
      else
        let at = g_head r + index;
            chunk = (if g_shift r < 64 then drop_bit (g_shift r) at else 0);
            place = at AND (chunk_of r - 1)
        in case get_at (g_full r) (g_start r + chunk) of
             Some full \<Rightarrow> get_at full place
           | None \<Rightarrow> get_at (g_last r) place)"

text \<open>\<open>get_mut\<close>, as what is done to the record it gives.\<close>

definition ring_update :: "nat \<Rightarrow> ('a \<Rightarrow> 'a) \<Rightarrow> 'a ring \<Rightarrow> 'a ring" where
  "ring_update index f r =
     (if g_len r \<le> index then r
      else
        let at = g_head r + index;
            chunk = (if g_shift r < 64 then drop_bit (g_shift r) at else 0);
            place = at AND (chunk_of r - 1);
            at_place = (\<lambda>c. if place < length c then c[place := f (c ! place)] else c)
        in if g_start r + chunk < length (g_full r)
           then r\<lparr>g_full := (g_full r)[g_start r + chunk := at_place (g_full r ! (g_start r + chunk))]\<rparr>
           else r\<lparr>g_last := at_place (g_last r)\<rparr>)"

definition update_back :: "('a \<Rightarrow> 'a) \<Rightarrow> 'a ring \<Rightarrow> 'a ring" where
  "update_back f r = (if g_len r = 0 then r else ring_update (g_len r - 1) f r)"

text \<open>\<open>iter\<close>: the first chunk from the head on, the others whole.\<close>

definition from_head :: "nat \<Rightarrow> 'a list \<Rightarrow> 'a list" where
  "from_head n c = (if n \<le> length c then drop n c else [])"

definition ring_iter :: "'a ring \<Rightarrow> 'a list" where
  "ring_iter r = concat (map (\<lambda>(n, c). from_head (if n = 0 then g_head r else 0) c) (enumerate 0 (full_of r @ [g_last r])))"

definition ring_map :: "('a \<Rightarrow> 'a) \<Rightarrow> 'a ring \<Rightarrow> 'a ring" where
  "ring_map f r =
     (let on = (\<lambda>n c. take n c @ map f (drop n c))
      in case full_of r of
           [] \<Rightarrow> r\<lparr>g_last := on (g_head r) (g_last r)\<rparr>
         | c # cs \<Rightarrow> r\<lparr>g_full := take (g_start r) (g_full r) @ on (g_head r) c # map (map f) cs, g_last := map f (g_last r)\<rparr>)"

text \<open>\<open>Clone\<close>: the chunks let go are left behind.\<close>

definition ring_clone :: "'a ring \<Rightarrow> 'a ring" where
  "ring_clone r = r\<lparr>g_full := full_of r, g_start := 0\<rparr>"

section \<open>What it holds\<close>

definition ring_held :: "'a ring \<Rightarrow> 'a list" where
  "ring_held r = drop (g_head r) (concat (full_of r) @ g_last r)"

definition ring_ok :: "'a ring \<Rightarrow> bool" where
  "ring_ok r \<longleftrightarrow>
     g_shift r < 64 \<and> g_start r \<le> length (g_full r) \<and>
     (\<forall>c \<in> set (full_of r). length c = chunk_of r) \<and>
     length (g_last r) \<le> g_room r \<and> (g_room r = 0 \<or> g_room r = chunk_of r) \<and>
     g_len r = length (ring_held r) \<and>
     (full_of r = [] \<longrightarrow> g_head r \<le> length (g_last r)) \<and> (full_of r \<noteq> [] \<longrightarrow> g_head r < chunk_of r) \<and>
     (g_len r = 0 \<longrightarrow> g_last r = [] \<and> g_head r = 0)"

lemma chunk_pos [simp]: "0 < chunk_of r" "chunk_of r \<noteq> 0"
  by (simp_all add: chunk_of_def)

lemma ring_upd [simp]:
  "full_of (r\<lparr>g_last := x\<rparr>) = full_of r" "full_of (r\<lparr>g_room := a\<rparr>) = full_of r"
  "full_of (r\<lparr>g_head := a\<rparr>) = full_of r" "full_of (r\<lparr>g_len := a\<rparr>) = full_of r"
  "chunk_of (r\<lparr>g_last := x\<rparr>) = chunk_of r" "chunk_of (r\<lparr>g_room := a\<rparr>) = chunk_of r"
  "chunk_of (r\<lparr>g_head := a\<rparr>) = chunk_of r" "chunk_of (r\<lparr>g_len := a\<rparr>) = chunk_of r"
  "chunk_of (r\<lparr>g_full := y\<rparr>) = chunk_of r" "chunk_of (r\<lparr>g_start := a\<rparr>) = chunk_of r"
  by (simp_all add: full_of_def chunk_of_def)

lemma concat_same_length: "\<forall>c \<in> set cs. length c = k \<Longrightarrow> length (concat cs) = length cs * k"
  by (induction cs) auto

lemma concat_nth_same:
  "\<forall>c \<in> set cs. length c = k \<Longrightarrow> 0 < k \<Longrightarrow> i < length cs * k \<Longrightarrow> concat cs ! i = cs ! (i div k) ! (i mod k)"
proof (induction cs arbitrary: i)
  case (Cons c cs)
  show ?case
  proof (cases "i < k")
    case True
    then show ?thesis using Cons.prems by (simp add: nth_append)
  next
    case False
    then have "concat cs ! (i - k) = cs ! ((i - k) div k) ! ((i - k) mod k)" using Cons by simp
    then show ?thesis using False Cons.prems by (simp add: nth_append le_div_geq le_mod_geq)
  qed
qed simp

lemma ring_new_ok: "shift < 64 \<Longrightarrow> ring_ok (ring_new shift) \<and> ring_held (ring_new shift) = []"
  by (simp add: ring_ok_def ring_new_def ring_held_def full_of_def)

lemma ring_new_shift: "g_shift (ring_new shift) = shift"
  by (simp add: ring_new_def)

lemma ring_okD:
  assumes "ring_ok r"
  shows "g_shift r < 64" "full_of r = drop (g_start r) (g_full r)" "chunk_of r = 2 ^ g_shift r"
    "length (concat (full_of r)) = length (full_of r) * chunk_of r" "g_len r = length (ring_held r)"
    "length (g_last r) \<le> chunk_of r" "g_start r \<le> length (g_full r)" "length (g_last r) \<le> g_room r"
    "\<forall>c \<in> set (full_of r). length c = chunk_of r" "g_room r = 0 \<or> g_room r = chunk_of r"
    "full_of r = [] \<Longrightarrow> g_head r \<le> length (g_last r)" "full_of r \<noteq> [] \<Longrightarrow> g_head r < chunk_of r"
    "g_len r = 0 \<Longrightarrow> g_last r = []" "g_len r = 0 \<Longrightarrow> g_head r = 0"
  using assms concat_same_length [of "full_of r" "chunk_of r"] by (auto simp: ring_ok_def full_of_def chunk_of_def)

lemma ring_okI:
  assumes "g_shift r < 64" "g_start r \<le> length (g_full r)" "\<forall>c \<in> set (full_of r). length c = chunk_of r"
    "length (g_last r) \<le> g_room r" "g_room r = 0 \<or> g_room r = chunk_of r" "g_len r = length (ring_held r)"
    "full_of r = [] \<Longrightarrow> g_head r \<le> length (g_last r)" "full_of r \<noteq> [] \<Longrightarrow> g_head r < chunk_of r"
    "g_len r = 0 \<Longrightarrow> g_last r = []" "g_len r = 0 \<Longrightarrow> g_head r = 0"
  shows "ring_ok r"
  using assms by (simp add: ring_ok_def)

lemma ring_head_le: "ring_ok r \<Longrightarrow> g_head r \<le> length (concat (full_of r) @ g_last r)"
  using ring_okD(4) [of r] by (cases "full_of r") (auto simp: ring_ok_def)

section \<open>Growing and adding\<close>

lemma ring_grow_ok:
  assumes "ring_ok r" "\<not> has_room r" "ring_grow True r = Some r1"
  shows "ring_ok r1 \<and> ring_held r1 = ring_held r \<and> has_room r1"
proof (cases "g_last r = []")
  case True
  then have r1: "r1 = r\<lparr>g_last := [], g_room := chunk_of r\<rparr>" using assms(3) by (simp add: ring_grow_def)
  have f: "full_of r1 = full_of r" "chunk_of r1 = chunk_of r" "g_last r1 = g_last r" "g_room r1 = chunk_of r"
    "g_start r1 = g_start r" "g_full r1 = g_full r" "g_head r1 = g_head r" "g_len r1 = g_len r" "g_shift r1 = g_shift r"
    using True by (simp_all add: r1 full_of_def chunk_of_def)
  have h: "ring_held r1 = ring_held r" by (simp add: ring_held_def f)
  have "ring_ok r1"
    by (rule ring_okI) (use ring_okD [OF assms(1)] True in \<open>simp_all add: h f\<close>)
  then show ?thesis using h True by (simp add: has_room_def f)
next
  case False
  then have r1: "r1 = r\<lparr>g_full := g_full r @ [g_last r], g_last := [], g_room := chunk_of r\<rparr>"
    using assms(3) by (simp add: ring_grow_def)
  have f: "full_of r1 = full_of r @ [g_last r]" "chunk_of r1 = chunk_of r"
    using ring_okD(7) [OF assms(1)] by (simp_all add: r1 full_of_def chunk_of_def)
  have l: "length (g_last r) = chunk_of r"
    using assms(1,2) False by (auto simp: ring_ok_def has_room_def)
  have h: "ring_held r1 = ring_held r" using f by (simp add: ring_held_def r1)
  have "g_len r \<noteq> 0" using assms(1) False by (auto simp: ring_ok_def)
  then have "g_head r < chunk_of r" using assms(1) l by (auto simp: ring_ok_def ring_held_def split: if_splits)
  moreover have "g_len r1 = g_len r" "g_head r1 = g_head r" by (simp_all add: r1)
  ultimately show ?thesis using assms(1) f h l \<open>g_len r \<noteq> 0\<close> by (auto simp: ring_ok_def r1 has_room_def)
qed

lemma push_back_ok:
  assumes "ring_ok r" "has_room r"
  shows "ring_ok (push_back x r) \<and> ring_held (push_back x r) = ring_held r @ [x]"
proof -
  have f: "full_of (push_back x r) = full_of r" "chunk_of (push_back x r) = chunk_of r"
    by (simp_all add: push_back_def full_of_def chunk_of_def)
  have "ring_held (push_back x r) = ring_held r @ [x]"
    using ring_head_le [OF assms(1)] f by (simp add: ring_held_def push_back_def)
  then show ?thesis using assms f by (auto simp: ring_ok_def has_room_def push_back_def)
qed

section \<open>Taking from the front\<close>

lemma let_first_go_ok:
  assumes "full_of r = c # cs" "g_start r \<le> length (g_full r)"
  shows "full_of (let_first_go r) = cs" "g_start (let_first_go r) \<le> length (g_full (let_first_go r))"
    "g_last (let_first_go r) = g_last r" "g_room (let_first_go r) = g_room r" "g_len (let_first_go r) = g_len r"
    "g_shift (let_first_go r) = g_shift r" "g_head (let_first_go r) = g_head r"
proof -
  have d: "drop (g_start r) (g_full r) = c # cs" using assms by (simp add: full_of_def)
  then have l: "g_start r < length (g_full r)" by (metis drop_all linorder_not_le list.distinct(1))
  have e: "drop (Suc (g_start r)) ((g_full r)[g_start r := []]) = cs" using d by (metis drop_Suc drop_update_cancel lessI list.sel(3) tl_drop)
  show "full_of (let_first_go r) = cs" "g_start (let_first_go r) \<le> length (g_full (let_first_go r))"
    "g_last (let_first_go r) = g_last r" "g_room (let_first_go r) = g_room r" "g_len (let_first_go r) = g_len r"
    "g_shift (let_first_go r) = g_shift r" "g_head (let_first_go r) = g_head r"
    using l e by (simp_all add: let_first_go_def Let_def full_of_def)
qed

lemma front_run_held:
  assumes "ring_ok r"
  shows "front_run r = (case full_of r of [] \<Rightarrow> ring_held r | c # cs \<Rightarrow> drop (g_head r) c)"
    "\<exists>rest. ring_held r = front_run r @ rest" "front_run r = [] \<longleftrightarrow> ring_held r = []"
proof -
  note r = ring_okD [OF assms]
  have "front_run r = (case full_of r of [] \<Rightarrow> ring_held r | c # cs \<Rightarrow> drop (g_head r) c) \<and>
      (\<exists>rest. ring_held r = front_run r @ rest) \<and> (front_run r = [] \<longleftrightarrow> ring_held r = [])"
  proof (cases "full_of r")
    case Nil
    then have "front_run r = ring_held r" using r(11) by (simp add: front_run_def ring_held_def)
    then show ?thesis using Nil by simp
  next
    case (Cons c cs)
    then have h: "g_head r < length c" using r(9,12) by simp
    then have f: "front_run r = drop (g_head r) c" using Cons by (simp add: front_run_def)
    have "ring_held r = drop (g_head r) c @ concat cs @ g_last r" using Cons h by (simp add: ring_held_def)
    then show ?thesis using Cons h f by simp
  qed
  then show "front_run r = (case full_of r of [] \<Rightarrow> ring_held r | c # cs \<Rightarrow> drop (g_head r) c)"
    "\<exists>rest. ring_held r = front_run r @ rest" "front_run r = [] \<longleftrightarrow> ring_held r = []" by blast+
qed

lemma advance_ok:
  assumes "ring_ok r" "n \<le> length (front_run r)" "advance n r = (freed, r1)"
  shows "ring_ok r1 \<and> ring_held r1 = drop n (ring_held r) \<and> (freed \<longleftrightarrow> ring_capacity r1 < ring_capacity r)"
proof -
  let ?m = "r\<lparr>g_head := g_head r + n, g_len := g_len r - n\<rparr>"
  note r = ring_okD [OF assms(1)]
  have f: "full_of ?m = full_of r" "chunk_of ?m = chunk_of r" by (simp_all add: full_of_def chunk_of_def)
  have held: "ring_held ?m = drop n (ring_held r)"
    unfolding ring_held_def f drop_drop by (simp add: add.commute del: drop_append)
  have len: "g_len r - n = length (drop n (ring_held r))" using r(5) by simp
  have nl: "n \<le> length (ring_held r)" using assms(2) front_run_held(2) [OF assms(1)] by (metis le_add1 le_trans length_append)
  show ?thesis
  proof (cases "full_of r")
    case Nil
    have hl: "ring_held r = drop (g_head r) (g_last r)" using Nil by (simp add: ring_held_def)
    have r1: "freed = False" "r1 = (if g_len r - n = 0 then ?m\<lparr>g_last := [], g_head := 0\<rparr> else ?m)"
      using assms(3) Nil f by (auto simp: advance_def Let_def split: if_splits)
    show ?thesis
    proof (cases "g_len r - n = 0")
      case True
      then have e: "r1 = ?m\<lparr>g_last := [], g_head := 0\<rparr>" using r1 by simp
      then have f1: "full_of r1 = []" "chunk_of r1 = chunk_of r" "g_room r1 = g_room r" "g_len r1 = 0"
        "g_last r1 = []" "g_head r1 = 0" "g_shift r1 = g_shift r" "g_start r1 = g_start r" "g_full r1 = g_full r"
        using Nil True by simp_all
      have h1: "ring_held r1 = []" by (simp add: ring_held_def f1)
      have "ring_ok r1" by (rule ring_okI) (use r in \<open>simp_all add: f1 h1\<close>)
      then show ?thesis using h1 True len f1 Nil r1(1) by (simp add: ring_capacity_def)
    next
      case False
      then have e: "r1 = ?m" using r1 by simp
      have "g_head r + n \<le> length (g_last r)" using nl hl r(11) Nil by simp
      then have "ring_ok ?m"
        by (intro ring_okI) (use r False held f Nil len in simp_all)
      then show ?thesis using e held f r1(1) by (simp add: ring_capacity_def)
    qed
  next
    case (Cons c cs)
    have c: "length c = chunk_of r" "\<forall>d \<in> set cs. length d = chunk_of r" "g_head r < chunk_of r"
      using r(9,12) Cons by auto
    have n: "g_head r + n \<le> chunk_of r" using assms(2) front_run_held(1) [OF assms(1)] Cons c by simp
    have hl: "ring_held r = drop (g_head r) c @ concat cs @ g_last r" using Cons c by (simp add: ring_held_def)
    show ?thesis
    proof (cases "chunk_of r \<le> g_head r + n")
      case True
      then have full: "g_head r + n = chunk_of r" using n by simp
      have "full_of ?m = c # cs" "g_start ?m \<le> length (g_full ?m)" using f Cons r(7) by simp_all
      note g = let_first_go_ok [OF this]
      have r1: "freed" "r1 = (let_first_go ?m)\<lparr>g_head := 0\<rparr>"
        using assms(3) True Cons f by (auto simp: advance_def Let_def)
      have f1: "full_of r1 = cs" "chunk_of r1 = chunk_of r" "g_last r1 = g_last r" "g_room r1 = g_room r"
        "g_len r1 = g_len r - n" "g_shift r1 = g_shift r" "g_head r1 = 0" "g_start r1 \<le> length (g_full r1)"
        using g by (simp_all add: r1(2) full_of_def chunk_of_def)
      have h: "ring_held r1 = drop n (ring_held r)"
        using full c f1 by (simp add: hl) (simp add: ring_held_def f1)
      have "g_last r = []" if "g_len r - n = 0" using that len h by (simp add: ring_held_def f1)
      then have "ring_ok r1" by (intro ring_okI) (use r c(2) len in \<open>simp_all add: h f1\<close>)
      then show ?thesis using h r1(1) f1 Cons by (simp add: ring_capacity_def)
    next
      case False
      then have pos: "g_len r - n \<noteq> 0" using len hl c by simp
      then have r1: "\<not> freed" "r1 = ?m" using assms(3) False f by (auto simp: advance_def Let_def)
      have "ring_ok ?m" by (intro ring_okI) (use r pos held f False Cons len in simp_all)
      then show ?thesis using r1 held f by (simp add: ring_capacity_def)
    qed
  qed
qed

lemma pop_front_ok:
  assumes "ring_ok r" "pop_front r = (x, r1)"
  shows "ring_ok r1 \<and> map_option fst x = (case ring_held r of [] \<Rightarrow> None | y # ys \<Rightarrow> Some y) \<and> ring_held r1 = tl (ring_held r)"
proof (cases "front_run r")
  case Nil
  then have "ring_held r = []" using front_run_held(3) [OF assms(1)] by simp
  then show ?thesis using assms Nil by (simp add: pop_front_def)
next
  case (Cons y ys)
  obtain freed r2 where a: "advance 1 r = (freed, r2)" by (cases "advance 1 r")
  obtain rest where "ring_held r = y # ys @ rest" using front_run_held(2) [OF assms(1)] Cons by auto
  then show ?thesis using assms(2) Cons a advance_ok [OF assms(1) _ a] by (auto simp: pop_front_def)
qed

section \<open>Taking from the back\<close>

lemma pop_last_chunk:
  assumes "ring_ok r" "g_last r \<noteq> []"
  shows "\<exists>freed r1. pop_back r = (Some (last (ring_held r), freed), r1) \<and> ring_ok r1 \<and> ring_held r1 = butlast (ring_held r) \<and> ring_held r \<noteq> []"
proof -
  let ?r2 = "r\<lparr>g_last := butlast (g_last r), g_len := g_len r - 1\<rparr>"
  note r = ring_okD [OF assms(1)]
  have pos: "g_len r \<noteq> 0" using r(13) assms(2) by auto
  then have ne: "ring_held r \<noteq> []" using r(5) by auto
  have hd: "g_head r < length (concat (full_of r) @ g_last r)" using ne unfolding ring_held_def by (simp del: drop_append)
  have h: "ring_held r = drop (g_head r) (concat (full_of r) @ butlast (g_last r)) @ [last (g_last r)]"
  proof -
    have "concat (full_of r) @ g_last r = (concat (full_of r) @ butlast (g_last r)) @ [last (g_last r)]" using assms(2) by simp
    then show ?thesis using hd unfolding ring_held_def by (simp del: append_assoc)
  qed
  have h2: "ring_held ?r2 = butlast (ring_held r)" unfolding h by (simp add: ring_held_def del: drop_append)
  have l2: "g_len ?r2 = length (ring_held ?r2)" using r(5) h2 by simp
  have p: "pop_back r = (Some (last (ring_held r), False), if g_len ?r2 = 0 then ?r2\<lparr>g_last := [], g_head := 0\<rparr> else ?r2)"
    using assms(2) h by (simp add: pop_back_def Let_def)
  show ?thesis
  proof (cases "g_len ?r2 = 0")
    case True
    then have e: "ring_held ?r2 = []" using l2 by simp
    have "full_of r = []"
    proof (rule ccontr)
      assume f: "full_of r \<noteq> []"
      then obtain c cs where "full_of r = c # cs" by (cases "full_of r") auto
      then have "ring_held ?r2 \<noteq> []" using r(9,12) f by (auto simp: ring_held_def)
      then show False using e by simp
    qed
    then have z: "ring_held (?r2\<lparr>g_last := [], g_head := 0\<rparr>) = []" by (simp add: ring_held_def)
    then have "ring_ok (?r2\<lparr>g_last := [], g_head := 0\<rparr>)"
      by (intro ring_okI) (use r(1,7,9,10) True \<open>full_of r = []\<close> in simp_all)
    then show ?thesis using p True e h2 ne z by auto
  next
    case False
    have "g_head r \<le> length (butlast (g_last r))" if "full_of r = []" using that hd by simp
    then have "ring_ok ?r2" by (intro ring_okI) (use r False h2 l2 in simp_all)
    then show ?thesis using p False h2 ne by auto
  qed
qed

lemma pop_back_ok:
  assumes "ring_ok r" "pop_back r = (x, r1)"
  shows "ring_ok r1 \<and> map_option fst x = (if ring_held r = [] then None else Some (last (ring_held r))) \<and>
    ring_held r1 = butlast (ring_held r)"
proof -
  note r = ring_okD [OF assms(1)]
  consider (last) "g_last r \<noteq> []" | (full) "g_last r = []" "full_of r \<noteq> []" | (none) "g_last r = []" "full_of r = []" by blast
  then show ?thesis
  proof cases
    case last
    then show ?thesis using pop_last_chunk [OF assms(1) last] assms(2) by auto
  next
    case none
    then have "ring_held r = []" by (simp add: ring_held_def)
    then show ?thesis using none assms by (simp add: pop_back_def Let_def)
  next
    case full
    let ?m = "r\<lparr>g_full := butlast (g_full r), g_last := last (g_full r), g_room := chunk_of r\<rparr>"
    have ne: "g_start r < length (g_full r)" using full(2) r(2) by (metis drop_all linorder_not_le)
    have fm: "full_of ?m = butlast (full_of r)" "last (g_full r) = last (full_of r)"
      using ne r(2) full(2) by (simp_all add: full_of_def butlast_drop last_drop)
    have lc: "length (last (full_of r)) = chunk_of r" using r(9) full(2) by simp
    have cat: "concat (butlast (full_of r)) @ last (full_of r) = concat (full_of r)"
      using full(2) append_butlast_last_id [of "full_of r"] by (metis concat_append concat.simps(1,2) append_Nil2)
    have hm: "ring_held ?m = ring_held r" using fm full(1) cat by (simp add: ring_held_def)
    have pos: "g_len r \<noteq> 0"
    proof
      assume z: "g_len r = 0"
      then have "ring_held r = []" using r(5) by simp
      moreover have "length (concat (full_of r)) \<noteq> 0" using r(4) full(2) by simp
      ultimately show False using r(14) [OF z] by (simp add: ring_held_def)
    qed
    have "ring_ok ?m"
    proof (rule ring_okI)
      show "\<forall>c \<in> set (full_of ?m). length c = chunk_of ?m" using r(9) fm by (auto dest: in_set_butlastD)
      show "g_start ?m \<le> length (g_full ?m)" using ne by simp
      show "g_len ?m = length (ring_held ?m)" unfolding hm using r(5) by simp
      show "full_of ?m = [] \<Longrightarrow> g_head ?m \<le> length (g_last ?m)" "full_of ?m \<noteq> [] \<Longrightarrow> g_head ?m < chunk_of ?m"
        using r(12) [OF full(2)] lc fm(2) by simp_all
    qed (use r(1) lc fm(2) pos in simp_all)
    moreover have nel: "last (g_full r) \<noteq> []" using fm(2) lc by (metis chunk_pos(2) length_0_conv)
    ultimately obtain freed r2 where p: "pop_back ?m = (Some (last (ring_held r), freed), r2)" "ring_ok r2"
      "ring_held r2 = butlast (ring_held r)" "ring_held r \<noteq> []" using pop_last_chunk [of ?m] hm by auto
    have "pop_back r = (Some (last (ring_held r), True), r2)"
      using p(1) full nel by (simp add: pop_back_def Let_def)
    then show ?thesis using p assms(2) by auto
  qed
qed

section \<open>Reading\<close>

text \<open>The chunk of a place and the place in it.\<close>

lemma place_split:
  assumes "ring_ok r" "i < g_len r" "k = (g_head r + i) div chunk_of r" "p = (g_head r + i) mod chunk_of r"
  shows "k < length (full_of r) \<and> g_start r + k < length (g_full r) \<and> g_full r ! (g_start r + k) = full_of r ! k \<and>
       p < length (full_of r ! k) \<and> ring_held r ! i = full_of r ! k ! p \<or>
     \<not> g_start r + k < length (g_full r) \<and> p < length (g_last r) \<and> ring_held r ! i = g_last r ! p \<and>
       g_head r + i = length (concat (full_of r)) + p"
proof -
  note r = ring_okD [OF assms(1)]
  let ?a = "g_head r + i" and ?n = "length (full_of r)"
  have held: "ring_held r ! i = (concat (full_of r) @ g_last r) ! ?a"
    using ring_head_le [OF assms(1)] unfolding ring_held_def by (simp del: drop_append)
  have lt: "?a < length (concat (full_of r) @ g_last r)"
    using assms(2) r(5) unfolding ring_held_def by (simp del: drop_append)
  have n: "length (g_full r) = g_start r + ?n" using r(2,7) by simp
  show ?thesis
  proof (cases "k < ?n")
    case True
    have a: "?a < ?n * chunk_of r" using True unfolding assms(3) by (simp add: div_less_iff_less_mult)
    have "ring_held r ! i = full_of r ! k ! p"
      unfolding held assms(3,4) concat_nth_same [OF r(9) chunk_pos(1) a, symmetric] using a r(4) by (simp add: nth_append)
    moreover have "p < length (full_of r ! k)" using r(9) True unfolding assms(4) by simp
    moreover have "g_full r ! (g_start r + k) = full_of r ! k" unfolding r(2) using r(7) by (simp add: nth_drop)
    ultimately show ?thesis using True n by simp
  next
    case False
    have ge: "?n * chunk_of r \<le> ?a" using False unfolding assms(3) by (simp add: not_less less_eq_div_iff_mult_less_eq)
    have up: "?a - ?n * chunk_of r < length (g_last r)" using lt ge r(4) by simp
    then have "?a - ?n * chunk_of r < chunk_of r" using r(6) by simp
    moreover have "?a = ?n * chunk_of r + (?a - ?n * chunk_of r)" using ge by simp
    then have "?a mod chunk_of r = (?a - ?n * chunk_of r) mod chunk_of r" by (metis mod_mult_self3)
    ultimately have p: "p = ?a - ?n * chunk_of r" unfolding assms(4) by simp
    then have "ring_held r ! i = g_last r ! p" unfolding held using ge r(4) by (simp add: nth_append)
    moreover have "?a = length (concat (full_of r)) + p" using p ge r(4) by simp
    moreover have "\<not> g_start r + k < length (g_full r)" using False n by simp
    moreover have "p < length (g_last r)" unfolding p by (rule up)
    ultimately show ?thesis by blast
  qed
qed

lemma place_bits:
  assumes "ring_ok r"
  shows "(if g_shift r < 64 then drop_bit (g_shift r) a else 0) = a div chunk_of r" "a AND (chunk_of r - 1) = a mod chunk_of r"
    "a AND (chunk_of r - Suc 0) = a mod chunk_of r"
proof -
  have "a AND (2 ^ g_shift r - 1) = a mod 2 ^ g_shift r"
    unfolding mask_eq_exp_minus_1 [symmetric] take_bit_eq_mask [symmetric] take_bit_eq_mod ..
  then show "(if g_shift r < 64 then drop_bit (g_shift r) a else 0) = a div chunk_of r"
    "a AND (chunk_of r - 1) = a mod chunk_of r" "a AND (chunk_of r - Suc 0) = a mod chunk_of r"
    using ring_okD(1,3) [OF assms] by (simp_all add: drop_bit_eq_div)
qed

lemma ring_get_ok:
  assumes "ring_ok r"
  shows "ring_get i r = get_at (ring_held r) i"
proof (cases "i < g_len r")
  case True
  let ?k = "(g_head r + i) div chunk_of r" and ?p = "(g_head r + i) mod chunk_of r"
  have g: "ring_get i r = (case get_at (g_full r) (g_start r + ?k) of Some full \<Rightarrow> get_at full ?p | None \<Rightarrow> get_at (g_last r) ?p)"
    using True by (simp add: ring_get_def Let_def place_bits [OF assms])
  have "get_at (ring_held r) i = Some (ring_held r ! i)" using True ring_okD(5) [OF assms] by (simp add: get_at_def)
  then show ?thesis
    unfolding g using place_split [OF assms True refl refl] by (elim disjE) (simp_all add: get_at_def)
next
  case False
  then show ?thesis using ring_okD(5) [OF assms] by (simp add: ring_get_def get_at_def)
qed

section \<open>Writing in place\<close>

lemma concat_update_same:
  "\<forall>c \<in> set cs. length c = k \<Longrightarrow> i < length cs \<Longrightarrow> p < k \<Longrightarrow>
     concat (cs[i := (cs ! i)[p := x]]) = (concat cs)[i * k + p := x]"
proof (induction cs arbitrary: i)
  case (Cons c cs)
  show ?case
  proof (cases i)
    case 0
    then show ?thesis using Cons.prems by (simp add: list_update_append1)
  next
    case (Suc j)
    then show ?thesis using Cons.prems Cons.IH [of j] by (simp add: list_update_append add.commute add.left_commute)
  qed
qed simp

lemma list_update_length_append: "xs @ ys[p := x] = (xs @ ys)[length xs + p := x]"
  by (simp add: list_update_append)

lemma drop_update_in: "drop h (xs[h + i := x]) = (drop h xs)[i := x]"
  by (simp add: drop_update_swap)

lemma ring_update_ok:
  assumes "ring_ok r"
  shows "ring_ok (ring_update i f r) \<and>
    ring_held (ring_update i f r) = (if i < length (ring_held r) then (ring_held r)[i := f (ring_held r ! i)] else ring_held r) \<and>
    ring_capacity (ring_update i f r) = ring_capacity r \<and> has_room (ring_update i f r) = has_room r"
proof (cases "i < g_len r")
  case True
  note r = ring_okD [OF assms]
  let ?k = "(g_head r + i) div chunk_of r" and ?p = "(g_head r + i) mod chunk_of r"
  have a: "?k * chunk_of r + ?p = g_head r + i" by simp
  have il: "i < length (ring_held r)" using True r(5) by simp
  from place_split [OF assms True refl refl] show ?thesis
  proof
    assume k: "?k < length (full_of r) \<and> g_start r + ?k < length (g_full r) \<and> g_full r ! (g_start r + ?k) = full_of r ! ?k \<and>
       ?p < length (full_of r ! ?k) \<and> ring_held r ! i = full_of r ! ?k ! ?p"
    let ?c = "(full_of r ! ?k)[?p := f (ring_held r ! i)]"
    let ?m = "r\<lparr>g_full := (g_full r)[g_start r + ?k := ?c]\<rparr>"
    have u: "ring_update i f r = ?m" using True k by (simp add: ring_update_def Let_def place_bits [OF assms])
    have fm: "full_of ?m = (full_of r)[?k := ?c]" using r(2,7) by (simp add: full_of_def drop_update_swap)
    have cat: "concat (full_of ?m) = (concat (full_of r))[g_head r + i := f (ring_held r ! i)]"
      unfolding fm using concat_update_same [OF r(9), of ?k ?p "f (ring_held r ! i)"] k a by simp
    have "g_head r + i < length (concat (full_of r))"
    proof -
      have "?k * chunk_of r + ?p < ?k * chunk_of r + chunk_of r" by (rule add_strict_left_mono) simp
      also have "\<dots> = Suc ?k * chunk_of r" by simp
      also have "\<dots> \<le> length (full_of r) * chunk_of r" using k by (intro mult_le_mono1) simp
      finally show ?thesis using a r(4) by simp
    qed
    then have "concat (full_of ?m) @ g_last r = (concat (full_of r) @ g_last r)[g_head r + i := f (ring_held r ! i)]"
      unfolding cat by (simp add: list_update_append1)
    then have "ring_held ?m = drop (g_head r) ((concat (full_of r) @ g_last r)[g_head r + i := f (ring_held r ! i)])"
      unfolding ring_held_def by (simp del: drop_append)
    then have held: "ring_held ?m = (ring_held r)[i := f (ring_held r ! i)]"
      unfolding drop_update_in by (simp only: ring_held_def)
    have "ring_ok ?m"
    proof (rule ring_okI)
      show "\<forall>c \<in> set (full_of ?m). length c = chunk_of ?m"
        using r(9) k set_update_subset_insert [of "full_of r" ?k ?c] unfolding fm by (auto dest!: subsetD)
      show "g_len ?m = length (ring_held ?m)" unfolding held using r(5) by simp
      show "full_of ?m = [] \<Longrightarrow> g_head ?m \<le> length (g_last ?m)" "full_of ?m \<noteq> [] \<Longrightarrow> g_head ?m < chunk_of ?m"
        using r(11,12) fm by simp_all
    qed (use r(1,7,8,10,13,14) in simp_all)
    then show ?thesis using u held il fm by (simp add: ring_capacity_def has_room_def)
  next
    assume k: "\<not> g_start r + ?k < length (g_full r) \<and> ?p < length (g_last r) \<and> ring_held r ! i = g_last r ! ?p \<and>
       g_head r + i = length (concat (full_of r)) + ?p"
    let ?l = "(g_last r)[?p := f (ring_held r ! i)]"
    let ?m = "r\<lparr>g_last := ?l\<rparr>"
    have u: "ring_update i f r = ?m" using True k by (simp add: ring_update_def Let_def place_bits [OF assms])
    have "g_head r + i = length (concat (full_of r)) + ?p" using k by blast
    then have "concat (full_of r) @ ?l = (concat (full_of r) @ g_last r)[g_head r + i := f (ring_held r ! i)]"
      by (metis list_update_length_append)
    then have held: "ring_held ?m = (ring_held r)[i := f (ring_held r ! i)]"
      unfolding ring_held_def by (simp add: drop_update_in del: drop_append)
    have "ring_ok ?m"
      by (rule ring_okI) (use r(1,5,7,8,9,10,11,12,13,14) held in simp_all)
    then show ?thesis using u held il by (simp add: ring_capacity_def has_room_def)
  qed
next
  case False
  then show ?thesis using assms ring_okD(5) [OF assms] by (simp add: ring_update_def)
qed

section \<open>All of it\<close>

lemma concat_later: "concat (map (\<lambda>(n, c). from_head (if n = 0 then h else 0) c) (enumerate (Suc m) cs)) = concat cs"
  by (induction cs arbitrary: m) (simp_all add: from_head_def)

lemma ring_iter_held: "ring_ok r \<Longrightarrow> ring_iter r = ring_held r"
proof -
  assume ok: "ring_ok r"
  note r = ring_okD [OF ok]
  show ?thesis
  proof (cases "full_of r")
    case Nil
    then show ?thesis using r(11) by (simp add: ring_iter_def ring_held_def from_head_def)
  next
    case (Cons c cs)
    then have "g_head r < length c" using r(9,12) by simp
    then show ?thesis using concat_later [of "g_head r" 0 "cs @ [g_last r]"] Cons
      by (simp add: ring_iter_def ring_held_def from_head_def)
  qed
qed

lemma ring_clone_ok: "ring_ok r \<Longrightarrow> ring_ok (ring_clone r) \<and> ring_held (ring_clone r) = ring_held r"
proof -
  assume ok: "ring_ok r"
  note r = ring_okD [OF ok]
  have f: "full_of (ring_clone r) = full_of r" "chunk_of (ring_clone r) = chunk_of r"
    by (simp_all add: ring_clone_def full_of_def chunk_of_def)
  have h: "ring_held (ring_clone r) = ring_held r" unfolding ring_held_def f by (simp add: ring_clone_def)
  have "ring_ok (ring_clone r)"
  proof (rule ring_okI)
    show "g_len (ring_clone r) = length (ring_held (ring_clone r))" unfolding h using r(5) by (simp add: ring_clone_def)
  qed (use r(1,8,9,10,11,12,13,14) f in \<open>simp_all add: ring_clone_def\<close>)
  then show ?thesis using h by simp
qed

text \<open>The ring takes less than two chunks more than it holds (its part of \<open>check_capacities\<close>).\<close>

lemma ring_capacity_bound: "ring_ok r \<Longrightarrow> ring_capacity r < g_len r + 2 * chunk_of r"
proof -
  assume ok: "ring_ok r"
  note r = ring_okD [OF ok]
  have l: "g_len r = length (full_of r) * chunk_of r + length (g_last r) - g_head r"
    using r(4,5) by (simp add: ring_held_def)
  have m: "g_room r \<le> chunk_of r" "0 < chunk_of r" using r(10) by auto
  show ?thesis
  proof (cases "full_of r = []")
    case True
    then show ?thesis using m unfolding ring_capacity_def by (simp only: list.size mult_0 add_0)
  next
    case False
    have "g_head r \<le> length (full_of r) * chunk_of r + length (g_last r)" using ring_head_le [OF ok] r(4) by simp
    then show ?thesis using l m r(12) [OF False] unfolding ring_capacity_def by linarith
  qed
qed

section \<open>A queue of both ends\<close>

datatype 'a deque_op = Add 'a | Drop_First | Drop_Last | Write nat 'a | Look nat

text \<open>A record added as history adds it: with a new chunk when the last is full.\<close>

definition ring_add :: "'a \<Rightarrow> 'a ring \<Rightarrow> 'a ring" where
  "ring_add x r =
     (if has_room r then push_back x r
      else (case ring_grow True r of Some r1 \<Rightarrow> push_back x r1 | None \<Rightarrow> r))"

fun ring_do :: "'a deque_op \<Rightarrow> 'a ring \<Rightarrow> 'a option \<times> 'a ring" where
  "ring_do (Add x) r = (None, ring_add x r)"
| "ring_do Drop_First r = map_prod (map_option fst) id (pop_front r)"
| "ring_do Drop_Last r = map_prod (map_option fst) id (pop_back r)"
| "ring_do (Write i x) r = (None, ring_update i (\<lambda>_. x) r)"
| "ring_do (Look i) r = (ring_get i r, r)"

fun list_do :: "'a deque_op \<Rightarrow> 'a list \<Rightarrow> 'a option \<times> 'a list" where
  "list_do (Add x) xs = (None, xs @ [x])"
| "list_do Drop_First xs = (if xs = [] then None else Some (hd xs), tl xs)"
| "list_do Drop_Last xs = (if xs = [] then None else Some (last xs), butlast xs)"
| "list_do (Write i x) xs = (None, xs[i := x])"
| "list_do (Look i) xs = (get_at xs i, xs)"

fun run_ops :: "('b \<Rightarrow> 's \<Rightarrow> 'o \<times> 's) \<Rightarrow> 'b list \<Rightarrow> 's \<Rightarrow> 'o list \<times> 's" where
  "run_ops step [] s = ([], s)"
| "run_ops step (x # xs) s = (let (a, s1) = step x s; (os, s2) = run_ops step xs s1 in (a # os, s2))"

lemma ring_add_ok: "ring_ok r \<Longrightarrow> ring_ok (ring_add x r) \<and> ring_held (ring_add x r) = ring_held r @ [x]"
proof -
  assume ok: "ring_ok r"
  show ?thesis
  proof (cases "has_room r")
    case True
    then show ?thesis using push_back_ok [OF ok] by (simp add: ring_add_def)
  next
    case False
    obtain r1 where g: "ring_grow True r = Some r1" by (simp add: ring_grow_def)
    then show ?thesis using ring_grow_ok [OF ok False g] push_back_ok [of r1] False by (simp add: ring_add_def)
  qed
qed

lemma ring_do_ok:
  assumes "ring_ok r" "ring_do x r = (out, r1)"
  shows "ring_ok r1 \<and> list_do x (ring_held r) = (out, ring_held r1)"
proof (cases x)
  case (Add y)
  then show ?thesis using assms ring_add_ok [OF assms(1), of y] by auto
next
  case Drop_First
  obtain z r2 where z: "pop_front r = (z, r2)" by (cases "pop_front r")
  then show ?thesis using assms Drop_First pop_front_ok [OF assms(1) z] by (auto split: list.splits)
next
  case Drop_Last
  obtain z r2 where z: "pop_back r = (z, r2)" by (cases "pop_back r")
  then show ?thesis using assms Drop_Last pop_back_ok [OF assms(1) z] by auto
next
  case (Write i y)
  then show ?thesis using assms ring_update_ok [OF assms(1), of i "\<lambda>_. y"] by (auto simp: list_update_beyond)
next
  case (Look i)
  then show ?thesis using assms ring_get_ok [OF assms(1)] by auto
qed

lemma ring_do_shift: "g_shift (snd (ring_do x r)) = g_shift r"
  by (cases x)
    (auto simp: ring_add_def push_back_def ring_grow_def pop_front_def advance_def let_first_go_def pop_back_def
      ring_update_def Let_def split: list.splits prod.splits)

text \<open>
  C39: Whatever is added, taken from either end, written in place and read,
  the ring answers as a list does, its records in order; and it takes less
  than two chunks more than the records it holds.
\<close>

theorem ring_is_a_deque:
  assumes "shift < 64" "run_ops ring_do ops (ring_new shift) = (outs, r)"
  shows "run_ops list_do ops [] = (outs, ring_iter r) \<and> g_len r = length (ring_iter r) \<and>
    ring_capacity r < g_len r + 2 * 2 ^ shift"
proof -
  have gen: "ring_ok r \<and> run_ops list_do ops (ring_held q) = (outs, ring_held r) \<and> g_shift r = g_shift q"
    if "ring_ok q" "run_ops ring_do ops q = (outs, r)" for q ops outs r
    using that
  proof (induction ops arbitrary: q outs)
    case (Cons x ops)
    obtain a m where m: "ring_do x q = (a, m)" by (cases "ring_do x q")
    obtain rest l where l: "run_ops ring_do ops m = (rest, l)" by (cases "run_ops ring_do ops m")
    have e: "outs = a # rest" "r = l" using Cons.prems(2) m l by auto
    have ok: "ring_ok m" "list_do x (ring_held q) = (a, ring_held m)" using ring_do_ok [OF Cons.prems(1) m] by auto
    have "g_shift m = g_shift q" using ring_do_shift [of x q] m by simp
    then show ?case using Cons.IH [OF ok(1)] l e ok(2) by simp
  qed simp
  have "ring_ok r" "run_ops list_do ops [] = (outs, ring_held r)" "g_shift r = shift"
    using gen [OF _ assms(2)] ring_new_ok [OF assms(1), where 'a = 'a] ring_new_shift by metis+
  then show ?thesis
    using ring_iter_held [of r] ring_capacity_bound [of r] ring_okD(3,5) [of r] by simp
qed

lemma ring_is_a_deque_witness:
  "fst (run_ops ring_do [Add (5 :: nat), Add 6, Drop_First, Add 7, Look 1, Write 0 9, Drop_Last, Look 0] (ring_new 0)) =
     [None, None, Some 5, None, Some 7, None, Some 7, Some 9]"
proof -
  obtain outs r where r: "run_ops ring_do [Add (5 :: nat), Add 6, Drop_First, Add 7, Look 1, Write 0 9, Drop_Last, Look 0] (ring_new 0) = (outs, r)"
    by (cases "run_ops ring_do [Add (5 :: nat), Add 6, Drop_First, Add 7, Look 1, Write 0 9, Drop_Last, Look 0] (ring_new 0)")
  have "run_ops list_do [Add (5 :: nat), Add 6, Drop_First, Add 7, Look 1, Write 0 9, Drop_Last, Look 0] [] =
      ([None, None, Some 5, None, Some 7, None, Some 7, Some 9], [9])" by simp
  then have "outs = [None, None, Some 5, None, Some 7, None, Some 7, Some 9]"
    using ring_is_a_deque [OF _ r] by (metis prod.inject zero_less_numeral)
  then show ?thesis unfolding r by simp
qed

text \<open>A ring fills at the end and empties from the front as any queue does.\<close>

definition ring_put :: "'a list \<Rightarrow> 'a ring \<Rightarrow> 'a ring" where
  "ring_put xs r = fold ring_add xs r"

fun ring_take :: "nat \<Rightarrow> 'a ring \<Rightarrow> 'a list \<times> 'a ring" where
  "ring_take 0 r = ([], r)"
| "ring_take (Suc n) r =
     (case pop_front r of
        (None, r1) \<Rightarrow> ([], r1)
      | (Some (x, freed), r1) \<Rightarrow> map_prod (\<lambda>xs. x # xs) id (ring_take n r1))"

lemma ring_put_ok: "ring_ok r \<Longrightarrow> ring_ok (ring_put xs r) \<and> ring_held (ring_put xs r) = ring_held r @ xs"
  unfolding ring_put_def by (induction xs arbitrary: r) (simp_all add: ring_add_ok)

lemma ring_take_ok:
  "ring_ok r \<Longrightarrow> ring_take n r = (out, r1) \<Longrightarrow> ring_ok r1 \<and> out = take n (ring_held r) \<and> ring_held r1 = drop n (ring_held r)"
proof (induction n arbitrary: r out)
  case (Suc n)
  obtain x m where m: "pop_front r = (x, m)" by (cases "pop_front r")
  note p = pop_front_ok [OF Suc.prems(1) m]
  show ?case
  proof (cases "ring_held r")
    case Nil
    then have "x = None" using p by simp
    then show ?thesis using Suc.prems(2) m p Nil by simp
  next
    case (Cons y ys)
    then obtain b where x: "x = Some (y, b)" using p by auto
    obtain rest l where l: "ring_take n m = (rest, l)" by (cases "ring_take n m")
    then show ?thesis using Suc.IH [of m rest] Suc.prems(2) m x p Cons by auto
  qed
qed simp

interpretation records: fifo ring_ok ring_held ring_put ring_take
  by unfold_locales (use ring_put_ok ring_take_ok in blast)+

end
