(* ===== verification/Vt_Spans.thy ===== *)
theory Vt_Spans
  imports Prelude
begin

text \<open>
  History's rows by identity (\<open>fux-vt/src/history/spans.rs\<close>): spans of
  consecutive identities, each found by its first.  As no identity is ever
  used again, the span a row is found in is its own.
\<close>

section \<open>An ordered map\<close>

text \<open>\<open>BTreeMap\<close>: its entries in the order of their keys.\<close>

fun tree_put :: "nat \<Rightarrow> 'v \<Rightarrow> (nat \<times> 'v) list \<Rightarrow> (nat \<times> 'v) list" where
  "tree_put k v [] = [(k, v)]"
| "tree_put k v ((j, w) # m) =
     (if k < j then (k, v) # (j, w) # m else if k = j then (k, v) # m else (j, w) # tree_put k v m)"

definition tree_del :: "nat \<Rightarrow> (nat \<times> 'v) list \<Rightarrow> (nat \<times> 'v) list" where
  "tree_del k m = filter (\<lambda>e. fst e \<noteq> k) m"

text \<open>\<open>range(..=k).next_back()\<close>: the entry of the greatest key up to \<open>k\<close>.\<close>

definition tree_at_most :: "nat \<Rightarrow> (nat \<times> 'v) list \<Rightarrow> (nat \<times> 'v) option" where
  "tree_at_most k m = (let low = filter (\<lambda>e. fst e \<le> k) m in if low = [] then None else Some (last low))"

lemma set_tree_put: "k \<notin> fst ` set m \<Longrightarrow> set (tree_put k v m) = insert (k, v) (set m)"
  by (induction m rule: tree_put.induct) auto

lemma keys_tree_put: "fst ` set (tree_put k v m) = insert k (fst ` set m)"
  by (induction k v m rule: tree_put.induct) auto

lemma sorted_tree_put: "sorted_wrt (<) (map fst m) \<Longrightarrow> sorted_wrt (<) (map fst (tree_put k v m))"
proof (induction k v m rule: tree_put.induct)
  case (2 k v j w m)
  have "x \<in> fst ` set (tree_put k v m) \<Longrightarrow> x = k \<or> x \<in> fst ` set m" for x
    by (simp add: keys_tree_put)
  with 2 show ?case by fastforce
qed simp

lemma sorted_filter_fst: "sorted_wrt (<) (map fst m) \<Longrightarrow> sorted_wrt (<) (map fst (filter P m))"
  by (induction m) auto

lemma tree_at_most_greatest:
  assumes "sorted_wrt (<) (map fst m)" "(j, v) \<in> set m" "j \<le> k" "\<forall>e \<in> set m. fst e \<le> k \<longrightarrow> fst e \<le> j"
  shows "tree_at_most k m = Some (j, v)"
proof -
  let ?low = "filter (\<lambda>e. fst e \<le> k) m"
  have mem: "(j, v) \<in> set ?low" using assms(2,3) by simp
  have ne: "?low \<noteq> []" using mem by (metis length_pos_if_in_set length_0_conv less_numeral_extra(3))
  have s: "sorted_wrt (<) (map fst ?low)" by (rule sorted_filter_fst [OF assms(1)])
  obtain xs e where x: "?low = xs @ [e]" using ne by (metis rev_exhaust)
  have "fst e \<le> j" using assms(4) x by (metis (no_types, lifting) in_set_conv_decomp mem_Collect_eq set_filter)
  moreover have "(j, v) = e \<or> j < fst e" using mem s unfolding x by (auto simp: sorted_wrt_append)
  ultimately have "e = (j, v)" by auto
  then show ?thesis using ne x by (simp add: tree_at_most_def)
qed

section \<open>Spans\<close>

definition u64_max :: nat where "u64_max = 2 ^ 64 - 1"

definition SPAN_BYTES :: nat where "SPAN_BYTES = 80"
definition FREE_SPANS :: nat where "FREE_SPANS = 256"

record spans =
  sp_next :: nat
  sp_by_id :: "(nat \<times> nat) list"
  sp_order :: "(nat \<times> nat) list"

definition spans_new :: spans where
  "spans_new = \<lparr>sp_next = u64_max, sp_by_id = [], sp_order = []\<rparr>"

definition went_on :: "nat \<Rightarrow> spans \<Rightarrow> bool \<times> spans" where
  "went_on i s = (i \<noteq> sp_next s, s\<lparr>sp_next := (i + 1) mod 2 ^ 64\<rparr>)"

fun spans_go :: "nat \<Rightarrow> (nat \<times> nat) list \<Rightarrow> (nat \<times> nat) list \<Rightarrow> (nat \<times> nat) list \<times> (nat \<times> nat) list" where
  "spans_go first (a # b # os) m =
     (if fst b \<le> first then spans_go first (b # os) (tree_del (snd a) m) else (a # b # os, m))"
| "spans_go first os m = (os, m)"

definition span_begin :: "nat \<Rightarrow> nat \<Rightarrow> nat \<Rightarrow> spans \<Rightarrow> spans" where
  "span_begin i number first s =
     (let (os, m) = spans_go first (sp_order s) (sp_by_id s)
      in s\<lparr>sp_by_id := tree_put i number m, sp_order := os @ [(number, i)]\<rparr>)"

definition span_pop :: "nat \<Rightarrow> spans \<Rightarrow> spans" where
  "span_pop number s =
     (let s1 = (if sp_order s \<noteq> [] \<and> fst (last (sp_order s)) = number
                then s\<lparr>sp_order := butlast (sp_order s), sp_by_id := tree_del (snd (last (sp_order s))) (sp_by_id s)\<rparr>
                else s)
      in s1\<lparr>sp_next := u64_max\<rparr>)"

definition spans_len :: "spans \<Rightarrow> nat" where
  "spans_len s = length (sp_by_id s)"

definition spans_charged :: "spans \<Rightarrow> nat" where
  "spans_charged s = (spans_len s - FREE_SPANS) * SPAN_BYTES"

definition number_of :: "nat \<Rightarrow> spans \<Rightarrow> nat option" where
  "number_of i s =
     (case tree_at_most i (sp_by_id s) of
        None \<Rightarrow> None
      | Some (start, number) \<Rightarrow>
          if start \<le> i \<and> number + (i - start) \<le> u64_max then Some (number + (i - start)) else None)"

text \<open>A row arrives: history's \<open>went_on\<close> and, where it begins a span, \<open>begin\<close>.\<close>

definition span_arrive :: "nat \<Rightarrow> nat \<Rightarrow> nat \<Rightarrow> spans \<Rightarrow> spans" where
  "span_arrive i number first s =
     (let (begins, s1) = went_on i s in if begins then span_begin i number first s1 else s1)"

section \<open>What the spans are of\<close>

text \<open>Runs of identities: the number and the identity of each one's first row, and its length.\<close>

type_synonym id_run = "nat \<times> nat \<times> nat"

fun runs_ok :: "nat \<Rightarrow> id_run list \<Rightarrow> bool" where
  "runs_ok b [] = True"
| "runs_ok b ((n, i, l) # rs) = (n = b \<and> 0 < l \<and> runs_ok (b + l) rs)"

definition ids_of :: "id_run list \<Rightarrow> nat list" where
  "ids_of rs = concat (map (\<lambda>(n, i, l). [i..<i + l]) rs)"

definition spans_of :: "nat \<Rightarrow> id_run list \<Rightarrow> spans \<Rightarrow> bool" where
  "spans_of base rs s \<longleftrightarrow>
     sp_order s = map (\<lambda>(n, i, l). (n, i)) rs \<and> runs_ok base rs \<and> distinct (ids_of rs) \<and>
     (\<forall>i \<in> set (ids_of rs). i < u64_max) \<and> base + length (ids_of rs) \<le> u64_max \<and>
     sorted_wrt (<) (map fst (sp_by_id s)) \<and> set (sp_by_id s) = (\<lambda>(n, i, l). (i, n)) ` set rs \<and>
     (sp_next s = u64_max \<or> rs \<noteq> [] \<and> (case last rs of (n, i, l) \<Rightarrow> sp_next s = i + l))"

text \<open>
  The spans find the rows of history, \<open>ids\<close>, after \<open>old\<close> were let go: each
  row's number is how many came before it and stayed or were let go.  The
  spans of rows that have gone may be kept.
\<close>

definition spans_ok :: "nat list \<Rightarrow> nat list \<Rightarrow> spans \<Rightarrow> bool" where
  "spans_ok old ids s \<longleftrightarrow>
     (\<exists>base rs. spans_of base rs s \<and> base \<le> length old \<and> ids_of rs = drop base (old @ ids))"

lemma ids_of_simps [simp]:
  "ids_of [] = []" "ids_of ((n, i, l) # rs) = [i..<i + l] @ ids_of rs" "ids_of (a @ b) = ids_of a @ ids_of b"
  by (simp_all add: ids_of_def)

lemma ids_of_mem: "x \<in> set (ids_of rs) \<longleftrightarrow> (\<exists>n i l. (n, i, l) \<in> set rs \<and> i \<le> x \<and> x < i + l)"
  by (fastforce simp: ids_of_def)

lemma runs_ok_append: "runs_ok b (xs @ ys) \<longleftrightarrow> runs_ok b xs \<and> runs_ok (b + length (ids_of xs)) ys"
  by (induction b xs rule: runs_ok.induct) (auto simp: add.assoc)

lemma run_unique:
  "distinct (ids_of rs) \<Longrightarrow> (n, i, l) \<in> set rs \<Longrightarrow> (n', i', l') \<in> set rs \<Longrightarrow> i \<le> x \<Longrightarrow> x < i + l \<Longrightarrow>
     i' \<le> x \<Longrightarrow> x < i' + l' \<Longrightarrow> (n, i, l) = (n', i', l')"
proof (induction rs)
  case (Cons r rs)
  obtain a b c where r: "r = (a, b, c)" by (cases r)
  have d: "distinct (ids_of rs)" "set [b..<b + c] \<inter> set (ids_of rs) = {}" using Cons.prems(1) by (auto simp: r)
  have "x \<in> set (ids_of rs)" if "(n, i, l) \<in> set rs \<or> (n', i', l') \<in> set rs"
    using that Cons.prems(4-7) by (auto simp: ids_of_mem)
  then show ?case using Cons.prems(2-7) d Cons.IH by (auto simp: r)
qed simp

lemma run_at:
  "runs_ok b rs \<Longrightarrow> p < length (ids_of rs) \<Longrightarrow>
     \<exists>n i l. (n, i, l) \<in> set rs \<and> i \<le> ids_of rs ! p \<and> ids_of rs ! p < i + l \<and> b + p = n + (ids_of rs ! p - i)"
proof (induction b rs arbitrary: p rule: runs_ok.induct)
  case (2 b n i l rs)
  show ?case
  proof (cases "p < l")
    case True
    then show ?thesis using "2.prems" by (intro exI [of _ n] exI [of _ i] exI [of _ l]) (simp add: nth_append)
  next
    case False
    then have q: "ids_of ((n, i, l) # rs) ! p = ids_of rs ! (p - l)" by (simp add: nth_append)
    have "p - l < length (ids_of rs)" "runs_ok (b + l) rs" using "2.prems" False by auto
    then obtain n' i' l' where "(n', i', l') \<in> set rs" "i' \<le> ids_of rs ! (p - l)" "ids_of rs ! (p - l) < i' + l'"
      "b + l + (p - l) = n' + (ids_of rs ! (p - l) - i')" using "2.IH" by blast
    then show ?thesis unfolding q using False by (intro exI [of _ n'] exI [of _ i'] exI [of _ l']) simp
  qed
qed simp

text \<open>Each row is found where it is.\<close>

lemma spans_of_find:
  assumes "spans_of base rs s" "p < length (ids_of rs)"
  shows "number_of (ids_of rs ! p) s = Some (base + p)"
proof -
  let ?x = "ids_of rs ! p"
  have s: "runs_ok base rs" "distinct (ids_of rs)" "sorted_wrt (<) (map fst (sp_by_id s))"
    "set (sp_by_id s) = (\<lambda>(n, i, l). (i, n)) ` set rs" "base + length (ids_of rs) \<le> u64_max"
    using assms(1) by (auto simp: spans_of_def)
  obtain n i l where r: "(n, i, l) \<in> set rs" "i \<le> ?x" "?x < i + l" "base + p = n + (?x - i)"
    using run_at [OF s(1) assms(2)] by blast
  have "\<forall>e \<in> set (sp_by_id s). fst e \<le> ?x \<longrightarrow> fst e \<le> i"
  proof (intro ballI impI)
    fix e
    assume e: "e \<in> set (sp_by_id s)" "fst e \<le> ?x"
    then obtain n' l' where e': "(n', fst e, l') \<in> set rs" unfolding s(4) by force
    show "fst e \<le> i"
    proof (rule ccontr)
      assume "\<not> fst e \<le> i"
      moreover have "0 < l'" using s(1) e' by (induction base rs rule: runs_ok.induct) auto
      ultimately have "(n, i, l) = (n', fst e, l')"
        using run_unique [OF s(2) r(1) e', of "fst e"] e(2) r(3) by simp
      then show False using \<open>\<not> fst e \<le> i\<close> by simp
    qed
  qed
  then have "tree_at_most ?x (sp_by_id s) = Some (i, n)"
    using s(3,4) r(1,2) by (intro tree_at_most_greatest) force+
  then show ?thesis using r(2,4) assms(2) s(5) by (simp add: number_of_def)
qed

lemma spans_ok_find:
  assumes "spans_ok old ids s" "k < length ids"
  shows "number_of (ids ! k) s = Some (length old + k)"
proof -
  obtain base rs where o: "spans_of base rs s" "base \<le> length old" "ids_of rs = drop base (old @ ids)"
    using assms(1) by (auto simp: spans_ok_def)
  have "ids_of rs ! (length old - base + k) = ids ! k" using o(2) assms(2) unfolding o(3)
    by (simp del: drop_append add: nth_append_length_plus)
  moreover have "length old - base + k < length (ids_of rs)" using o(2) assms(2) unfolding o(3) by simp
  ultimately show ?thesis using spans_of_find [OF o(1)] o(2) by fastforce
qed

lemma run_of_ids: "runs_ok b rs \<Longrightarrow> (n, i, l) \<in> set rs \<Longrightarrow> 0 < l \<and> i \<in> set (ids_of rs)"
  by (induction b rs rule: runs_ok.induct) auto

lemma set_tree_del: "set (tree_del k m) = {e \<in> set m. fst e \<noteq> k}"
  by (auto simp: tree_del_def)

lemma del_key: "(\<And>e. e \<in> A \<Longrightarrow> fst e \<noteq> k) \<Longrightarrow> set m = insert (k, v) A \<Longrightarrow> set (tree_del k m) = A"
  by (auto simp: set_tree_del)

lemma sorted_tree_del: "sorted_wrt (<) (map fst m) \<Longrightarrow> sorted_wrt (<) (map fst (tree_del k m))"
  by (simp add: tree_del_def sorted_filter_fst)

section \<open>Every change keeps them\<close>

text \<open>The spans let go are the oldest, whose rows have all gone.\<close>

lemma spans_go_prunes:
  assumes "runs_ok base rs" "distinct (ids_of rs)" "base \<le> first" "sorted_wrt (<) (map fst m)"
    "set m = (\<lambda>(n, i, l). (i, n)) ` set rs" "spans_go first (map (\<lambda>(n, i, l). (n, i)) rs) m = (os, m1)"
  shows "\<exists>old rest. rs = old @ rest \<and> os = map (\<lambda>(n, i, l). (n, i)) rest \<and> base + length (ids_of old) \<le> first \<and>
     sorted_wrt (<) (map fst m1) \<and> set m1 = (\<lambda>(n, i, l). (i, n)) ` set rest \<and> (rs \<noteq> [] \<longrightarrow> rest \<noteq> [])"
  using assms
proof (induction rs arbitrary: base m)
  case (Cons r rs)
  obtain n i l where r: "r = (n, i, l)" by (cases r)
  show ?case
  proof (cases "rs \<noteq> [] \<and> fst (hd rs) \<le> first")
    case False
    then have "os = map (\<lambda>(n, i, l). (n, i)) (r # rs) \<and> m1 = m"
      using Cons.prems(6) by (cases rs) (auto split: prod.splits)
    then show ?thesis using Cons.prems(3-5) by (intro exI [of _ "[]"] exI [of _ "r # rs"]) simp
  next
    case True
    then obtain n2 i2 l2 qs where q: "rs = (n2, i2, l2) # qs" by (cases rs) auto
    have b: "n2 = base + l" "n = base" "0 < l" "runs_ok (base + l) rs" using Cons.prems(1) q r by auto
    have d: "distinct (ids_of rs)" "set [i..<i + l] \<inter> set (ids_of rs) = {}"
      using Cons.prems(2) unfolding r ids_of_simps(2) distinct_append by simp_all
    have "i \<in> set [i..<i + l]" using b(3) by simp
    then have away: "i \<notin> set (ids_of rs)" using d(2) by blast
    have ne: "fst e \<noteq> i" if "e \<in> (\<lambda>(n, i, l). (i, n)) ` set rs" for e
    proof -
      have "fst e \<in> set (ids_of rs)" using that run_of_ids [OF b(4)] by auto
      then show ?thesis using away by blast
    qed
    have m: "set (tree_del i m) = (\<lambda>(n, i, l). (i, n)) ` set rs"
      by (rule del_key [where v = n, OF ne]) (auto simp: Cons.prems(5) r)
    have go: "spans_go first (map (\<lambda>(n, i, l). (n, i)) rs) (tree_del i m) = (os, m1)"
      using Cons.prems(6) True q r by simp
    have "base + l \<le> first" using True b(1) q by simp
    from Cons.IH [OF b(4) d(1) this sorted_tree_del [OF Cons.prems(4)] m go]
    obtain old rest where o: "rs = old @ rest" "os = map (\<lambda>(n, i, l). (n, i)) rest"
      "base + l + length (ids_of old) \<le> first" "sorted_wrt (<) (map fst m1)"
      "set m1 = (\<lambda>(n, i, l). (i, n)) ` set rest" "rs \<noteq> [] \<longrightarrow> rest \<noteq> []"
      by (elim exE conjE)
    then have "r # rs = (r # old) @ rest \<and> base + length (ids_of (r # old)) \<le> first \<and> rest \<noteq> []"
      using r mp [OF o(6)] q by fastforce
    then show ?thesis using o(2,4,5) by blast
  qed
qed simp

lemma spans_okI:
  "spans_of base rs s \<Longrightarrow> base \<le> length old \<Longrightarrow> ids_of rs = drop base (old @ ids) \<Longrightarrow> spans_ok old ids s"
  unfolding spans_ok_def by blast

lemma spans_new_ok: "spans_ok [] [] spans_new"
  by (rule spans_okI [of 0 "[]"]) (simp_all add: spans_of_def spans_new_def u64_max_def)

lemma spans_let_go: "spans_ok old (i # ids) s \<Longrightarrow> spans_ok (old @ [i]) ids s"
  by (simp del: drop_append add: spans_ok_def) (metis le_SucI)

text \<open>A row that begins a span.\<close>

lemma spans_of_begin:
  assumes s: "spans_of base rs s" and b: "base \<le> first" and n: "number = base + length (ids_of rs)"
    and i: "i \<notin> set (ids_of rs)" "i < u64_max" "number < u64_max"
  shows "\<exists>old rest. rs = old @ rest \<and> base + length (ids_of old) \<le> first \<and>
     spans_of (base + length (ids_of old)) (rest @ [(number, i, 1)]) (span_begin i number first (s\<lparr>sp_next := i + 1\<rparr>))"
proof -
  obtain os m1 where go: "spans_go first (sp_order s) (sp_by_id s) = (os, m1)" by fastforce
  have p: "runs_ok base rs" "distinct (ids_of rs)" "sorted_wrt (<) (map fst (sp_by_id s))"
    "set (sp_by_id s) = (\<lambda>(n, i, l). (i, n)) ` set rs" "sp_order s = map (\<lambda>(n, i, l). (n, i)) rs"
    "\<forall>i \<in> set (ids_of rs). i < u64_max" using s by (auto simp: spans_of_def)
  from spans_go_prunes [OF p(1,2) b p(3,4) go [unfolded p(5)]]
  obtain old rest where o: "rs = old @ rest" "os = map (\<lambda>(n, i, l). (n, i)) rest"
    "base + length (ids_of old) \<le> first" "sorted_wrt (<) (map fst m1)" "set m1 = (\<lambda>(n, i, l). (i, n)) ` set rest"
    by blast
  have away: "i \<notin> fst ` set m1"
    using run_of_ids [OF p(1)] i(1) unfolding o(1,5) by force
  have "sorted_wrt (<) (map fst (tree_put i number m1))" by (rule sorted_tree_put [OF o(4)])
  moreover have "set (tree_put i number m1) = (\<lambda>(n, i, l). (i, n)) ` set (rest @ [(number, i, 1)])"
    unfolding set_tree_put [OF away] o(5) by simp
  moreover have "runs_ok (base + length (ids_of old)) (rest @ [(number, i, 1)])"
    using p(1) n unfolding o(1) runs_ok_append by simp
  ultimately have "spans_of (base + length (ids_of old)) (rest @ [(number, i, 1)])
      (span_begin i number first (s\<lparr>sp_next := i + 1\<rparr>))"
    using p(2,6) n i go o(2) unfolding o(1) by (simp add: spans_of_def span_begin_def)
  with o(1,3) show ?thesis by blast
qed

lemma spans_arrive_ok:
  assumes ok: "spans_ok old ids s" and i: "i \<notin> set (old @ ids)" "i < u64_max"
    and n: "length (old @ ids) < u64_max"
  shows "spans_ok old (ids @ [i]) (span_arrive i (length (old @ ids)) (length old) s)"
proof -
  obtain base rs where o: "spans_of base rs s" "base \<le> length old" "ids_of rs = drop base (old @ ids)"
    using ok by (auto simp: spans_ok_def)
  have num: "length (old @ ids) = base + length (ids_of rs)" using o(2) unfolding o(3) by simp
  have away: "i \<notin> set (ids_of rs)" using i(1) unfolding o(3) by (meson in_set_dropD)
  have go: "(i + 1) mod 2 ^ 64 = i + 1" using i(2) by (simp add: u64_max_def)
  have dr: "drop base (old @ ids @ [i]) = ids_of rs @ [i]" using o(2) unfolding o(3) by simp
  show ?thesis
  proof (cases "i = sp_next s")
    case False
    obtain gone rest where r: "rs = gone @ rest" "base + length (ids_of gone) \<le> length old"
      "spans_of (base + length (ids_of gone)) (rest @ [(length (old @ ids), i, 1)])
         (span_begin i (length (old @ ids)) (length old) (s\<lparr>sp_next := i + 1\<rparr>))"
      using spans_of_begin [OF o(1,2) num away i(2) n] by blast
    have e: "ids_of (rest @ [(length (old @ ids), i, 1)]) = ids_of rest @ [i]" by simp
    have "drop (base + length (ids_of gone)) (old @ ids @ [i]) = drop (length (ids_of gone)) (ids_of rs @ [i])"
      unfolding dr [symmetric] drop_drop by (simp only: add.commute)
    then have "ids_of (rest @ [(length (old @ ids), i, 1)]) = drop (base + length (ids_of gone)) (old @ ids @ [i])"
      unfolding e r(1) by simp
    from spans_okI [OF r(3,2) this] show ?thesis using False go by (simp add: span_arrive_def went_on_def)
  next
    case True
    then obtain qs n0 i0 l0 where r: "rs = qs @ [(n0, i0, l0)]" "i = i0 + l0"
      using o(1) i(2) by (cases rs rule: rev_cases) (auto simp: spans_of_def)
    have "spans_of base (qs @ [(n0, i0, Suc l0)]) (s\<lparr>sp_next := i + 1\<rparr>)"
      using o(1) away i(2) num n unfolding r by (auto simp: spans_of_def runs_ok_append)
    moreover have "ids_of (qs @ [(n0, i0, Suc l0)]) = drop base (old @ ids @ [i])"
      unfolding dr r(1) using r(2) by simp
    ultimately have "spans_ok old (ids @ [i]) (s\<lparr>sp_next := i + 1\<rparr>)" by (rule spans_okI [OF _ o(2)])
    then show ?thesis using True go by (simp add: span_arrive_def went_on_def)
  qed
qed

text \<open>The newest row goes: off its span, or with the span it began.\<close>

lemma spans_pop_ok:
  assumes ok: "spans_ok old (ids @ [i]) s"
  shows "spans_ok old ids (span_pop (length (old @ ids)) s)"
proof -
  obtain base rs where o: "spans_of base rs s" "base \<le> length old" "ids_of rs = drop base (old @ ids @ [i])"
    using ok by (auto simp: spans_ok_def)
  have dr: "ids_of rs = drop base (old @ ids) @ [i]" using o(2) unfolding o(3) by simp
  then obtain qs n0 i0 l0 where r: "rs = qs @ [(n0, i0, l0)]" by (cases rs rule: rev_cases) auto
  have p: "runs_ok base (qs @ [(n0, i0, l0)])" "distinct (ids_of (qs @ [(n0, i0, l0)]))" using o(1) by (auto simp: spans_of_def r)
  have l: "0 < l0" "n0 = base + length (ids_of qs)" using p(1) by (auto simp: runs_ok_append)
  have len: "length (old @ ids) = base + length (ids_of qs) + (l0 - 1)"
    using arg_cong [OF dr, of length] o(2) l(1) unfolding r by simp
  show ?thesis
  proof (cases "l0 = 1")
    case True
    have q: "ids_of qs = drop base (old @ ids)" using dr unfolding r True by simp
    have away: "fst e \<noteq> i0" if "e \<in> (\<lambda>(n, i, l). (i, n)) ` set qs" for e
    proof -
      have "fst e \<in> set (ids_of qs)" using that run_of_ids p(1) unfolding runs_ok_append by fastforce
      then show ?thesis using p(2) True by auto
    qed
    have "set (tree_del i0 (sp_by_id s)) = (\<lambda>(n, i, l). (i, n)) ` set qs"
      by (rule del_key [where v = n0, OF away]) (use o(1) in \<open>auto simp: spans_of_def r\<close>)
    then have "spans_of base qs (span_pop (length (old @ ids)) s)"
      using o(1) len l(2) True unfolding r
      by (simp add: spans_of_def span_pop_def runs_ok_append sorted_tree_del butlast_append)
    then show ?thesis by (rule spans_okI [OF _ o(2) q])
  next
    case False
    have "ids_of (qs @ [(n0, i0, l0 - 1)]) = butlast (ids_of rs)"
      using l(1) unfolding r by (cases l0) (simp_all add: butlast_append)
    then have q: "ids_of (qs @ [(n0, i0, l0 - 1)]) = drop base (old @ ids)"
      unfolding dr by (simp only: butlast_snoc)
    have "spans_of base (qs @ [(n0, i0, l0 - 1)]) (span_pop (length (old @ ids)) s)"
      using o(1) len l False unfolding r
      by (auto simp: spans_of_def span_pop_def runs_ok_append disjoint_iff)
    then show ?thesis by (rule spans_okI [OF _ o(2) q])
  qed
qed

section \<open>A history of rows\<close>

text \<open>
  What happens to the rows: one arrives, the oldest is let go, the newest is
  taken back.  The record of what was let go, and of what is kept, is beside
  the spans.
\<close>

datatype span_op = Row_In nat | Oldest_Out | Newest_Back

fun spans_step :: "span_op \<Rightarrow> nat list \<times> nat list \<times> spans \<Rightarrow> nat list \<times> nat list \<times> spans" where
  "spans_step (Row_In i) (old, ids, s) = (old, ids @ [i], span_arrive i (length old + length ids) (length old) s)"
| "spans_step Oldest_Out (old, ids, s) = (case ids of [] \<Rightarrow> (old, ids, s) | i # rest \<Rightarrow> (old @ [i], rest, s))"
| "spans_step Newest_Back (old, ids, s) =
     (if ids = [] then (old, ids, s) else (old, butlast ids, span_pop (length old + (length ids - 1)) s))"

text \<open>An identity comes again only once its row was taken back, and none is the last of the numbers.\<close>

fun spans_may :: "span_op \<Rightarrow> nat list \<times> nat list \<times> spans \<Rightarrow> bool" where
  "spans_may (Row_In i) (old, ids, s) = (i \<notin> set (old @ ids) \<and> i < u64_max \<and> length old + length ids < u64_max)"
| "spans_may a st = True"

fun spans_run :: "span_op list \<Rightarrow> nat list \<times> nat list \<times> spans \<Rightarrow> nat list \<times> nat list \<times> spans" where
  "spans_run [] st = st"
| "spans_run (a # as) st = spans_run as (spans_step a st)"

fun spans_all_may :: "span_op list \<Rightarrow> nat list \<times> nat list \<times> spans \<Rightarrow> bool" where
  "spans_all_may [] st = True"
| "spans_all_may (a # as) st = (spans_may a st \<and> spans_all_may as (spans_step a st))"

lemma spans_step_ok:
  "spans_ok old ids s \<Longrightarrow> spans_may a (old, ids, s) \<Longrightarrow> spans_step a (old, ids, s) = (old1, ids1, s1) \<Longrightarrow>
     spans_ok old1 ids1 s1"
proof (cases a)
  case (Row_In i)
  assume "spans_ok old ids s" "spans_may a (old, ids, s)" "spans_step a (old, ids, s) = (old1, ids1, s1)"
  then show ?thesis using Row_In spans_arrive_ok [of old ids s i] by auto
next
  case Oldest_Out
  assume "spans_ok old ids s" "spans_step a (old, ids, s) = (old1, ids1, s1)"
  then show ?thesis using Oldest_Out by (auto split: list.splits intro: spans_let_go)
next
  case Newest_Back
  assume "spans_ok old ids s" "spans_step a (old, ids, s) = (old1, ids1, s1)"
  then show ?thesis using Newest_Back spans_pop_ok [of old "butlast ids" "last ids" s]
    by (auto split: if_splits)
qed

lemma spans_run_ok:
  "spans_ok old ids s \<Longrightarrow> spans_all_may as (old, ids, s) \<Longrightarrow> spans_run as (old, ids, s) = (old1, ids1, s1) \<Longrightarrow>
     spans_ok old1 ids1 s1"
proof (induction as arbitrary: old ids s)
  case (Cons a as)
  obtain o2 i2 s2 where "spans_step a (old, ids, s) = (o2, i2, s2)" by (cases "spans_step a (old, ids, s)")
  then show ?case using Cons spans_step_ok by (metis spans_all_may.simps(2) spans_run.simps(2))
qed simp

text \<open>
  C40: whatever rows come, are let go and are taken back, each row of history
  is found by its identity at the number it came with.
\<close>

theorem rows_found_by_identity:
  assumes "spans_all_may as ([], [], spans_new)" "spans_run as ([], [], spans_new) = (old, ids, s)" "k < length ids"
  shows "number_of (ids ! k) s = Some (length old + k)"
  using spans_ok_find [OF spans_run_ok [OF spans_new_ok assms(1,2)] assms(3)] .

definition span_case :: "span_op list" where
  "span_case = [Row_In 5, Row_In 6, Row_In 2, Row_In 3, Newest_Back, Oldest_Out, Row_In 3, Row_In 4, Oldest_Out, Row_In 9]"

theorem rows_found_by_identity_witness:
  "number_of 3 (snd (snd (spans_run span_case ([], [], spans_new)))) = Some 3"
proof -
  have "spans_run span_case ([], [], spans_new) =
      ([5, 6], [2, 3, 4, 9], snd (snd (spans_run span_case ([], [], spans_new))))"
    by (simp add: span_case_def)
  from rows_found_by_identity [OF _ this, of 1] show ?thesis
    by (simp add: span_case_def u64_max_def)
qed

end
