(* ===== verification/Wire_Base.thy ===== *)
theory Wire_Base
  imports Rust_Text
begin

text \<open>
  The wire (\<open>fux-wire/src/wire.rs\<close>): what a value is put as and how it is read
  back.  A \<open>Reader\<close> is a function of the bytes left; \<open>reads\<close> and \<open>give\<close> are the
  \<open>?\<close> and the \<open>Ok\<close> of its methods.  The interface is \<open>codec\<close>: what is put is
  read back whatever follows it, what is read is a value its type can have,
  and reading takes a byte at least and never looks past what it takes.  Every
  type on the wire is shown to keep it, here the ones of \<open>std\<close>, numbers first.
\<close>

section \<open>Readers\<close>

datatype werror =
    Truncated
  | Bad_Tag string nat
  | Not_Utf8
  | Bad_Value string
  | Trailing

type_synonym 'a reader = "byte list \<Rightarrow> werror + 'a \<times> byte list"

definition give :: "'a \<Rightarrow> 'a reader" where
  "give x bs = Inr (x, bs)"

definition refuse :: "werror \<Rightarrow> 'a reader" where
  "refuse e bs = Inl e"

definition reads :: "'a reader \<Rightarrow> ('a \<Rightarrow> 'b reader) \<Rightarrow> 'b reader" where
  "reads r f bs = (case r bs of Inl e \<Rightarrow> Inl e | Inr (x, rest) \<Rightarrow> f x rest)"

text \<open>\<open>Reader::take\<close> and \<open>Reader::bytes\<close>.\<close>

definition take_bytes :: "nat \<Rightarrow> byte list reader" where
  "take_bytes n bs = (if n \<le> length bs then Inr (take n bs, drop n bs) else Inl Truncated)"

text \<open>\<open>Reader::whole\<close>.\<close>

definition whole :: "'a reader \<Rightarrow> byte list \<Rightarrow> werror + 'a" where
  "whole r bs =
     (case r bs of
        Inl e \<Rightarrow> Inl e
      | Inr (x, rest) \<Rightarrow> if rest = [] then Inr x else Inl Trailing)"

subsection \<open>What a reader keeps to\<close>

text \<open>
  A steady reader gives values of its type, leaves a rest of the bytes, and
  does the same whatever follows them; one that takes has used a byte.
\<close>

definition steady :: "'a reader \<Rightarrow> ('a \<Rightarrow> bool) \<Rightarrow> bool" where
  "steady r P \<longleftrightarrow> (\<forall>bs x rest. r bs = Inr (x, rest) \<longrightarrow>
     P x \<and> (\<exists>used. bs = used @ rest) \<and> (\<forall>after. r (bs @ after) = Inr (x, rest @ after)))"

definition takes :: "'a reader \<Rightarrow> ('a \<Rightarrow> bool) \<Rightarrow> bool" where
  "takes r P \<longleftrightarrow> steady r P \<and> (\<forall>bs x rest. r bs = Inr (x, rest) \<longrightarrow> length rest < length bs)"

lemma steadyI:
  "(\<And>bs x rest. r bs = Inr (x, rest) \<Longrightarrow> P x \<and> (\<exists>used. bs = used @ rest)) \<Longrightarrow>
   (\<And>bs x rest after. r bs = Inr (x, rest) \<Longrightarrow> r (bs @ after) = Inr (x, rest @ after)) \<Longrightarrow> steady r P"
  unfolding steady_def by blast

lemma steadyD:
  assumes "steady r P" "r bs = Inr (x, rest)"
  shows "P x" "\<exists>used. bs = used @ rest" "r (bs @ after) = Inr (x, rest @ after)"
  using assms unfolding steady_def by blast+

lemma steady_rest: "steady r P \<Longrightarrow> r bs = Inr (x, rest) \<Longrightarrow> length rest \<le> length bs"
  by (drule steadyD(2) [of r P bs x rest], assumption) auto

lemma takes_steady: "takes r P \<Longrightarrow> steady r P"
  by (simp add: takes_def)

lemma steady_give [codec_intros]: "P x \<Longrightarrow> steady (give x) P"
  by (simp add: steady_def give_def)

lemma steady_refuse [codec_intros]: "steady (refuse e) P"
  by (simp add: steady_def refuse_def)

lemma reads_Inr_iff: "reads r f bs = Inr y \<longleftrightarrow> (\<exists>x mid. r bs = Inr (x, mid) \<and> f x mid = Inr y)"
  by (auto simp: reads_def split: sum.splits)

lemma reads_Inr: "r bs = Inr (x, mid) \<Longrightarrow> reads r f bs = f x mid"
  by (simp add: reads_def)

lemma steady_reads [codec_intros]:
  assumes r: "steady r P" and f: "\<And>x. P x \<Longrightarrow> steady (f x) Q"
  shows "steady (reads r f) Q"
proof (rule steadyI)
  fix bs x rest
  assume "reads r f bs = Inr (x, rest)"
  then obtain y mid where y: "r bs = Inr (y, mid)" "f y mid = Inr (x, rest)" by (auto simp: reads_Inr_iff)
  note fy = f [OF steadyD(1) [OF r y(1)]]
  from steadyD(2) [OF r y(1)] steadyD(2) [OF fy y(2)] obtain u v where uv: "bs = u @ mid" "mid = v @ rest"
    by blast
  show "Q x \<and> (\<exists>used. bs = used @ rest)" using steadyD(1) [OF fy y(2)] uv by simp
  fix after
  show "reads r f (bs @ after) = Inr (x, rest @ after)"
    using steadyD(3) [OF r y(1)] steadyD(3) [OF fy y(2)] by (simp add: reads_Inr_iff)
qed

lemma takes_reads [codec_intros]:
  assumes r: "takes r P" and f: "\<And>x. P x \<Longrightarrow> steady (f x) Q"
  shows "takes (reads r f) Q"
proof -
  have s: "steady r P" using r by (simp add: takes_def)
  have "length rest < length bs" if read: "reads r f bs = Inr (x, rest)" for bs x rest
  proof -
    obtain y mid where y: "r bs = Inr (y, mid)" "f y mid = Inr (x, rest)"
      using read by (auto simp: reads_Inr_iff)
    have "length rest \<le> length mid" by (rule steady_rest [OF f [OF steadyD(1) [OF s y(1)]] y(2)])
    moreover have "length mid < length bs" using r y(1) by (simp add: takes_def)
    ultimately show ?thesis by simp
  qed
  then show ?thesis using steady_reads [OF s f] by (simp add: takes_def)
qed

lemma steady_if [codec_intros]:
  "(b \<Longrightarrow> steady r P) \<Longrightarrow> (\<not> b \<Longrightarrow> steady s P) \<Longrightarrow> steady (if b then r else s) P"
  by simp

lemma steady_take_bytes: "steady (take_bytes n) (\<lambda>bs. length bs = n)"
proof (rule steadyI)
  fix bs x rest
  assume "take_bytes n bs = Inr (x, rest)"
  then have *: "n \<le> length bs" "x = take n bs" "rest = drop n bs" by (auto simp: take_bytes_def split: if_splits)
  show "length x = n \<and> (\<exists>used. bs = used @ rest)" using * by (auto intro: exI [of _ "take n bs"])
  show "take_bytes n (bs @ after) = Inr (x, rest @ after)" for after using * by (simp add: take_bytes_def)
qed

section \<open>The interface\<close>

text \<open>
  What reading back takes: each codec's law as it is interpreted, and how the
  readers compose.
\<close>

named_theorems codec_simps

lemmas [codec_simps] = reads_def give_def refuse_def

locale codec =
  fixes put :: "'a \<Rightarrow> byte list" and get :: "'a reader" and ok :: "'a \<Rightarrow> bool"
  assumes reads_back: "ok x \<Longrightarrow> get (put x @ rest) = Inr (x, rest)"
    and takes: "takes get ok"
begin

lemma steady: "steady get ok"
  by (rule takes_steady [OF takes])

lemmas [codec_simps] = reads_back
lemmas [codec_intros] = takes steady

lemma get_ok: "get bs = Inr (x, rest) \<Longrightarrow> ok x"
  by (rule steadyD(1) [OF steady])

lemma whole_put: "ok x \<Longrightarrow> whole get (put x) = Inr x"
  using reads_back [of x "[]"] by (simp add: whole_def)

lemma whole_ok: "whole get bs = Inr x \<Longrightarrow> ok x"
  by (auto simp: whole_def dest: get_ok split: sum.splits if_splits)

lemma put_nonempty: "ok x \<Longrightarrow> put x \<noteq> []"
  using takes reads_back [of x "[]"] unfolding takes_def by (metis append_Nil less_irrefl list.size(3))

text \<open>No value's bytes begin another's, so bytes say one value.\<close>

lemma prefix_free: "ok x \<Longrightarrow> ok y \<Longrightarrow> put x @ r = put y @ s \<Longrightarrow> x = y \<and> r = s"
  by (metis reads_back Inr_inject Pair_inject)

lemma put_inj: "ok x \<Longrightarrow> ok y \<Longrightarrow> put x = put y \<longleftrightarrow> x = y"
  using prefix_free [of x y "[]" "[]"] by auto

text \<open>Bytes cut short are never taken for a value.\<close>

lemma cut_short:
  assumes "ok x" "put x = front @ lost" "lost \<noteq> []"
  shows "\<exists>e. get front = Inl e"
proof (cases "get front")
  case (Inr yr)
  obtain y rest where y: "get front = Inr (y, rest)" using Inr by (cases yr) auto
  then have "get (front @ lost) = Inr (y, rest @ lost)" by (rule steadyD(3) [OF steady])
  then show ?thesis using reads_back [OF assms(1), of "[]"] assms(2,3) by simp
qed simp

end


text \<open>
  A codec whose every value has one encoding: what is read is what is put.
  Numbers and what is made of them alone are such; a length, and so a text
  or a list, is not (\<open>length_long_form\<close>).
\<close>

locale exact_codec = codec +
  assumes exact: "get bs = Inr (x, rest) \<Longrightarrow> bs = put x @ rest"
begin

lemma one_encoding: "whole get bs = Inr x \<longleftrightarrow> ok x \<and> bs = put x"
proof
  assume "whole get bs = Inr x"
  then have "get bs = Inr (x, [])" by (auto simp: whole_def split: sum.splits if_splits)
  then show "ok x \<and> bs = put x" using get_ok exact by fastforce
qed (simp add: whole_put)

end

section \<open>Numbers\<close>

text \<open>\<open>to_be_bytes\<close> and \<open>from_be_bytes\<close>.\<close>

fun be_put :: "nat \<Rightarrow> nat \<Rightarrow> byte list" where
  "be_put 0 n = []"
| "be_put (Suc k) n = be_put k (n div 256) @ [byte_of (n mod 256)]"

definition be_get :: "byte list \<Rightarrow> nat" where
  "be_get bs = foldl (\<lambda>n b. 256 * n + unat b) 0 bs"

lemma be_put_length [simp]: "length (be_put k n) = k"
  by (induction k n rule: be_put.induct) auto

lemma be_get_snoc: "be_get (bs @ [b]) = 256 * be_get bs + unat b"
  by (simp add: be_get_def)

lemma be_get_put: "n < 256 ^ k \<Longrightarrow> be_get (be_put k n) = n"
proof (induction k n rule: be_put.induct)
  case (2 k n)
  have "n div 256 < 256 ^ k" using "2.prems" by (simp add: less_mult_imp_div_less mult.commute)
  then show ?case using "2.IH" by (simp add: be_get_snoc unat_byte_of)
qed (simp add: be_get_def)

lemma be_get_less: "be_get bs < 256 ^ length bs"
proof (induction bs rule: rev_induct)
  case (snoc b bs)
  then have "256 * be_get bs + 256 \<le> 256 * 256 ^ length bs" by (simp add: Suc_le_eq [symmetric] del: Suc_le_eq)
  then show ?case using unat_byte [of b] by (simp add: be_get_snoc)
qed (simp add: be_get_def)

lemma be_put_get: "be_put (length bs) (be_get bs) = bs"
proof (induction bs rule: rev_induct)
  case (snoc b bs)
  then show ?case using unat_byte [of b] by (simp add: be_get_snoc)
qed simp

definition get_be :: "nat \<Rightarrow> nat reader" where
  "get_be k = reads (take_bytes k) (\<lambda>bs. give (be_get bs))"

lemma codec_be: "0 < k \<Longrightarrow> exact_codec (be_put k) (get_be k) (\<lambda>n. n < 256 ^ k)"
proof (unfold_locales, goal_cases)
  case (1 x rest)
  then show ?case by (simp add: get_be_def reads_def give_def take_bytes_def be_get_put)
next
  case 2
  have "steady (get_be k) (\<lambda>n. n < 256 ^ k)"
    unfolding get_be_def by (rule steady_reads [OF steady_take_bytes], rule steady_give) (metis be_get_less)
  moreover have "length rest < length bs" if "get_be k bs = Inr (x, rest)" for bs x rest
    using 2 that by (auto simp: get_be_def reads_def give_def take_bytes_def split: if_splits)
  ultimately show ?case by (simp add: takes_def)
next
  case (3 bs x rest)
  then have "k = length (take k bs)" "x = be_get (take k bs)" "rest = drop k bs"
    by (auto simp: get_be_def reads_def give_def take_bytes_def split: if_splits)
  then show ?case by (metis append_take_drop_id be_put_get)
qed

definition put_u8 :: "nat \<Rightarrow> byte list" where
  "put_u8 = be_put 1"
definition get_u8 :: "nat reader" where
  "get_u8 = get_be 1"
definition put_u16 :: "nat \<Rightarrow> byte list" where
  "put_u16 = be_put 2"
definition get_u16 :: "nat reader" where
  "get_u16 = get_be 2"
definition put_u32 :: "nat \<Rightarrow> byte list" where
  "put_u32 = be_put 4"
definition get_u32 :: "nat reader" where
  "get_u32 = get_be 4"
definition put_u64 :: "nat \<Rightarrow> byte list" where
  "put_u64 = be_put 8"
definition get_u64 :: "nat reader" where
  "get_u64 = get_be 8"

abbreviation ok_u8 :: "nat \<Rightarrow> bool" where "ok_u8 n \<equiv> n < 2 ^ 8"
abbreviation ok_u16 :: "nat \<Rightarrow> bool" where "ok_u16 n \<equiv> n < 2 ^ 16"
abbreviation ok_u32 :: "nat \<Rightarrow> bool" where "ok_u32 n \<equiv> n < 2 ^ 32"
abbreviation ok_u64 :: "nat \<Rightarrow> bool" where "ok_u64 n \<equiv> n < 2 ^ 64"

interpretation u8: exact_codec put_u8 get_u8 ok_u8
  using codec_be [of 1] unfolding put_u8_def get_u8_def by simp
interpretation u16: exact_codec put_u16 get_u16 ok_u16
  using codec_be [of 2] unfolding put_u16_def get_u16_def by simp
interpretation u32: exact_codec put_u32 get_u32 ok_u32
  using codec_be [of 4] unfolding put_u32_def get_u32_def by simp
interpretation u64: exact_codec put_u64 get_u64 ok_u64
  using codec_be [of 8] unfolding put_u64_def get_u64_def by simp

text \<open>\<open>i32\<close> and \<open>i64\<close>: two's complement.\<close>

definition signed_of :: "nat \<Rightarrow> nat \<Rightarrow> int" where
  "signed_of w n = (if n < 2 ^ (w - 1) then int n else int n - 2 ^ w)"

definition put_i32 :: "int \<Rightarrow> byte list" where
  "put_i32 i = put_u32 (nat (i mod 2 ^ 32))"
definition get_i32 :: "int reader" where
  "get_i32 = reads get_u32 (\<lambda>n. give (signed_of 32 n))"
definition put_i64 :: "int \<Rightarrow> byte list" where
  "put_i64 i = put_u64 (nat (i mod 2 ^ 64))"
definition get_i64 :: "int reader" where
  "get_i64 = reads get_u64 (\<lambda>n. give (signed_of 64 n))"

abbreviation ok_i32 :: "int \<Rightarrow> bool" where "ok_i32 i \<equiv> - (2 ^ 31) \<le> i \<and> i < 2 ^ 31"
abbreviation ok_i64 :: "int \<Rightarrow> bool" where "ok_i64 i \<equiv> - (2 ^ 63) \<le> i \<and> i < 2 ^ 63"

lemma signed_of_mod:
  assumes "- (2 ^ k) \<le> i" "i < 2 ^ k"
  shows "signed_of (Suc k) (nat (i mod 2 ^ Suc k)) = i"
proof (cases "i < 0")
  case True
  then have "i mod 2 ^ Suc k = i + 2 ^ Suc k"
    using assms(1) by (intro mod_pos_pos_trivial [THEN trans [OF mod_add_self2 [symmetric]]]) auto
  then show ?thesis using True assms(1) by (simp add: signed_of_def nat_less_iff)
next
  case False
  then have "i mod 2 ^ Suc k = i" using assms(2) by (intro mod_pos_pos_trivial) auto
  then show ?thesis using False assms(2) by (simp add: signed_of_def nat_less_iff)
qed

lemma signed_of_range: "n < 2 ^ Suc k \<Longrightarrow> - (2 ^ k) \<le> signed_of (Suc k) n \<and> signed_of (Suc k) n < 2 ^ k"
proof -
  assume "n < 2 ^ Suc k"
  then have "int n < 2 ^ Suc k" by (metis of_nat_less_iff of_nat_power of_nat_numeral)
  moreover have "n < 2 ^ k \<longleftrightarrow> int n < 2 ^ k" by (metis of_nat_less_iff of_nat_power of_nat_numeral)
  ultimately show ?thesis by (auto simp: signed_of_def)
qed

interpretation i32: codec put_i32 get_i32 ok_i32
proof (unfold_locales, goal_cases)
  case (1 x rest)
  have "signed_of (Suc 31) (nat (x mod 2 ^ Suc 31)) = x" by (rule signed_of_mod) (use 1 in simp_all)
  then show ?case by (simp add: put_i32_def get_i32_def u32.reads_back reads_def give_def nat_less_iff)
next
  case 2
  show ?case unfolding get_i32_def using signed_of_range [of _ 31]
    by (intro takes_reads [OF u32.takes] steady_give) simp
qed

interpretation i64: codec put_i64 get_i64 ok_i64
proof (unfold_locales, goal_cases)
  case (1 x rest)
  have "signed_of (Suc 63) (nat (x mod 2 ^ Suc 63)) = x" by (rule signed_of_mod) (use 1 in simp_all)
  then show ?case by (simp add: put_i64_def get_i64_def u64.reads_back reads_def give_def nat_less_iff)
next
  case 2
  show ?case unfolding get_i64_def using signed_of_range [of _ 63]
    by (intro takes_reads [OF u64.takes] steady_give) simp
qed

text \<open>\<open>usize\<close>, of 64 bits.\<close>

definition put_usize :: "nat \<Rightarrow> byte list" where
  "put_usize = put_u64"
definition get_usize :: "nat reader" where
  "get_usize = get_u64"

interpretation usize: exact_codec put_usize get_usize ok_u64
  unfolding put_usize_def get_usize_def by (rule u64.exact_codec_axioms)

definition put_bool :: "bool \<Rightarrow> byte list" where
  "put_bool b = put_u8 (if b then 1 else 0)"
definition get_bool :: "bool reader" where
  "get_bool = reads get_u8 (\<lambda>tag.
     if tag = 0 then give False else if tag = 1 then give True else refuse (Bad_Tag ''flag'' tag))"

abbreviation any_of :: "'a \<Rightarrow> bool" where "any_of \<equiv> \<lambda>_. True"

interpretation bool: exact_codec put_bool get_bool any_of
proof unfold_locales
  show "get_bool (put_bool b @ rest) = Inr (b, rest)" for b rest
    by (simp add: put_bool_def get_bool_def codec_simps)
  show "takes get_bool any_of"
    unfolding get_bool_def by (rule codec_intros | simp)+
  show "bs = put_bool b @ rest" if "get_bool bs = Inr (b, rest)" for bs b rest
    using that by (auto simp: get_bool_def put_bool_def reads_Inr_iff give_def refuse_def split: if_splits dest!: u8.exact)
qed

section \<open>Lengths, lists and texts\<close>

definition put_length :: "nat \<Rightarrow> byte list" where
  "put_length n = (if n < u32_max then put_u32 n else put_u32 u32_max @ put_usize n)"

definition get_length :: "nat reader" where
  "get_length = reads get_u32 (\<lambda>n. if n = u32_max then get_usize else give n)"

interpretation length: codec put_length get_length ok_u64
proof (unfold_locales, goal_cases)
  case (1 x rest)
  then show ?case
    by (simp add: put_length_def get_length_def reads_def give_def u32_max_def u32.reads_back usize.reads_back)
next
  case 2
  show ?case unfolding get_length_def
    by (intro takes_reads [OF u32.takes] steady_if usize.steady steady_give) simp
qed

text \<open>
  A length has two encodings: one below \<open>u32::MAX\<close> is put in four bytes
  alone, but is read from the twelve of the long form too.
\<close>

lemma length_long_form:
  assumes "n < u32_max"
  shows "get_length (put_u32 u32_max @ put_usize n @ rest) = Inr (n, rest)
    \<and> get_length (put_length n @ rest) = Inr (n, rest) \<and> put_length n \<noteq> put_u32 u32_max @ put_usize n"
proof -
  have n: "ok_u64 n" using assms by (simp add: u32_max_def)
  have "length (put_length n) = 4" "length (put_u32 u32_max @ put_usize n) = 12"
    using assms by (simp_all add: put_length_def put_u32_def put_usize_def put_u64_def)
  then have "put_length n \<noteq> put_u32 u32_max @ put_usize n" by auto
  moreover have "get_length (put_u32 u32_max @ put_usize n @ rest) = Inr (n, rest)"
    using n by (simp add: get_length_def reads_def u32_max_def u32.reads_back usize.reads_back)
  ultimately show ?thesis using length.reads_back [OF n] by simp
qed

lemma length_long_form_witness:
  "get_length (put_u32 u32_max @ put_usize 1 @ [97]) = Inr (1, [97])
    \<and> get_length (put_length 1 @ [97]) = Inr (1, [97]) \<and> put_length 1 \<noteq> put_u32 u32_max @ put_usize 1"
  by (rule length_long_form) (simp add: u32_max_def)

definition put_byte :: "byte \<Rightarrow> byte list" where
  "put_byte b = [b]"
definition get_byte :: "byte reader" where
  "get_byte = reads (take_bytes 1) (\<lambda>bs. give (hd bs))"

interpretation byte: codec put_byte get_byte any_of
proof (unfold_locales, goal_cases)
  case 2
  have "steady get_byte any_of"
    unfolding get_byte_def by (rule steady_reads [OF steady_take_bytes], rule steady_give) simp
  then show ?case by (auto simp: takes_def get_byte_def reads_def give_def take_bytes_def split: if_splits)
qed (simp add: put_byte_def get_byte_def reads_def give_def take_bytes_def)

definition put_list :: "('a \<Rightarrow> byte list) \<Rightarrow> 'a list \<Rightarrow> byte list" where
  "put_list put xs = put_length (length xs) @ concat (map put xs)"

primrec get_items :: "'a reader \<Rightarrow> nat \<Rightarrow> 'a list reader" where
  "get_items get 0 = give []"
| "get_items get (Suc n) = reads get (\<lambda>x. reads (get_items get n) (\<lambda>xs. give (x # xs)))"

text \<open>\<open>Reader::list\<close>: a count past the bytes left is refused before anything is made.\<close>

definition get_list :: "'a reader \<Rightarrow> 'a list reader" where
  "get_list get = reads get_length (\<lambda>count bs. if length bs < count then Inl Truncated else get_items get count bs)"

definition ok_list :: "('a \<Rightarrow> bool) \<Rightarrow> 'a list \<Rightarrow> bool" where
  "ok_list ok xs \<longleftrightarrow> list_all ok xs \<and> length xs < 2 ^ 64"

lemma items_read_back:
  assumes "codec put get ok"
  shows "list_all ok xs \<Longrightarrow> get_items get (length xs) (concat (map put xs) @ rest) = Inr (xs, rest)"
  by (induction xs) (simp_all add: reads_def give_def codec.reads_back [OF assms])

lemma items_steady:
  assumes "takes get ok"
  shows "steady (get_items get n) (\<lambda>xs. list_all ok xs \<and> length xs = n)"
  by (induction n) (auto intro!: steady_give steady_reads [OF takes_steady [OF assms]] elim: steady_reads)

lemma items_use:
  assumes "takes get ok"
  shows "get_items get n bs = Inr (xs, rest) \<Longrightarrow> length rest + n \<le> length bs"
proof (induction n arbitrary: bs xs)
  case (Suc n)
  then obtain x mid ys where "get bs = Inr (x, mid)" "get_items get n mid = Inr (ys, rest)"
    by (auto simp: reads_Inr_iff give_def)
  then show ?case using assms Suc.IH unfolding takes_def by fastforce
qed (simp add: give_def)

lemma items_put_length:
  assumes "codec put get ok"
  shows "list_all ok xs \<Longrightarrow> length xs \<le> length (concat (map put xs))"
proof (induction xs)
  case (Cons x xs)
  then have "put x \<noteq> []" using codec.put_nonempty [OF assms] by simp
  then show ?case using Cons by (cases "put x") auto
qed simp

lemma codec_list [codec_intros]:
  assumes "codec put get ok"
  shows "codec (put_list put) (get_list get) (ok_list ok)"
proof (unfold_locales, goal_cases)
  case (1 x rest)
  then show ?case
    using items_put_length [OF assms, of x]
    by (simp add: put_list_def get_list_def ok_list_def reads_def length.reads_back items_read_back [OF assms])
next
  case 2
  note takes = codec.takes [OF assms]
  have "steady (\<lambda>bs. if length bs < n then Inl Truncated else get_items get n bs) (\<lambda>xs. list_all ok xs \<and> length xs = n)" for n
    using items_steady [OF takes, of n] unfolding steady_def by (auto split: if_splits)
  then have "steady (\<lambda>bs. if length bs < n then Inl Truncated else get_items get n bs) (ok_list ok)" if "n < 2 ^ 64" for n
    using that unfolding steady_def ok_list_def by blast
  then show ?case unfolding get_list_def by (intro takes_reads [OF length.takes]) simp
qed

text \<open>
  A list read is never longer than the bytes it was read from, whatever
  count they claim: a count past the bytes left is refused as truncated
  before an item is read.
\<close>

lemma list_within_bytes:
  assumes "takes get ok"
  shows "case get_length bs of
           Inl e \<Rightarrow> get_list get bs = Inl e
         | Inr (claimed, left) \<Rightarrow>
             if length left < claimed then get_list get bs = Inl Truncated
             else (case get_list get bs of Inl _ \<Rightarrow> True | Inr (xs, rest) \<Rightarrow> length xs = claimed \<and> length xs + length rest \<le> length left)"
  using steadyD(1) [OF items_steady [OF assms]] items_use [OF assms]
  by (auto simp: get_list_def reads_def add.commute split: sum.split)

lemma list_within_bytes_witness:
  "case get_length [0, 0, 0, 9, 1] of
     Inl e \<Rightarrow> get_list get_byte [0, 0, 0, 9, 1] = Inl e
   | Inr (claimed, left) \<Rightarrow>
       if length left < claimed then get_list get_byte [0, 0, 0, 9, 1] = Inl Truncated
       else (case get_list get_byte [0, 0, 0, 9, 1] of
               Inl _ \<Rightarrow> True | Inr (xs, rest) \<Rightarrow> length xs = claimed \<and> length xs + length rest \<le> length left)"
  by (rule list_within_bytes [OF byte.takes])

lemmas takes_list [codec_intros] = codec.takes [OF codec_list]

definition put_option :: "('a \<Rightarrow> byte list) \<Rightarrow> 'a option \<Rightarrow> byte list" where
  "put_option put v = (case v of None \<Rightarrow> put_u8 0 | Some x \<Rightarrow> put_u8 1 @ put x)"
definition get_option :: "'a reader \<Rightarrow> 'a option reader" where
  "get_option get = reads get_u8 (\<lambda>tag.
     if tag = 0 then give None
     else if tag = 1 then reads get (\<lambda>x. give (Some x))
     else refuse (Bad_Tag ''option'' tag))"

lemma codec_option:
  assumes "codec put get ok"
  shows "codec (put_option put) (get_option get) (pred_option ok)"
proof unfold_locales
  note [codec_intros] = codec.steady [OF assms]
  show "get_option get (put_option put v @ rest) = Inr (v, rest)" if "pred_option ok v" for v rest
    using that by (cases v) (simp_all add: put_option_def get_option_def codec_simps codec.reads_back [OF assms])
  show "takes (get_option get) (pred_option ok)"
    unfolding get_option_def by (rule codec_intros | simp)+
qed

text \<open>Two and three values, one after the other.\<close>

definition put_pair :: "('a \<Rightarrow> byte list) \<Rightarrow> ('b \<Rightarrow> byte list) \<Rightarrow> 'a \<times> 'b \<Rightarrow> byte list" where
  "put_pair put1 put2 v = put1 (fst v) @ put2 (snd v)"
definition get_pair :: "'a reader \<Rightarrow> 'b reader \<Rightarrow> ('a \<times> 'b) reader" where
  "get_pair get1 get2 = reads get1 (\<lambda>a. reads get2 (\<lambda>b. give (a, b)))"

lemma codec_pair:
  assumes "codec put1 get1 ok1" "codec put2 get2 ok2"
  shows "codec (put_pair put1 put2) (get_pair get1 get2) (pred_prod ok1 ok2)"
proof unfold_locales
  note [codec_intros] = codec.takes [OF assms(1)] codec.steady [OF assms(2)]
  show "get_pair get1 get2 (put_pair put1 put2 v @ rest) = Inr (v, rest)" if "pred_prod ok1 ok2 v" for v rest
    using that by (cases v)
      (simp add: put_pair_def get_pair_def codec_simps codec.reads_back [OF assms(1)] codec.reads_back [OF assms(2)])
  show "takes (get_pair get1 get2) (pred_prod ok1 ok2)"
    unfolding get_pair_def by (rule codec_intros | simp)+
qed

text \<open>
  A text is its bytes, which are UTF-8; a system's string and a path are any
  bytes (on Unix).
\<close>

definition put_bytes :: "byte list \<Rightarrow> byte list" where
  "put_bytes bs = put_length (length bs) @ bs"

definition put_text :: "byte list \<Rightarrow> byte list" where
  "put_text = put_bytes"
definition get_text :: "byte list reader" where
  "get_text = reads get_length (\<lambda>len. reads (take_bytes len) (\<lambda>bs.
     if utf8_valid bs then give bs else refuse Not_Utf8))"
definition ok_text :: "byte list \<Rightarrow> bool" where
  "ok_text bs \<longleftrightarrow> utf8_valid bs \<and> length bs < 2 ^ 64"

interpretation str: codec put_text get_text ok_text
proof unfold_locales
  show "get_text (put_text t @ rest) = Inr (t, rest)" if "ok_text t" for t rest
    using that by (simp add: ok_text_def put_text_def put_bytes_def get_text_def codec_simps take_bytes_def)
  have "steady (reads (take_bytes len) (\<lambda>bs. if utf8_valid bs then give bs else refuse Not_Utf8)) ok_text"
    if "len < 2 ^ 64" for len
    using that by (intro steady_reads [OF steady_take_bytes] steady_if steady_give steady_refuse) (simp add: ok_text_def)
  then show "takes get_text ok_text"
    unfolding get_text_def by (rule takes_reads [OF length.takes])
qed

definition put_os :: "byte list \<Rightarrow> byte list" where
  "put_os = put_bytes"
definition get_os :: "byte list reader" where
  "get_os = get_list get_byte"
abbreviation ok_os :: "byte list \<Rightarrow> bool" where
  "ok_os \<equiv> ok_list any_of"

lemma put_list_byte: "put_list put_byte bs = put_bytes bs"
proof -
  have "concat (map put_byte bs) = bs" by (induction bs) (simp_all add: put_byte_def)
  then show ?thesis by (simp add: put_list_def put_bytes_def)
qed

interpretation byte_list: codec "put_list put_byte" "get_list get_byte" "ok_list any_of"
  by (rule codec_list [OF byte.codec_axioms])

interpretation os: codec put_os get_os ok_os
proof -
  have "put_os = put_list put_byte" by (simp add: fun_eq_iff put_os_def put_list_byte)
  then show "codec put_os get_os ok_os" unfolding get_os_def using byte_list.codec_axioms by simp
qed

section \<open>Values of fewer than their bits\<close>

text \<open>\<open>NonZeroU32\<close>, and \<open>Duration\<close> as its seconds and nanoseconds.\<close>

definition put_nonzero :: "nat \<Rightarrow> byte list" where
  "put_nonzero = put_u32"
definition get_nonzero :: "nat reader" where
  "get_nonzero = reads get_u32 (\<lambda>n. if n = 0 then refuse (Bad_Value ''share'') else give n)"
abbreviation ok_nonzero :: "nat \<Rightarrow> bool" where
  "ok_nonzero n \<equiv> 0 < n \<and> n < 2 ^ 32"

interpretation nonzero: codec put_nonzero get_nonzero ok_nonzero
proof unfold_locales
  show "get_nonzero (put_nonzero n @ rest) = Inr (n, rest)" if "ok_nonzero n" for n rest
    using that by (simp add: put_nonzero_def get_nonzero_def codec_simps)
  show "takes get_nonzero ok_nonzero"
    unfolding get_nonzero_def by (rule codec_intros | simp)+
qed

record duration =
  secs :: nat
  nanos :: nat

definition put_duration :: "duration \<Rightarrow> byte list" where
  "put_duration d = put_u64 (secs d) @ put_u32 (nanos d)"
definition get_duration :: "duration reader" where
  "get_duration = reads get_u64 (\<lambda>s. reads get_u32 (\<lambda>n.
     if 1000000000 \<le> n then refuse (Bad_Value ''duration nanoseconds'') else give \<lparr>secs = s, nanos = n\<rparr>))"
definition ok_duration :: "duration \<Rightarrow> bool" where
  "ok_duration d \<longleftrightarrow> ok_u64 (secs d) \<and> nanos d < 1000000000"

interpretation duration: codec put_duration get_duration ok_duration
proof unfold_locales
  show "get_duration (put_duration d @ rest) = Inr (d, rest)" if "ok_duration d" for d rest
    using that by (simp add: ok_duration_def put_duration_def get_duration_def codec_simps)
  show "takes get_duration ok_duration"
    unfolding get_duration_def by (rule codec_intros | simp add: ok_duration_def)+
qed

end
