(* ===== verification/Wire_Code.thy ===== *)
theory Wire_Code
  imports Rust_Text
begin

text \<open>
  The codes a failure is told apart by (\<open>fux-wire/src/code.rs\<close>): each one's
  name, exit status and whether it answers what was asked, and that a name
  is exactly one code's.
\<close>

definition FAILED :: nat where "FAILED = 1"
definition PROGRAM :: nat where "PROGRAM = FAILED + 1"
definition CLOSED :: nat where "CLOSED = FAILED + 3"
definition TIMED_OUT :: nat where "TIMED_OUT = FAILED + 123"

datatype code =
    C_Cancelled | C_NoServer | C_Mismatch | C_Client | C_NoPane | C_NoTab | C_NoWorkspace
  | C_NoClient | C_NoTarget | C_StrayPane | C_NoField | C_JournalLoss | C_NothingThere
  | C_NameTaken | C_BadValue | C_Usage | C_NotRunning | C_StillRunning | C_NotRun | C_OnlyShell
  | C_Stale | C_NoMarks | C_Start | C_Size | C_Mouse | C_Signal | C_Indeterminate | C_NotHeadless
  | C_OwnServer | C_PeopleAttached | C_Timeout | C_Closed | C_NotHere | C_NotConfig | C_Config
  | C_BadBinding | C_Read | C_UnsetVar | C_Output | C_Nested | C_NotAKey | C_Type | C_Range
  | C_StackUnderflow | C_TooLong | C_Unused | C_UnknownWord | C_BadName | C_Memory | C_IdsExhausted
  | C_Fail | C_Require | C_Contract | C_Parse

definition code_all :: "code list" where
  "code_all = [C_Cancelled, C_NoServer, C_Mismatch, C_Client, C_NoPane, C_NoTab, C_NoWorkspace,
     C_NoClient, C_NoTarget, C_StrayPane, C_NoField, C_JournalLoss, C_NothingThere, C_NameTaken,
     C_BadValue, C_Usage, C_NotRunning, C_StillRunning, C_NotRun, C_OnlyShell, C_Stale, C_NoMarks,
     C_Start, C_Size, C_Mouse, C_Signal, C_Indeterminate, C_NotHeadless, C_OwnServer,
     C_PeopleAttached, C_Timeout, C_Closed, C_NotHere, C_NotConfig, C_Config, C_BadBinding, C_Read,
     C_UnsetVar, C_Output, C_Nested, C_NotAKey, C_Type, C_Range, C_StackUnderflow, C_TooLong,
     C_Unused, C_UnknownWord, C_BadName, C_Memory, C_IdsExhausted, C_Fail, C_Require, C_Contract,
     C_Parse]"

fun code_name :: "code \<Rightarrow> str" where
  "code_name C_Cancelled = ascii ''cancelled''"
| "code_name C_NoServer = ascii ''no-server''"
| "code_name C_Mismatch = ascii ''mismatch''"
| "code_name C_Client = ascii ''client''"
| "code_name C_NoPane = ascii ''no-pane''"
| "code_name C_NoTab = ascii ''no-tab''"
| "code_name C_NoWorkspace = ascii ''no-workspace''"
| "code_name C_NoClient = ascii ''no-client''"
| "code_name C_NoTarget = ascii ''no-target''"
| "code_name C_StrayPane = ascii ''stray-pane''"
| "code_name C_NoField = ascii ''no-field''"
| "code_name C_JournalLoss = ascii ''journal-loss''"
| "code_name C_NothingThere = ascii ''nothing-there''"
| "code_name C_NameTaken = ascii ''name-taken''"
| "code_name C_BadValue = ascii ''bad-value''"
| "code_name C_Usage = ascii ''usage''"
| "code_name C_NotRunning = ascii ''not-running''"
| "code_name C_StillRunning = ascii ''still-running''"
| "code_name C_NotRun = ascii ''not-run''"
| "code_name C_OnlyShell = ascii ''only-shell''"
| "code_name C_Stale = ascii ''stale''"
| "code_name C_NoMarks = ascii ''no-marks''"
| "code_name C_Start = ascii ''start''"
| "code_name C_Size = ascii ''size''"
| "code_name C_Mouse = ascii ''mouse''"
| "code_name C_Signal = ascii ''signal''"
| "code_name C_Indeterminate = ascii ''indeterminate''"
| "code_name C_NotHeadless = ascii ''not-headless''"
| "code_name C_OwnServer = ascii ''own-server''"
| "code_name C_PeopleAttached = ascii ''people-attached''"
| "code_name C_Timeout = ascii ''timeout''"
| "code_name C_Closed = ascii ''closed''"
| "code_name C_NotHere = ascii ''not-here''"
| "code_name C_NotConfig = ascii ''not-config''"
| "code_name C_Config = ascii ''config''"
| "code_name C_BadBinding = ascii ''bad-binding''"
| "code_name C_Read = ascii ''read''"
| "code_name C_UnsetVar = ascii ''unset-variable''"
| "code_name C_Output = ascii ''output''"
| "code_name C_Nested = ascii ''nested''"
| "code_name C_NotAKey = ascii ''not-a-key''"
| "code_name C_Type = ascii ''type-error''"
| "code_name C_Range = ascii ''range-error''"
| "code_name C_StackUnderflow = ascii ''arity-error''"
| "code_name C_TooLong = ascii ''too-long''"
| "code_name C_Unused = ascii ''unused''"
| "code_name C_UnknownWord = ascii ''unbound-symbol''"
| "code_name C_BadName = ascii ''bad-name''"
| "code_name C_Memory = ascii ''out-of-memory''"
| "code_name C_IdsExhausted = ascii ''ids-exhausted''"
| "code_name C_Fail = ascii ''fail''"
| "code_name C_Require = ascii ''read-error''"
| "code_name C_Contract = ascii ''contract-error''"
| "code_name C_Parse = ascii ''parse-error''"

fun code_status :: "code \<Rightarrow> nat" where
  "code_status C_Cancelled = FAILED"
| "code_status C_NoServer = FAILED"
| "code_status C_Mismatch = FAILED"
| "code_status C_Client = FAILED"
| "code_status C_NoPane = FAILED"
| "code_status C_NoTab = FAILED"
| "code_status C_NoWorkspace = FAILED"
| "code_status C_NoClient = FAILED"
| "code_status C_NoTarget = FAILED"
| "code_status C_StrayPane = FAILED"
| "code_status C_NoField = FAILED"
| "code_status C_JournalLoss = FAILED"
| "code_status C_NothingThere = FAILED"
| "code_status C_NameTaken = FAILED"
| "code_status C_BadValue = FAILED"
| "code_status C_Usage = PROGRAM"
| "code_status C_NotRunning = FAILED"
| "code_status C_StillRunning = FAILED"
| "code_status C_NotRun = FAILED"
| "code_status C_OnlyShell = FAILED"
| "code_status C_Stale = FAILED"
| "code_status C_NoMarks = FAILED"
| "code_status C_Start = FAILED"
| "code_status C_Size = FAILED"
| "code_status C_Mouse = FAILED"
| "code_status C_Signal = FAILED"
| "code_status C_Indeterminate = FAILED"
| "code_status C_NotHeadless = FAILED"
| "code_status C_OwnServer = FAILED"
| "code_status C_PeopleAttached = FAILED"
| "code_status C_Timeout = TIMED_OUT"
| "code_status C_Closed = CLOSED"
| "code_status C_NotHere = FAILED"
| "code_status C_NotConfig = FAILED"
| "code_status C_Config = FAILED"
| "code_status C_BadBinding = FAILED"
| "code_status C_Read = FAILED"
| "code_status C_UnsetVar = FAILED"
| "code_status C_Output = FAILED"
| "code_status C_Nested = FAILED"
| "code_status C_NotAKey = FAILED"
| "code_status C_Type = PROGRAM"
| "code_status C_Range = FAILED"
| "code_status C_StackUnderflow = PROGRAM"
| "code_status C_TooLong = FAILED"
| "code_status C_Unused = FAILED"
| "code_status C_UnknownWord = PROGRAM"
| "code_status C_BadName = FAILED"
| "code_status C_Memory = FAILED"
| "code_status C_IdsExhausted = FAILED"
| "code_status C_Fail = FAILED"
| "code_status C_Require = PROGRAM"
| "code_status C_Contract = FAILED"
| "code_status C_Parse = PROGRAM"

fun code_asked :: "code \<Rightarrow> bool" where
  "code_asked C_Cancelled = False"
| "code_asked C_NoServer = True"
| "code_asked C_Mismatch = True"
| "code_asked C_Client = True"
| "code_asked C_NoPane = True"
| "code_asked C_NoTab = True"
| "code_asked C_NoWorkspace = True"
| "code_asked C_NoClient = True"
| "code_asked C_NoTarget = True"
| "code_asked C_StrayPane = True"
| "code_asked C_NoField = True"
| "code_asked C_JournalLoss = False"
| "code_asked C_NothingThere = True"
| "code_asked C_NameTaken = True"
| "code_asked C_BadValue = True"
| "code_asked C_Usage = True"
| "code_asked C_NotRunning = True"
| "code_asked C_StillRunning = True"
| "code_asked C_NotRun = True"
| "code_asked C_OnlyShell = True"
| "code_asked C_Stale = True"
| "code_asked C_NoMarks = True"
| "code_asked C_Start = True"
| "code_asked C_Size = True"
| "code_asked C_Mouse = True"
| "code_asked C_Signal = True"
| "code_asked C_Indeterminate = True"
| "code_asked C_NotHeadless = True"
| "code_asked C_OwnServer = True"
| "code_asked C_PeopleAttached = True"
| "code_asked C_Timeout = True"
| "code_asked C_Closed = True"
| "code_asked C_NotHere = True"
| "code_asked C_NotConfig = True"
| "code_asked C_Config = True"
| "code_asked C_BadBinding = False"
| "code_asked C_Read = False"
| "code_asked C_UnsetVar = False"
| "code_asked C_Output = True"
| "code_asked C_Nested = False"
| "code_asked C_NotAKey = False"
| "code_asked C_Type = False"
| "code_asked C_Range = True"
| "code_asked C_StackUnderflow = False"
| "code_asked C_TooLong = True"
| "code_asked C_Unused = False"
| "code_asked C_UnknownWord = False"
| "code_asked C_BadName = True"
| "code_asked C_Memory = True"
| "code_asked C_IdsExhausted = True"
| "code_asked C_Fail = True"
| "code_asked C_Require = False"
| "code_asked C_Contract = False"
| "code_asked C_Parse = False"

definition code_raised :: "code \<Rightarrow> bool" where
  "code_raised c \<longleftrightarrow> c \<noteq> C_Cancelled"

text \<open>\<open>FromStr for Code\<close>.\<close>

definition code_from :: "str \<Rightarrow> code option" where
  "code_from name = find (\<lambda>c. code_name c = name) code_all"

lemma code_all_all: "c \<in> set code_all"
  by (cases c) (simp_all add: code_all_def)

lemma code_names_distinct: "distinct (map code_name code_all)"
  by (simp add: code_all_def ascii_def byte_of_def)

lemma code_from_name: "code_from (code_name c) = Some c"
proof -
  have inj: "inj_on code_name (set code_all)" using code_names_distinct by (simp add: distinct_map)
  then have "find (\<lambda>d. code_name d = code_name c) code_all = find (\<lambda>d. d = c) code_all"
    by (intro find_cong refl) (simp add: inj_on_eq_iff code_all_all)
  moreover have "find (\<lambda>d. d = c) xs = Some c" if "c \<in> set xs" for xs
    using that by (induction xs) auto
  ultimately show ?thesis using code_all_all by (simp add: code_from_def)
qed

lemma code_from_Some: "code_from t = Some c \<longleftrightarrow> t = code_name c"
  using code_from_name by (auto simp: code_from_def find_Some_iff)

end
