(* ===== verification/Wire_Id.thy ===== *)
theory Wire_Id
  imports Wire_Code Layout_Rect
begin

text \<open>
  The ids of panes, tabs, workspaces and clients and the counters they come
  from (\<open>fux-wire/src/id.rs\<close>), what names them, and the tokens made of them and
  of a server's run (\<open>Run\<close>, \<open>Counts\<close>, \<open>Version\<close>, \<open>LayoutRevision\<close> of
  \<open>command.rs\<close>, \<open>Cursor\<close> of \<open>events.rs\<close>), as texts.  What is shown is that an id
  is never given twice, and that a token has one spelling only.
\<close>

type_synonym tab_id = nat
type_synonym ws_id = nat

datatype kind = K_Pane | K_Tab | K_Workspace

datatype any_ref = A_Pane pane_id | A_Tab tab_id | A_Workspace ws_id

datatype scope = S_All | S_Target any_ref | S_Client client_id

datatype usage = U_Not kind str | U_NotClient str

section \<open>Failures\<close>

datatype error =
    E_NoWorkspace ws_id
  | E_NoPaneGiven
  | E_NoPane pane_id
  | E_NoTab tab_id
  | E_NoWorkspaceGiven
  | E_NoClient client_id
  | E_OnlyOne kind
  | E_AtEnd kind
  | E_NoNeighbor pane_id direction
  | E_NameTaken str any_ref
  | E_NameReadAsTarget str
  | E_Failed code str

definition fail :: "code \<Rightarrow> str \<Rightarrow> error" where
  "fail c message = E_Failed c message"

fun error_code :: "error \<Rightarrow> code" where
  "error_code (E_NoWorkspace _) = C_NoWorkspace"
| "error_code (E_NoPane _) = C_NoPane"
| "error_code (E_NoTab _) = C_NoTab"
| "error_code E_NoPaneGiven = C_NoTarget"
| "error_code E_NoWorkspaceGiven = C_NoTarget"
| "error_code (E_NoClient _) = C_NoClient"
| "error_code (E_OnlyOne _) = C_NothingThere"
| "error_code (E_AtEnd _) = C_NothingThere"
| "error_code (E_NoNeighbor _ _) = C_NothingThere"
| "error_code (E_NameReadAsTarget _) = C_BadName"
| "error_code (E_NameTaken _ _) = C_NameTaken"
| "error_code (E_Failed c _) = c"

fun any_kind :: "any_ref \<Rightarrow> kind" where
  "any_kind (A_Pane _) = K_Pane"
| "any_kind (A_Tab _) = K_Tab"
| "any_kind (A_Workspace _) = K_Workspace"

fun kind_name :: "kind \<Rightarrow> str" where
  "kind_name K_Pane = ascii ''pane''"
| "kind_name K_Tab = ascii ''tab''"
| "kind_name K_Workspace = ascii ''workspace''"

section \<open>Ids as texts\<close>

definition u64_max :: nat where
  "u64_max = 2 ^ 64 - 1"

definition is_digit :: "byte \<Rightarrow> bool" where
  "is_digit b \<longleftrightarrow> 48 \<le> b \<and> b \<le> 57"

text \<open>Digits only: no sign, no space.\<close>

definition number :: "nat \<Rightarrow> str \<Rightarrow> nat option" where
  "number most t = (if t = [] \<or> \<not> list_all is_digit t then None else parse_radix 10 most t)"

text \<open>An id of each kind by its sigil: what \<open>id!\<close> makes of it.\<close>

definition id_name :: "byte \<Rightarrow> nat \<Rightarrow> str" where
  "id_name sigil n = sigil # digits 10 n"

definition id_from :: "byte \<Rightarrow> kind \<Rightarrow> str \<Rightarrow> usage + nat" where
  "id_from sigil k t =
     (case Option.bind (strip_prefix [sigil] t) (number u32_max) of
        Some n \<Rightarrow> Inr n
      | None \<Rightarrow> Inl (U_Not k t))"

definition pane_name :: "pane_id \<Rightarrow> str" where "pane_name = id_name 37"
definition tab_name :: "tab_id \<Rightarrow> str" where "tab_name = id_name 64"
definition ws_name :: "ws_id \<Rightarrow> str" where "ws_name = id_name 43"
definition client_name :: "client_id \<Rightarrow> str" where "client_name = id_name 99"

definition pane_from :: "str \<Rightarrow> usage + pane_id" where "pane_from = id_from 37 K_Pane"
definition tab_from :: "str \<Rightarrow> usage + tab_id" where "tab_from = id_from 64 K_Tab"
definition ws_from :: "str \<Rightarrow> usage + ws_id" where "ws_from = id_from 43 K_Workspace"

text \<open>\<open>cN\<close>, or \<open>N\<close> alone.\<close>

definition client_from :: "str \<Rightarrow> usage + client_id" where
  "client_from t =
     (case Option.bind (strip_prefix [99] t) (number u32_max) of
        Some n \<Rightarrow> Inr n
      | None \<Rightarrow> (case number u32_max t of Some n \<Rightarrow> Inr n | None \<Rightarrow> Inl (U_NotClient t)))"

fun any_name :: "any_ref \<Rightarrow> str" where
  "any_name (A_Pane n) = pane_name n"
| "any_name (A_Tab n) = tab_name n"
| "any_name (A_Workspace n) = ws_name n"

definition any_from :: "str \<Rightarrow> any_ref option" where
  "any_from t =
     (case pane_from t of
        Inr n \<Rightarrow> Some (A_Pane n)
      | Inl _ \<Rightarrow>
          (case tab_from t of
             Inr n \<Rightarrow> Some (A_Tab n)
           | Inl _ \<Rightarrow> (case ws_from t of Inr n \<Rightarrow> Some (A_Workspace n) | Inl _ \<Rightarrow> None)))"

text \<open>\<open>program\<close>: a pane and its program's generation, as \<open>FUX_PANE\<close> says them.\<close>

definition program_from :: "str \<Rightarrow> (pane_id \<times> nat) option" where
  "program_from t =
     (case split_once 58 t of
        None \<Rightarrow> None
      | Some (pane, generation) \<Rightarrow>
          (case pane_from pane of
             Inl _ \<Rightarrow> None
           | Inr p \<Rightarrow> map_option (\<lambda>g. (p, g)) (number u64_max generation)))"

lemma digits_are_digits: "list_all is_digit (digits 10 n)"
proof -
  have "is_digit (digit_sym d)" if "d < 10" for d
    using that by (simp add: is_digit_def digit_sym_def word_le_nat_alt unat_byte_of)
  then show ?thesis by (auto simp: list_all_iff dest!: digits_syms [rotated])
qed

lemma number_digits: "n \<le> most \<Longrightarrow> number most (digits 10 n) = Some n"
  by (simp add: number_def digits_are_digits parse_digits)

lemma number_most: "number most t = Some n \<Longrightarrow> n \<le> most"
  by (auto simp: number_def split: if_splits dest!: parse_most)

lemma id_from_name: "n \<le> u32_max \<Longrightarrow> id_from s k (id_name s n) = Inr n"
  by (simp add: id_from_def id_name_def number_digits)

lemma id_from_other: "s \<noteq> s' \<Longrightarrow> id_from s k (id_name s' n) = Inl (U_Not k (id_name s' n))"
  by (simp add: id_from_def id_name_def)

lemma id_from_most: "id_from s k t = Inr n \<Longrightarrow> n \<le> u32_max"
  by (auto simp: id_from_def number_most split: option.splits Option.bind_splits)

section \<open>The counters\<close>

record ids =
  last_pane :: nat
  last_tab :: nat
  last_workspace :: nat
  last_client :: nat

definition ids_given :: "ids \<Rightarrow> nat list" where
  "ids_given i = [last_pane i, last_tab i, last_workspace i, last_client i]"

definition ids_after :: "nat list \<Rightarrow> ids" where
  "ids_after given =
     (let last_of = (\<lambda>k. case get_at given k of Some n \<Rightarrow> n | None \<Rightarrow> 0)
      in \<lparr>last_pane = last_of 0, last_tab = last_of 1, last_workspace = last_of 2, last_client = last_of 3\<rparr>)"

text \<open>\<open>take\<close>: the counter's next, or refused at its end, the counter as it was.\<close>

definition take_id :: "nat \<Rightarrow> str \<Rightarrow> error + nat" where
  "take_id counter what =
     (case checked_add32 counter 1 of
        Some n \<Rightarrow> Inr n
      | None \<Rightarrow> Inl (fail C_IdsExhausted (ascii ''no '' @ what @ ascii '' IDs are left'')))"

definition new_pane :: "ids \<Rightarrow> (error + pane_id) \<times> ids" where
  "new_pane i = (case take_id (last_pane i) (ascii ''pane'') of
     Inl e \<Rightarrow> (Inl e, i) | Inr n \<Rightarrow> (Inr n, i\<lparr>last_pane := n\<rparr>))"
definition new_tab :: "ids \<Rightarrow> (error + tab_id) \<times> ids" where
  "new_tab i = (case take_id (last_tab i) (ascii ''tab'') of
     Inl e \<Rightarrow> (Inl e, i) | Inr n \<Rightarrow> (Inr n, i\<lparr>last_tab := n\<rparr>))"
definition new_workspace :: "ids \<Rightarrow> (error + ws_id) \<times> ids" where
  "new_workspace i = (case take_id (last_workspace i) (ascii ''workspace'') of
     Inl e \<Rightarrow> (Inl e, i) | Inr n \<Rightarrow> (Inr n, i\<lparr>last_workspace := n\<rparr>))"
definition new_client :: "ids \<Rightarrow> (error + client_id) \<times> ids" where
  "new_client i = (case take_id (last_client i) (ascii ''client'') of
     Inl e \<Rightarrow> (Inl e, i) | Inr n \<Rightarrow> (Inr n, i\<lparr>last_client := n\<rparr>))"

definition gave :: "ids \<Rightarrow> pane_id \<Rightarrow> bool" where
  "gave i n \<longleftrightarrow> 0 < n \<and> n \<le> last_pane i"

fun gave_scope :: "ids \<Rightarrow> scope \<Rightarrow> bool" where
  "gave_scope i S_All = True"
| "gave_scope i (S_Target (A_Pane p)) = gave i p"
| "gave_scope i (S_Target (A_Tab t)) = (0 < t \<and> t \<le> last_tab i)"
| "gave_scope i (S_Target (A_Workspace w)) = (0 < w \<and> w \<le> last_workspace i)"
| "gave_scope i (S_Client c) = (0 < c \<and> c \<le> last_client i)"

text \<open>A run of the counters: an id of some kind asked for, over and over.\<close>

datatype asked = New_Pane | New_Tab | New_Workspace | New_Client

fun ask :: "asked \<Rightarrow> ids \<Rightarrow> scope option \<times> ids" where
  "ask New_Pane i = (case new_pane i of (r, i') \<Rightarrow> (case r of Inl _ \<Rightarrow> None | Inr n \<Rightarrow> Some (S_Target (A_Pane n)), i'))"
| "ask New_Tab i = (case new_tab i of (r, i') \<Rightarrow> (case r of Inl _ \<Rightarrow> None | Inr n \<Rightarrow> Some (S_Target (A_Tab n)), i'))"
| "ask New_Workspace i =
     (case new_workspace i of (r, i') \<Rightarrow> (case r of Inl _ \<Rightarrow> None | Inr n \<Rightarrow> Some (S_Target (A_Workspace n)), i'))"
| "ask New_Client i = (case new_client i of (r, i') \<Rightarrow> (case r of Inl _ \<Rightarrow> None | Inr n \<Rightarrow> Some (S_Client n), i'))"

fun ask_all :: "asked list \<Rightarrow> ids \<Rightarrow> scope list \<times> ids" where
  "ask_all [] i = ([], i)"
| "ask_all (a # as) i =
     (case ask a i of (given, i') \<Rightarrow>
      case ask_all as i' of (rest, i'') \<Rightarrow> ((case given of None \<Rightarrow> rest | Some s \<Rightarrow> s # rest), i''))"

lemma ask_gave:
  "ask a i = (given, i') \<Longrightarrow> (\<forall>s. gave_scope i s \<longrightarrow> gave_scope i' s)
   \<and> (case given of None \<Rightarrow> i' = i | Some s \<Rightarrow> gave_scope i' s \<and> \<not> gave_scope i s)"
proof -
  have scopes: "(\<forall>s. gave_scope i s \<longrightarrow> gave_scope i' s) \<longleftrightarrow>
      (\<forall>n. gave_scope i (S_Target (A_Pane n)) \<longrightarrow> gave_scope i' (S_Target (A_Pane n)))
    \<and> (\<forall>n. gave_scope i (S_Target (A_Tab n)) \<longrightarrow> gave_scope i' (S_Target (A_Tab n)))
    \<and> (\<forall>n. gave_scope i (S_Target (A_Workspace n)) \<longrightarrow> gave_scope i' (S_Target (A_Workspace n)))
    \<and> (\<forall>n. gave_scope i (S_Client n) \<longrightarrow> gave_scope i' (S_Client n))"
    by (metis any_ref.exhaust gave_scope.simps(1) scope.exhaust)
  show "ask a i = (given, i') \<Longrightarrow> ?thesis"
    unfolding scopes
    by (cases a) (auto simp: new_pane_def new_tab_def new_workspace_def new_client_def take_id_def checked_add32_def gave_def split: if_splits)
qed

text \<open>
  C31: No id is given twice: of the ids asked for one after another from any
  counters, all are different, none had been given before, each is known as
  given (\<open>gave_scope\<close>) from then on, and running out gives none and changes
  nothing.
\<close>

theorem ids_never_twice:
  "case ask_all as i of (given, i') \<Rightarrow>
     distinct given \<and> list_all (\<lambda>s. gave_scope i' s \<and> \<not> gave_scope i s) given"
proof -
  have "distinct given \<and> (\<forall>s \<in> set given. gave_scope i' s \<and> \<not> gave_scope i s) \<and> (\<forall>s. gave_scope i s \<longrightarrow> gave_scope i' s)"
    if "ask_all as i = (given, i')" for given i'
    using that
  proof (induction as arbitrary: i given)
    case (Cons a as)
    obtain g j where j: "ask a i = (g, j)" by (cases "ask a i")
    obtain rest where rest: "ask_all as j = (rest, i')" "given = (case g of None \<Rightarrow> rest | Some s \<Rightarrow> s # rest)"
      using Cons.prems j by (auto split: prod.splits)
    show ?case using ask_gave [OF j] Cons.IH [OF rest(1)] rest(2) by (auto split: option.splits)
  qed simp
  then show ?thesis by (auto simp: list_all_iff split: prod.splits)
qed

section \<open>Tokens: runs, revisions, counts, versions, cursors\<close>

record run =
  run_pid :: nat
  run_since :: nat

definition run_name :: "run \<Rightarrow> str" where
  "run_name r = digits 10 (run_pid r) @ 45 # digits 16 (run_since r)"

text \<open>\<open>PID-SINCE\<close>, one spelling only.\<close>

definition run_from :: "str \<Rightarrow> run option" where
  "run_from t =
     (case split_once 45 t of
        None \<Rightarrow> None
      | Some (pid, since) \<Rightarrow>
          (case (parse_radix 10 u32_max pid, parse_radix 16 u64_max since) of
             (Some p, Some s) \<Rightarrow>
               (let r = \<lparr>run_pid = p, run_since = s\<rparr> in if run_name r = t then Some r else None)
           | _ \<Rightarrow> None))"

record layout_revision =
  rev_tab :: tab_id
  rev_serial :: nat
  rev_run :: run

definition revision_name :: "layout_revision \<Rightarrow> str" where
  "revision_name v = tab_name (rev_tab v) @ 58 # digits 10 (rev_serial v) @ 58 # run_name (rev_run v)"

definition revision_from :: "str \<Rightarrow> layout_revision option" where
  "revision_from t =
     (if 60 < length t then None
      else (case split_on 58 t of
              [tab, serial, run] \<Rightarrow>
                (case (tab_from tab, number u64_max serial, run_from run) of
                   (Inr tb, Some s, Some r) \<Rightarrow>
                     (let v = \<lparr>rev_tab = tb, rev_serial = s, rev_run = r\<rparr>
                      in if revision_name v = t then Some v else None)
                 | _ \<Rightarrow> None)
            | _ \<Rightarrow> None))"

record counts =
  respawns :: nat
  screen :: nat
  bells :: nat
  commands_done :: nat
  ended :: bool

definition counts_named :: "counts \<Rightarrow> (string \<times> nat) list" where
  "counts_named c =
     [(''respawns'', respawns c), (''screen'', screen c), (''bells'', bells c), (''done'', commands_done c),
      (''ended'', if ended c then 1 else 0)]"

text \<open>Whether a pane now at \<open>c\<close> can ever have been at \<open>then_\<close>.\<close>

definition counts_had :: "counts \<Rightarrow> counts \<Rightarrow> bool" where
  "counts_had c before \<longleftrightarrow>
     respawns before < respawns c \<or>
     respawns before = respawns c \<and> screen before \<le> screen c \<and> bells before \<le> bells c
       \<and> commands_done before \<le> commands_done c \<and> (ended before \<longrightarrow> ended c)"

definition counts_name :: "counts \<Rightarrow> str" where
  "counts_name c =
     digits 10 (respawns c) @ 46 # digits 10 (screen c) @ 46 # digits 10 (bells c) @ 46 # digits 10 (commands_done c)
       @ 46 # digits 10 (if ended c then 1 else 0)"

definition counts_from :: "str \<Rightarrow> counts option" where
  "counts_from t =
     (case map (number u64_max) (split_on 46 t) of
        [Some a, Some b, Some c, Some d, Some e] \<Rightarrow>
          (if e = 0 then Some \<lparr>respawns = a, screen = b, bells = c, commands_done = d, ended = False\<rparr>
           else if e = 1 then Some \<lparr>respawns = a, screen = b, bells = c, commands_done = d, ended = True\<rparr>
           else None)
      | _ \<Rightarrow> None)"

record version =
  ver_pane :: pane_id
  ver_counts :: counts
  ver_run :: run

definition version_name :: "version \<Rightarrow> str" where
  "version_name v = pane_name (ver_pane v) @ 58 # counts_name (ver_counts v) @ 58 # run_name (ver_run v)"

definition version_from :: "str \<Rightarrow> version option" where
  "version_from t =
     (case split_on 58 t of
        [pane, counts, run] \<Rightarrow>
          (case (pane_from pane, counts_from counts, run_from run) of
             (Inr p, Some c, Some r) \<Rightarrow>
               (let v = \<lparr>ver_pane = p, ver_counts = c, ver_run = r\<rparr> in if version_name v = t then Some v else None)
           | _ \<Rightarrow> None)
      | _ \<Rightarrow> None)"

record cursor =
  cur_seq :: nat
  cur_run :: run

definition cursor_name :: "cursor \<Rightarrow> str" where
  "cursor_name c = digits 10 (cur_seq c) @ 58 # run_name (cur_run c)"

definition cursor_from :: "str \<Rightarrow> cursor option" where
  "cursor_from t =
     (case split_once 58 t of
        None \<Rightarrow> None
      | Some (sq, run) \<Rightarrow>
          (case (number u64_max sq, run_from run) of
             (Some s, Some r) \<Rightarrow>
               (let c = \<lparr>cur_seq = s, cur_run = r\<rparr> in if cursor_name c = t then Some c else None)
           | _ \<Rightarrow> None))"

subsection \<open>What the types of their numbers hold to\<close>

definition run_ok :: "run \<Rightarrow> bool" where
  "run_ok r \<longleftrightarrow> run_pid r \<le> u32_max \<and> run_since r \<le> u64_max"
definition counts_ok :: "counts \<Rightarrow> bool" where
  "counts_ok c \<longleftrightarrow> respawns c \<le> u64_max \<and> screen c \<le> u64_max \<and> bells c \<le> u64_max \<and> commands_done c \<le> u64_max"
definition version_ok :: "version \<Rightarrow> bool" where
  "version_ok v \<longleftrightarrow> ver_pane v \<le> u32_max \<and> counts_ok (ver_counts v) \<and> run_ok (ver_run v)"
definition revision_ok :: "layout_revision \<Rightarrow> bool" where
  "revision_ok v \<longleftrightarrow> rev_tab v \<le> u32_max \<and> rev_serial v \<le> u64_max \<and> run_ok (rev_run v)"
definition cursor_ok :: "cursor \<Rightarrow> bool" where
  "cursor_ok c \<longleftrightarrow> cur_seq c \<le> u64_max \<and> run_ok (cur_run c)"

subsection \<open>One spelling\<close>

lemma separators: "unat b < 48 \<or> unat b = 58 \<Longrightarrow> b \<notin> set (digits 10 n)" "unat b < 48 \<or> unat b = 58 \<Longrightarrow> b \<notin> set (digits 16 n)"
  by (rule digits_not; simp)+

lemma run_from_name: "run_ok r \<Longrightarrow> run_from (run_name r) = Some r"
  by (simp add: run_from_def run_name_def run_ok_def split_once_part separators parse_digits Let_def)

lemma run_from_Some: "run_from t = Some r \<longleftrightarrow> t = run_name r \<and> run_ok r"
proof
  assume "run_from t = Some r"
  then show "t = run_name r \<and> run_ok r"
    by (auto simp: run_from_def run_ok_def Let_def split: option.splits if_splits dest!: parse_most)
qed (simp add: run_from_name)

lemma no_colon: "58 \<notin> set (run_name r)" "58 \<notin> set (counts_name c)" "58 \<notin> set (pane_name p)" "58 \<notin> set (tab_name p)"
  by (simp_all add: run_name_def counts_name_def pane_name_def tab_name_def id_name_def separators)

lemma counts_from_name: "counts_ok c \<Longrightarrow> counts_from (counts_name c) = Some c"
  by (cases c) (simp add: counts_from_def counts_name_def counts_ok_def split_on_part split_on_last separators number_digits u64_max_def)

lemma counts_from_ok: "counts_from t = Some c \<Longrightarrow> counts_ok c"
  by (auto simp: counts_from_def counts_ok_def split: list.splits option.splits if_splits dest!: number_most)

text \<open>
  C32: The text of a version is that of one version and no version has another
  text: a text is read as \<open>v\<close> exactly when it is what \<open>v\<close> is written as, each
  number within its type.
\<close>

theorem version_one_spelling:
  "version_from t = Some v \<longleftrightarrow> t = version_name v \<and> version_ok v"
proof
  assume "version_from t = Some v"
  then show "t = version_name v \<and> version_ok v"
    by (auto simp: version_from_def version_ok_def run_from_Some Let_def pane_from_def
        split: list.splits option.splits sum.splits if_splits dest: id_from_most counts_from_ok)
next
  assume v: "t = version_name v \<and> version_ok v"
  then have "split_on 58 t = [pane_name (ver_pane v), counts_name (ver_counts v), run_name (ver_run v)]"
    by (simp add: version_name_def split_on_part split_on_last no_colon)
  then show "version_from t = Some v"
    using v by (cases v) (simp add: version_from_def version_ok_def run_from_name counts_from_name pane_from_def
        pane_name_def id_from_name Let_def)
qed

text \<open>
  The same of a tab's layout revision, whose reader refuses a text of more
  than 60 bytes first: none it is written as is longer.
\<close>

lemma revision_one_spelling:
  "revision_from t = Some v \<longleftrightarrow> t = revision_name v \<and> revision_ok v"
proof
  assume "revision_from t = Some v"
  then show "t = revision_name v \<and> revision_ok v"
    by (auto simp: revision_from_def revision_ok_def run_from_Some Let_def tab_from_def
        split: list.splits option.splits sum.splits if_splits dest: id_from_most number_most)
next
  assume v: "t = revision_name v \<and> revision_ok v"
  then have parts: "split_on 58 t = [tab_name (rev_tab v), digits 10 (rev_serial v), run_name (rev_run v)]"
    by (simp add: revision_name_def split_on_part split_on_last no_colon separators)
  have "length (digits 10 (rev_tab v)) \<le> 10" "length (digits 10 (rev_serial v)) \<le> 20"
    "length (digits 10 (run_pid (rev_run v))) \<le> 10" "length (digits 16 (run_since (rev_run v))) \<le> 16"
    by (rule digits_length; use v in \<open>simp add: revision_ok_def run_ok_def u32_max_def u64_max_def\<close>)+
  moreover have "length t = 4 + length (digits 10 (rev_tab v)) + length (digits 10 (rev_serial v))
      + length (digits 10 (run_pid (rev_run v))) + length (digits 16 (run_since (rev_run v)))"
    using v by (simp add: revision_name_def run_name_def tab_name_def id_name_def)
  ultimately have "length t \<le> 60" by linarith
  then show "revision_from t = Some v"
    using v parts by (cases v) (simp add: revision_from_def revision_ok_def run_from_name tab_from_def tab_name_def
        id_from_name number_digits Let_def)
qed

lemma cursor_from_Some: "cursor_from t = Some c \<longleftrightarrow> t = cursor_name c \<and> cursor_ok c"
proof
  assume "cursor_from t = Some c"
  then show "t = cursor_name c \<and> cursor_ok c"
    by (auto simp: cursor_from_def cursor_ok_def run_from_Some Let_def
        split: option.splits if_splits dest!: number_most)
qed (simp add: cursor_from_def cursor_name_def cursor_ok_def split_once_part separators number_digits run_from_name)

end
