(* ===== verification/Vt_Keys.thy ===== *)
theory Vt_Keys
  imports Rust_Text Layout_Rect
begin

text \<open>
  Keys, their modifiers and their names (\<open>fux-vt/src/keys.rs\<close>): a press is
  normalised as it is made (\<open>key_press_new\<close>), written by \<open>Display\<close> and read
  by \<open>FromStr\<close>.  What is shown is that a normalised press is read back from
  the name it is written as, and that what is read is normalised.
\<close>

section \<open>Keys and presses\<close>

datatype key =
    KChar nat
  | KEnter | KTab | KEscape | KBackspace | KDelete | KInsert
  | KArrow direction
  | KHome | KEnd | KPageUp | KPageDown
  | KF nat

definition LAST :: nat where
  "LAST = 35"

definition function_new :: "nat \<Rightarrow> nat option" where
  "function_new n = (if 1 \<le> n \<and> n \<le> LAST then Some n else None)"

definition function_up_to :: "nat \<Rightarrow> key list" where
  "function_up_to n = map KF (List.map_filter function_new [1..<Suc n])"

record modifiers =
  ctrl :: bool
  alt :: bool
  shift :: bool

definition SHIFT_BIT :: nat where "SHIFT_BIT = 1"
definition ALT_BIT :: nat where "ALT_BIT = 2"
definition CTRL_BIT :: nat where "CTRL_BIT = 4"

definition mods_bits :: "modifiers \<Rightarrow> nat" where
  "mods_bits m =
     (let bit = (\<lambda>on b. if on then b else 0)
      in or (or (bit (shift m) SHIFT_BIT) (bit (alt m) ALT_BIT)) (bit (ctrl m) CTRL_BIT))"

definition mods_from_bits :: "nat \<Rightarrow> modifiers" where
  "mods_from_bits bits =
     (let on = (\<lambda>b. and bits b \<noteq> 0)
      in \<lparr>ctrl = on CTRL_BIT, alt = on ALT_BIT, shift = on SHIFT_BIT\<rparr>)"

definition NONE :: modifiers where
  "NONE = \<lparr>ctrl = False, alt = False, shift = False\<rparr>"

record key_press =
  key :: key
  mods :: modifiers

text \<open>
  A character's shift is dropped, as the character says it already, and a
  control letter is lower case.
\<close>

definition key_press_new :: "key \<Rightarrow> modifiers \<Rightarrow> key_press" where
  "key_press_new k m =
     (case k of
        KChar c \<Rightarrow>
          \<lparr>key = (if ctrl m then KChar (lower c) else if shift m then KChar (upper c) else k),
           mods = m\<lparr>shift := False\<rparr>\<rparr>
      | _ \<Rightarrow> \<lparr>key = k, mods = m\<rparr>)"

definition key_press_plain :: "key \<Rightarrow> key_press" where
  "key_press_plain k = key_press_new k NONE"

definition plain_key :: "key_press \<Rightarrow> key option" where
  "plain_key p = (if \<not> ctrl (mods p) \<and> \<not> alt (mods p) then Some (key p) else None)"

section \<open>Names\<close>

definition NAMED :: "(str \<times> key) list" where
  "NAMED =
     [(ascii ''Enter'', KEnter), (ascii ''Tab'', KTab), (ascii ''Escape'', KEscape),
      (ascii ''Space'', KChar 32), (ascii ''BSpace'', KBackspace),
      (ascii ''Up'', KArrow DUp), (ascii ''Down'', KArrow DDown),
      (ascii ''Left'', KArrow DLeft), (ascii ''Right'', KArrow DRight),
      (ascii ''Home'', KHome), (ascii ''End'', KEnd),
      (ascii ''PageUp'', KPageUp), (ascii ''PageDown'', KPageDown),
      (ascii ''Insert'', KInsert), (ascii ''Delete'', KDelete)]"

definition ALIASES :: "(str \<times> key) list" where
  "ALIASES =
     [(ascii ''PgUp'', KPageUp), (ascii ''PPage'', KPageUp), (ascii ''PgDn'', KPageDown),
      (ascii ''NPage'', KPageDown), (ascii ''IC'', KInsert), (ascii ''DC'', KDelete),
      (ascii ''Esc'', KEscape), (ascii ''Backspace'', KBackspace), (ascii ''Return'', KEnter),
      (ascii ''Del'', KDelete), (ascii ''Ins'', KInsert)]"

definition key_name :: "key \<Rightarrow> str" where
  "key_name k =
     (case find (\<lambda>(_, k'). k' = k) NAMED of
        Some (name, _) \<Rightarrow> name
      | None \<Rightarrow>
          (case k of
             KF n \<Rightarrow> ascii ''F'' @ digits 10 n
           | KChar c \<Rightarrow> utf8_encode c
           | _ \<Rightarrow> []))"

text \<open>\<open>Display for KeyPress\<close>.\<close>

definition press_name :: "key_press \<Rightarrow> str" where
  "press_name p =
     (let m = mods p
      in if key p = KTab \<and> shift m \<and> \<not> ctrl m \<and> \<not> alt m then ascii ''BTab''
         else (if ctrl m then ascii ''C-'' else []) @ (if alt m then ascii ''M-'' else [])
            @ (if shift m then ascii ''S-'' else []) @ key_name (key p))"

text \<open>\<open>split_at_checked(2)\<close>: none where the text is shorter, or 2 is inside a character.\<close>

definition split_at_2 :: "str \<Rightarrow> (str \<times> str) option" where
  "split_at_2 t =
     (case drop 2 t of
        [] \<Rightarrow> if length t = 2 then Some (t, []) else None
      | b # _ \<Rightarrow> if 0x80 \<le> b \<and> b < 0xc0 then None else Some (take 2 t, drop 2 t))"

lemma split_at_2_parts: "split_at_2 t = Some (p, r) \<Longrightarrow> t = p @ r \<and> length p = 2"
  by (cases t; cases "tl t") (auto simp: split_at_2_def split: list.splits if_splits)

text \<open>A prefix: whether it is held already, and it held.\<close>

definition prefix_of :: "str \<Rightarrow> modifiers \<Rightarrow> (bool \<times> modifiers) option" where
  "prefix_of p m =
     (if p = ascii ''C-'' \<or> p = ascii ''c-'' then Some (ctrl m, m\<lparr>ctrl := True\<rparr>)
      else if p = ascii ''M-'' \<or> p = ascii ''m-'' then Some (alt m, m\<lparr>alt := True\<rparr>)
      else if p = ascii ''S-'' \<or> p = ascii ''s-'' then Some (shift m, m\<lparr>shift := True\<rparr>)
      else None)"

text \<open>The prefixes of a name: none where a modifier is given twice.\<close>

function take_mods :: "modifiers \<Rightarrow> str \<Rightarrow> (modifiers \<times> str) option" where
  "take_mods m rest =
     (case split_at_2 rest of
        None \<Rightarrow> Some (m, rest)
      | Some (prefix, tail) \<Rightarrow>
          if tail = [] then Some (m, rest)
          else (case prefix_of prefix m of
                  None \<Rightarrow> Some (m, rest)
                | Some (held, m') \<Rightarrow> if held then None else take_mods m' tail))"
  by pat_completeness auto
termination
  by (relation "measure (\<lambda>(m, rest). length rest)")
    (auto dest: split_at_2_parts)

declare take_mods.simps [simp del]

definition named_key :: "str \<Rightarrow> key option" where
  "named_key t = map_option snd (find (\<lambda>(n, _). same_ignoring_case n t) (NAMED @ ALIASES))"

definition function_key :: "str \<Rightarrow> nat option" where
  "function_key t =
     (case t of
        [] \<Rightarrow> None
      | b # n \<Rightarrow> if b = 70 \<or> b = 102 then Option.bind (parse_radix 10 255 n) function_new else None)"

definition one_char :: "str \<Rightarrow> key option" where
  "one_char t =
     (case next_char t of
        None \<Rightarrow> None
      | Some (c, after) \<Rightarrow>
          (case next_char after of
             None \<Rightarrow> if is_control c then None else Some (KChar c)
           | Some _ \<Rightarrow> None))"

definition key_of :: "str \<Rightarrow> modifiers \<Rightarrow> (key \<times> modifiers) option" where
  "key_of t m =
     (if same_ignoring_case t (ascii ''BTab'') then Some (KTab, m\<lparr>shift := True\<rparr>)
      else (case named_key t of
              Some k \<Rightarrow> Some (k, m)
            | None \<Rightarrow>
                (case function_key t of
                   Some n \<Rightarrow> Some (KF n, m)
                 | None \<Rightarrow> map_option (\<lambda>k. (k, m)) (one_char t))))"

text \<open>\<open>FromStr for KeyPress\<close>.\<close>

definition press_from :: "str \<Rightarrow> key_press option" where
  "press_from name =
     (case take_mods NONE name of
        None \<Rightarrow> None
      | Some (m, rest) \<Rightarrow> map_option (\<lambda>(k, m'). key_press_new k m') (key_of rest m))"

definition all_names :: "str list" where
  "all_names = map fst NAMED @ [ascii ''BTab''] @ map key_name (function_up_to LAST)"

section \<open>A press is read back\<close>

text \<open>What a press holds: as \<open>new\<close> makes it, its key one there is, a character no control.\<close>

definition press_ok :: "key_press \<Rightarrow> bool" where
  "press_ok p \<longleftrightarrow> key_press_new (key p) (mods p) = p \<and>
     (case key p of
        KChar c \<Rightarrow> scalar c \<and> \<not> is_control c
      | KF n \<Rightarrow> function_new n = Some n
      | _ \<Rightarrow> True)"

subsection \<open>Prefixes\<close>

definition is_prefix :: "str \<Rightarrow> bool" where
  "is_prefix p \<longleftrightarrow> prefix_of p NONE \<noteq> None"

lemma prefix_of_None: "\<not> is_prefix p \<Longrightarrow> prefix_of p m = None"
  by (auto simp: is_prefix_def prefix_of_def split: if_splits)

text \<open>What the loop over the prefixes leaves as it is.\<close>

definition no_prefix :: "str \<Rightarrow> bool" where
  "no_prefix t \<longleftrightarrow> (case split_at_2 t of None \<Rightarrow> True | Some (p, r) \<Rightarrow> r = [] \<or> \<not> is_prefix p)"

definition leads :: "str \<Rightarrow> bool" where
  "leads t \<longleftrightarrow> (case t of [] \<Rightarrow> False | b # _ \<Rightarrow> unat b < 128 \<or> 192 \<le> unat b)"

lemma take_mods_stop: "no_prefix t \<Longrightarrow> take_mods m t = Some (m, t)"
  by (auto simp: no_prefix_def take_mods.simps [of m t] prefix_of_None split: option.splits)

lemma split_prefix: "length p = 2 \<Longrightarrow> leads t \<Longrightarrow> split_at_2 (p @ t) = Some (p, t)"
  by (auto simp: split_at_2_def leads_def word_le_nat_alt word_less_nat_alt split: list.splits)

lemma prefix_names:
  "ascii ''C-'' = [67, 45]" "ascii ''c-'' = [99, 45]" "ascii ''M-'' = [77, 45]"
  "ascii ''m-'' = [109, 45]" "ascii ''S-'' = [83, 45]" "ascii ''s-'' = [115, 45]"
  by code_simp+

lemma take_mods_prefix:
  assumes "leads t"
  shows "\<not> ctrl m \<Longrightarrow> take_mods m (ascii ''C-'' @ t) = take_mods (m\<lparr>ctrl := True\<rparr>) t"
    and "\<not> alt m \<Longrightarrow> take_mods m (ascii ''M-'' @ t) = take_mods (m\<lparr>alt := True\<rparr>) t"
    and "\<not> shift m \<Longrightarrow> take_mods m (ascii ''S-'' @ t) = take_mods (m\<lparr>shift := True\<rparr>) t"
proof -
  have t: "t \<noteq> []" using assms by (auto simp: leads_def)
  have split: "split_at_2 (p @ t) = Some (p, t)" if "length p = 2" for p using split_prefix [OF that assms] .
  show "\<not> ctrl m \<Longrightarrow> take_mods m (ascii ''C-'' @ t) = take_mods (m\<lparr>ctrl := True\<rparr>) t"
    "\<not> alt m \<Longrightarrow> take_mods m (ascii ''M-'' @ t) = take_mods (m\<lparr>alt := True\<rparr>) t"
    "\<not> shift m \<Longrightarrow> take_mods m (ascii ''S-'' @ t) = take_mods (m\<lparr>shift := True\<rparr>) t"
    using split [of "ascii ''C-''"] split [of "ascii ''M-''"] split [of "ascii ''S-''"] t
    by (simp_all add: prefix_names take_mods.simps [of m "_ # _"] prefix_of_def)
qed

lemma leads_prefix: "leads t \<Longrightarrow> leads (ascii ''C-'' @ t) \<and> leads (ascii ''M-'' @ t) \<and> leads (ascii ''S-'' @ t)"
  by (simp add: prefix_names leads_def)

lemma take_mods_names:
  assumes "leads t" "no_prefix t"
  shows "take_mods NONE ((if ctrl m then ascii ''C-'' else []) @ (if alt m then ascii ''M-'' else [])
    @ (if shift m then ascii ''S-'' else []) @ t) = Some (m, t)"
proof -
  obtain c a s where m: "m = \<lparr>ctrl = c, alt = a, shift = s\<rparr>" by (cases m)
  note leads = assms(1) leads_prefix [OF assms(1)]
  have l2: "leads (ascii ''M-'' @ ascii ''S-'' @ t)" using leads leads_prefix by blast
  show ?thesis
    unfolding m NONE_def using assms leads l2
    by (cases c; cases a; cases s) (simp_all add: take_mods_prefix take_mods_stop)
qed

subsection \<open>Each key by its name\<close>

definition named_ok :: "key \<Rightarrow> bool" where
  "named_ok k \<longleftrightarrow> leads (key_name k) \<and> no_prefix (key_name k)
     \<and> \<not> same_ignoring_case (key_name k) (ascii ''BTab'')
     \<and> (case named_key (key_name k) of
          Some k' \<Rightarrow> k' = k
        | None \<Rightarrow>
            (case function_key (key_name k) of
               Some n \<Rightarrow> k = KF n
             | None \<Rightarrow> one_char (key_name k) = Some k))"

lemma key_of_name: "named_ok k \<Longrightarrow> key_of (key_name k) m = Some (k, m)"
  by (auto simp: named_ok_def key_of_def split: option.splits)

text \<open>The tables with their texts written out, and as they are compared: in lower case.\<close>

lemma NAMED_lits: "NAMED = [([69, 110, 116, 101, 114], KEnter),
   ([84, 97, 98], KTab),
   ([69, 115, 99, 97, 112, 101], KEscape),
   ([83, 112, 97, 99, 101], KChar 32),
   ([66, 83, 112, 97, 99, 101], KBackspace),
   ([85, 112], KArrow DUp),
   ([68, 111, 119, 110], KArrow DDown),
   ([76, 101, 102, 116], KArrow DLeft),
   ([82, 105, 103, 104, 116], KArrow DRight),
   ([72, 111, 109, 101], KHome),
   ([69, 110, 100], KEnd),
   ([80, 97, 103, 101, 85, 112], KPageUp),
   ([80, 97, 103, 101, 68, 111, 119, 110], KPageDown),
   ([73, 110, 115, 101, 114, 116], KInsert),
   ([68, 101, 108, 101, 116, 101], KDelete)]"
  by (simp add: NAMED_def ascii_def byte_of_def)

definition LOWERED :: "(nat list \<times> key) list" where
  "LOWERED =
     [([101, 110, 116, 101, 114], KEnter),
      ([116, 97, 98], KTab),
      ([101, 115, 99, 97, 112, 101], KEscape),
      ([115, 112, 97, 99, 101], KChar 32),
      ([98, 115, 112, 97, 99, 101], KBackspace),
      ([117, 112], KArrow DUp),
      ([100, 111, 119, 110], KArrow DDown),
      ([108, 101, 102, 116], KArrow DLeft),
      ([114, 105, 103, 104, 116], KArrow DRight),
      ([104, 111, 109, 101], KHome),
      ([101, 110, 100], KEnd),
      ([112, 97, 103, 101, 117, 112], KPageUp),
      ([112, 97, 103, 101, 100, 111, 119, 110], KPageDown),
      ([105, 110, 115, 101, 114, 116], KInsert),
      ([100, 101, 108, 101, 116, 101], KDelete),
      ([112, 103, 117, 112], KPageUp),
      ([112, 112, 97, 103, 101], KPageUp),
      ([112, 103, 100, 110], KPageDown),
      ([110, 112, 97, 103, 101], KPageDown),
      ([105, 99], KInsert),
      ([100, 99], KDelete),
      ([101, 115, 99], KEscape),
      ([98, 97, 99, 107, 115, 112, 97, 99, 101], KBackspace),
      ([114, 101, 116, 117, 114, 110], KEnter),
      ([100, 101, 108], KDelete),
      ([105, 110, 115], KInsert)]"

lemma LOWERED_eq: "LOWERED = map (\<lambda>(n, k). (map (lower \<circ> unat) n, k)) (NAMED @ ALIASES)"
  by (simp add: LOWERED_def NAMED_def ALIASES_def ascii_def byte_of_def lower_def)

lemma find_map: "find P (map f xs) = map_option f (find (P \<circ> f) xs)"
  by (induction xs) auto

lemma named_key_lowered: "named_key t = map_option snd (find (\<lambda>(n, _). n = map (lower \<circ> unat) t) LOWERED)"
proof -
  have "(\<lambda>(n, _). n = map (lower \<circ> unat) t) \<circ> (\<lambda>(n, k). (map (lower \<circ> unat) n, k))
      = (\<lambda>(n, k :: key). same_ignoring_case n t)" by (auto simp: fun_eq_iff same_ignoring_case_def)
  then show ?thesis
    by (simp add: LOWERED_eq named_key_def find_map option.map_comp comp_def case_prod_beta del: map_append)
qed

lemma btab_lowered: "same_ignoring_case t (ascii ''BTab'') \<longleftrightarrow> map (lower \<circ> unat) t = [98, 116, 97, 98]"
  by (simp add: same_ignoring_case_def ascii_def byte_of_def lower_def)

lemma named_ok_table: "\<forall>(n, k) \<in> set NAMED. named_ok k"
  by (simp add: NAMED_lits named_ok_def key_name_def btab_lowered named_key_lowered LOWERED_def lower_def
      leads_def no_prefix_def split_at_2_def is_prefix_def prefix_of_def prefix_names)

text \<open>A name that begins with neither a letter of a name nor so on is no named key's.\<close>

lemma not_named:
  assumes "\<forall>(n, _) \<in> set LOWERED. n \<noteq> map (lower \<circ> unat) t"
  shows "named_key t = None"
proof -
  have "find (\<lambda>(n, _). n = map (lower \<circ> unat) t) xs = None"
    if "\<forall>(n, _) \<in> set xs. n \<noteq> map (lower \<circ> unat) t" for xs :: "(nat list \<times> key) list"
    using that by (induction xs) auto
  then show ?thesis using assms by (simp add: named_key_lowered)
qed

lemma lowered_letters: "\<forall>(n, _) \<in> set LOWERED. 2 \<le> length n \<and> hd n < 128 \<and> hd n \<noteq> 102"
  by (simp add: LOWERED_def)

lemma ascii_F: "ascii ''F'' = [70]"
  by (simp add: ascii_def byte_of_def)

lemma named_ok_function:
  assumes "function_new n = Some n"
  shows "named_ok (KF n)"
proof -
  have n: "n \<le> 35" "1 \<le> n" using assms by (auto simp: function_new_def LAST_def split: if_splits)
  have name: "key_name (KF n) = 70 # digits 10 n" by (simp add: key_name_def NAMED_def ascii_F)
  have "length (digits 10 n) \<le> 2" by (rule digits_length) (use n in simp_all)
  then have btab: "\<not> same_ignoring_case (70 # digits 10 n) (ascii ''BTab'')"
    by (auto simp: btab_lowered dest!: arg_cong [where f = length])
  have "named_key (70 # digits 10 n) = None"
    using lowered_letters by (intro not_named) (auto simp: lower_def)
  moreover have "function_key (70 # digits 10 n) = Some n"
    using n assms by (simp add: function_key_def parse_digits)
  moreover have "\<not> is_prefix (take 2 (70 # x))" for x
    by (cases x) (auto simp: is_prefix_def prefix_of_def prefix_names)
  then have "no_prefix (70 # digits 10 n)"
    by (auto simp: no_prefix_def split_at_2_def split: list.splits if_splits)
  ultimately show ?thesis by (simp add: named_ok_def name btab leads_def)
qed

lemma named_ok_char:
  assumes "scalar c" "\<not> is_control c" "c \<noteq> 32"
  shows "named_ok (KChar c)"
proof -
  have name: "key_name (KChar c) = utf8_encode c" using assms(3) by (simp add: key_name_def NAMED_def)
  have one: "one_char (utf8_encode c) = Some (KChar c)"
    using next_char_encode [OF assms(1), of "[]"] assms(2) by (simp add: one_char_def next_char_def [of "[]"])
  show ?thesis
  proof (cases "c < 128")
    case True
    then have e: "utf8_encode c = [byte_of c]" "unat (byte_of c) < 128" by (simp_all add: utf8_encode_def unat_byte_of)
    have "named_key [byte_of c] = None" using lowered_letters by (intro not_named) auto
    then show ?thesis
      using one by (simp add: named_ok_def name e leads_def no_prefix_def split_at_2_def btab_lowered function_key_def parse_radix_def)
  next
    case False
    then obtain b bs where e: "utf8_encode c = b # bs" "192 \<le> unat b" "bs \<noteq> []" "\<forall>x \<in> set bs. 128 \<le> unat x \<and> unat x < 192"
      using utf8_shape [OF assms(1)] by (metis not_less)
    have "named_key (b # bs) = None" using lowered_letters e(2) by (intro not_named) (auto simp: lower_def)
    moreover have "b \<noteq> 70" "b \<noteq> 102" using e(2) by auto
    moreover have "no_prefix (b # bs)"
    proof (cases "tl bs")
      case Nil
      then have "length bs = 1" using e(3) by (cases bs) auto
      then show ?thesis by (cases bs) (auto simp: no_prefix_def split_at_2_def)
    next
      case (Cons x xs)
      then have "x \<in> set bs" by (cases bs) auto
      then have "128 \<le> x" "x < 192" using e(4) by (simp_all add: word_le_nat_alt word_less_nat_alt)
      then show ?thesis using Cons by (cases bs) (simp_all add: no_prefix_def split_at_2_def)
    qed
    ultimately show ?thesis
      using one e(2) by (simp add: named_ok_def name e(1) leads_def btab_lowered function_key_def lower_def)
  qed
qed

lemma named_ok_all:
  assumes "press_ok p"
  shows "named_ok (key p)"
proof (cases "\<exists>n. (n, key p) \<in> set NAMED")
  case True
  then show ?thesis using named_ok_table by blast
next
  case False
  then show ?thesis
    using assms by (cases "key p" rule: key.exhaust)
      (auto simp: press_ok_def NAMED_lits named_ok_function intro: named_ok_char direction.exhaust split: direction.splits)
qed

subsection \<open>What is read is a press\<close>

definition key_ok :: "key \<Rightarrow> bool" where
  "key_ok k \<longleftrightarrow> (case k of KChar c \<Rightarrow> scalar c \<and> \<not> is_control c | KF n \<Rightarrow> function_new n = Some n | _ \<Rightarrow> True)"

lemma letter_cases: "scalar (lower c) = scalar c" "scalar (upper c) = scalar c"
  "is_control (lower c) = is_control c" "is_control (upper c) = is_control c" "lower (lower c) = lower c"
  by (auto simp: lower_def upper_def scalar_def is_control_def)

lemma press_ok_new: "key_ok k \<Longrightarrow> press_ok (key_press_new k m)"
  by (cases k) (auto simp: press_ok_def key_ok_def key_press_new_def letter_cases)

lemma next_char_scalar: "next_char t = Some (c, r) \<Longrightarrow> scalar c"
  using unat_byte by (auto simp: next_char_def byte_less_80 scalar_def split: list.splits if_splits dest: decode_sound)

lemma key_of_ok: "key_of t m = Some (k, m') \<Longrightarrow> key_ok k"
proof -
  have table: "\<forall>(n, k) \<in> set LOWERED. key_ok k"
    by (simp add: LOWERED_def key_ok_def scalar_def is_control_def)
  have find: "find P xs = Some x \<Longrightarrow> x \<in> set xs" for P and x :: "nat list \<times> key" and xs
    by (induction xs) (auto split: if_splits)
  have named: "key_ok k" if "named_key t = Some k" for k
    using that table by (auto simp: named_key_lowered dest!: find)
  show "key_of t m = Some (k, m') \<Longrightarrow> key_ok k"
    using named next_char_scalar
    by (auto simp: key_of_def function_key_def function_new_def one_char_def key_ok_def
        split: if_splits option.splits list.splits Option.bind_splits)
qed

lemma press_from_ok: "press_from t = Some p \<Longrightarrow> press_ok p"
  by (auto simp: press_from_def split: option.splits intro: press_ok_new key_of_ok)

lemma press_name_reads:
  assumes "press_ok p"
  shows "press_from (press_name p) = Some p"
proof -
  note named = named_ok_all [OF assms]
  have new: "key_press_new (key p) (mods p) = p" using assms by (simp add: press_ok_def)
  show ?thesis
  proof (cases "key p = KTab \<and> shift (mods p) \<and> \<not> ctrl (mods p) \<and> \<not> alt (mods p)")
    case True
    then have name: "press_name p = [66, 84, 97, 98]" by (simp add: press_name_def ascii_def byte_of_def)
    have "no_prefix [66, 84, 97, 98]"
      by (simp add: no_prefix_def split_at_2_def is_prefix_def prefix_of_def prefix_names)
    then have "press_from (press_name p) = Some (key_press_new KTab (NONE\<lparr>shift := True\<rparr>))"
      by (simp add: press_from_def name take_mods_stop key_of_def btab_lowered lower_def)
    moreover have "NONE\<lparr>shift := True\<rparr> = mods p" using True by (cases "mods p") (auto simp: NONE_def)
    ultimately show ?thesis using True new by simp
  next
    case False
    have "leads (key_name (key p))" "no_prefix (key_name (key p))" using named by (simp_all add: named_ok_def)
    then have "take_mods NONE (press_name p) = Some (mods p, key_name (key p))"
      using take_mods_names [of "key_name (key p)" "mods p"] False by (simp only: press_name_def Let_def if_False)
    then show ?thesis using new by (simp add: press_from_def key_of_name [OF named])
  qed
qed

text \<open>
  C30: A key press written and read is itself: for every press as \<open>new\<close> makes
  it, of any key but a control character, \<open>FromStr\<close> of what \<open>Display\<close> writes
  gives the press back, its modifiers included.
\<close>

theorem press_reads_back:
  assumes "press_ok p"
  shows "press_from (press_name p) = Some p"
  by (rule press_name_reads [OF assms])

theorem press_reads_back_witness:
  "press_from (press_name \<lparr>key = KChar 0x754c, mods = \<lparr>ctrl = True, alt = True, shift = False\<rparr>\<rparr>)
   = Some \<lparr>key = KChar 0x754c, mods = \<lparr>ctrl = True, alt = True, shift = False\<rparr>\<rparr>"
  by (rule press_reads_back) (simp add: press_ok_def key_press_new_def lower_def scalar_def is_control_def)

end
