(* ===== verification/Wire_Values.thy ===== *)
theory Wire_Values
  imports Wire_Base Wire_Id Vt_Keys
begin

text \<open>
  The values of a few bytes: closed sets by their place (\<open>closed_wire!\<close>), values
  by their spelling (\<open>text_wire!\<close>: keys and codes), ids and tokens, numbers in a
  range, sizes.  Each is a \<open>codec\<close> on what its type admits, so what is refused
  as it is read is exactly what its constructor refuses.
\<close>

section \<open>Closed sets\<close>

definition put_closed :: "'a list \<Rightarrow> 'a \<Rightarrow> byte list" where
  "put_closed all x =
     (case position (\<lambda>v. v = x) all of
        Some p \<Rightarrow> if p < 256 then put_u8 p else put_u8 255
      | None \<Rightarrow> put_u8 255)"

definition get_closed :: "'a list \<Rightarrow> string \<Rightarrow> 'a reader" where
  "get_closed all what = reads get_u8 (\<lambda>tag.
     case get_at all tag of Some x \<Rightarrow> give x | None \<Rightarrow> refuse (Bad_Tag what tag))"

lemma codec_closed:
  assumes "length all \<le> 256" "\<forall>x. x \<in> set all"
  shows "codec (put_closed all) (get_closed all what) any_of"
proof (rule codec.intro)
  fix x rest
  obtain p where p: "position (\<lambda>v. v = x) all = Some p"
    using assms(2) position_None_iff [of "\<lambda>v. v = x" all] by (cases "position (\<lambda>v. v = x) all") auto
  then have "p < length all" "all ! p = x" using position_Some [OF p] by simp_all
  then show "get_closed all what (put_closed all x @ rest) = Inr (x, rest)"
    using p assms(1) by (simp add: put_closed_def get_closed_def codec_simps get_at_def)
next
  have "steady (case get_at all tag of Some x \<Rightarrow> give x | None \<Rightarrow> refuse (Bad_Tag what tag)) any_of" for tag
    by (cases "get_at all tag") (auto intro: codec_intros)
  then show "takes (get_closed all what) any_of"
    unfolding get_closed_def by (rule takes_reads [OF u8.takes])
qed

definition direction_all :: "direction list" where
  "direction_all = [DLeft, DRight, DUp, DDown]"

definition put_direction :: "direction \<Rightarrow> byte list" where
  "put_direction = put_closed direction_all"
definition get_direction :: "direction reader" where
  "get_direction = get_closed direction_all ''direction''"

lemma direction_in_all: "d \<in> set direction_all"
  by (cases d) (simp_all add: direction_all_def)

interpretation direction: codec put_direction get_direction any_of
  unfolding put_direction_def get_direction_def
  by (rule codec_closed) (simp_all add: direction_in_all, simp add: direction_all_def)

text \<open>\<open>Signal\<close>, of \<open>fuxix/src/process.rs\<close>.\<close>

datatype signal =
    Sig_Hup | Sig_Int | Sig_Term | Sig_Kill | Sig_Stop | Sig_Tstp | Sig_Cont | Sig_Winch | Sig_Quit
  | Sig_Usr1 | Sig_Usr2 | Sig_Ill | Sig_Abrt | Sig_Fpe | Sig_Segv | Sig_Pipe | Sig_Alrm | Sig_Bus
  | Sig_Trap | Sig_Sys | Sig_Xcpu | Sig_Xfsz | Sig_Vtalrm | Sig_Prof | Sig_Ttin | Sig_Ttou | Sig_Urg | Sig_Chld

definition signal_all :: "signal list" where
  "signal_all =
     [Sig_Hup, Sig_Int, Sig_Term, Sig_Kill, Sig_Stop, Sig_Tstp, Sig_Cont, Sig_Winch, Sig_Quit,
      Sig_Usr1, Sig_Usr2, Sig_Ill, Sig_Abrt, Sig_Fpe, Sig_Segv, Sig_Pipe, Sig_Alrm, Sig_Bus,
      Sig_Trap, Sig_Sys, Sig_Xcpu, Sig_Xfsz, Sig_Vtalrm, Sig_Prof, Sig_Ttin, Sig_Ttou, Sig_Urg, Sig_Chld]"

definition put_signal :: "signal \<Rightarrow> byte list" where
  "put_signal = put_closed signal_all"
definition get_signal :: "signal reader" where
  "get_signal = get_closed signal_all ''signal''"

lemma signal_in_all: "s \<in> set signal_all"
  by (cases s) (simp_all add: signal_all_def)

interpretation signal: codec put_signal get_signal any_of
  unfolding put_signal_def get_signal_def
  by (rule codec_closed) (simp_all add: signal_in_all, simp add: signal_all_def)

section \<open>Values by their spelling\<close>

definition put_spelt :: "('a \<Rightarrow> str) \<Rightarrow> 'a \<Rightarrow> byte list" where
  "put_spelt name x = put_text (name x)"

text \<open>Only the text \<open>put\<close> writes for the value (\<open>writes_exactly\<close>).\<close>

definition get_spelt :: "('a \<Rightarrow> str) \<Rightarrow> (str \<Rightarrow> 'a option) \<Rightarrow> string \<Rightarrow> 'a reader" where
  "get_spelt name from_str what = reads get_text (\<lambda>t.
     case from_str t of
       None \<Rightarrow> refuse (Bad_Value what)
     | Some x \<Rightarrow> if name x = t then give x else refuse (Bad_Value what))"

lemma codec_spelt:
  assumes "\<And>x. ok x \<Longrightarrow> from_str (name x) = Some x" "\<And>x. ok x \<Longrightarrow> ok_text (name x)"
    and "\<And>t x. from_str t = Some x \<Longrightarrow> ok x"
  shows "codec (put_spelt name) (get_spelt name from_str what) ok"
proof (rule codec.intro)
  show "get_spelt name from_str what (put_spelt name x @ rest) = Inr (x, rest)" if "ok x" for x rest
    using assms(1,2) [OF that] by (simp add: put_spelt_def get_spelt_def codec_simps)
next
  have "steady (case from_str t of None \<Rightarrow> refuse (Bad_Value what)
      | Some x \<Rightarrow> if name x = t then give x else refuse (Bad_Value what)) ok" for t
    using assms(3) by (cases "from_str t") (auto intro: codec_intros)
  then show "takes (get_spelt name from_str what) ok"
    unfolding get_spelt_def by (rule takes_reads [OF str.takes])
qed

definition put_key :: "key_press \<Rightarrow> byte list" where
  "put_key = put_spelt press_name"
definition get_key :: "key_press reader" where
  "get_key = get_spelt press_name press_from ''key''"

definition ascii_text :: "str \<Rightarrow> bool" where
  "ascii_text t \<longleftrightarrow> (\<forall>b \<in> set t. unat b < 128)"

lemma key_name_text:
  assumes "key_ok k"
  shows "utf8_valid (key_name k) \<and> length (key_name k) \<le> 8"
proof (cases "\<exists>n. (n, k) \<in> set NAMED")
  case True
  have "\<forall>(n, k) \<in> set NAMED. utf8_valid (key_name k) \<and> length (key_name k) \<le> 8"
    by (simp add: NAMED_lits key_name_def byte_less_80)
  then show ?thesis using True by blast
next
  case False
  show ?thesis
  proof (cases k)
    case (KChar c)
    then have "c \<noteq> 32" using False by (auto simp: NAMED_lits)
    then have "key_name k = utf8_encode c" using KChar by (simp add: key_name_def NAMED_def)
    then show ?thesis using KChar assms utf8_valid_encode [of c "[]"] by (simp add: key_ok_def utf8_encode_def)
  next
    case (KF n)
    then have n: "n \<le> 35" using assms by (simp add: key_ok_def function_new_def LAST_def split: if_splits)
    have name: "key_name k = 70 # digits 10 n" using KF by (simp add: key_name_def NAMED_def ascii_F)
    have "length (digits 10 n) \<le> 2" by (rule digits_length) (use n in simp_all)
    moreover have "\<forall>b \<in> set (digits 10 n). unat b < 128"
      by (auto dest!: digits_syms [rotated] simp: digit_sym_def unat_byte_of)
    then have "utf8_valid (digits 10 n)" using ascii_valid [of "digits 10 n" "[]"] by simp
    ultimately show ?thesis by (simp add: name byte_less_80)
  next
    case (KArrow d)
    then show ?thesis using False by (cases d) (auto simp: NAMED_lits)
  qed (use False in \<open>auto simp: NAMED_lits\<close>)
qed

lemma press_name_text:
  assumes "press_ok p"
  shows "ok_text (press_name p)"
proof -
  have "key_ok (key p)" using assms by (simp add: press_ok_def key_ok_def)
  from key_name_text [OF this] show ?thesis
    by (auto simp: ok_text_def press_name_def Let_def prefix_names byte_less_80 ascii_def byte_of_def)
qed

interpretation key: codec put_key get_key press_ok
  unfolding put_key_def get_key_def
  by (rule codec_spelt) (rule press_name_reads, assumption, erule press_name_text, erule press_from_ok)

definition put_code :: "code \<Rightarrow> byte list" where
  "put_code = put_spelt code_name"
definition get_code :: "code reader" where
  "get_code = get_spelt code_name code_from ''code''"

lemma code_name_text: "ok_text (code_name c)"
  by (cases c) (simp_all add: ok_text_def ascii_def byte_of_def byte_less_80)

interpretation code: codec put_code get_code any_of
  unfolding put_code_def get_code_def
  by (rule codec_spelt) (simp_all add: code_from_name code_name_text)

section \<open>Ids and tokens\<close>

text \<open>An id goes as its number.\<close>

definition put_id :: "nat \<Rightarrow> byte list" where
  "put_id = put_u32"
definition get_id :: "nat reader" where
  "get_id = get_u32"

interpretation id: exact_codec put_id get_id ok_u32
  unfolding put_id_def get_id_def by (rule u32.exact_codec_axioms)

definition put_run :: "run \<Rightarrow> byte list" where
  "put_run r = put_u32 (run_pid r) @ put_u64 (run_since r)"
definition get_run :: "run reader" where
  "get_run = reads get_u32 (\<lambda>p. reads get_u64 (\<lambda>s. give \<lparr>run_pid = p, run_since = s\<rparr>))"

lemma max_less: "n \<le> u32_max \<longleftrightarrow> n < 2 ^ 32" "n \<le> u64_max \<longleftrightarrow> n < 2 ^ 64"
  by (auto simp: u32_max_def u64_max_def)

lemmas token_ok = run_ok_def counts_ok_def version_ok_def revision_ok_def cursor_ok_def max_less

interpretation run: exact_codec put_run get_run run_ok
proof unfold_locales
  show "get_run (put_run r @ rest) = Inr (r, rest)" if "run_ok r" for r rest
    using that by (simp add: put_run_def get_run_def token_ok codec_simps)
  show "takes get_run run_ok"
    unfolding get_run_def by (rule codec_intros | simp add: token_ok)+
  show "bs = put_run x @ rest" if "get_run bs = Inr (x, rest)" for bs x rest
    using that by (auto simp: get_run_def put_run_def reads_Inr_iff give_def dest!: u32.exact u64.exact)
qed

definition put_counts :: "counts \<Rightarrow> byte list" where
  "put_counts c = put_u64 (respawns c) @ put_u64 (screen c) @ put_u64 (bells c) @ put_u64 (commands_done c) @ put_bool (ended c)"
definition get_counts :: "counts reader" where
  "get_counts = reads get_u64 (\<lambda>a. reads get_u64 (\<lambda>b. reads get_u64 (\<lambda>c. reads get_u64 (\<lambda>d. reads get_bool (\<lambda>e.
     give \<lparr>respawns = a, screen = b, bells = c, commands_done = d, ended = e\<rparr>)))))"

interpretation counts: exact_codec put_counts get_counts counts_ok
proof unfold_locales
  show "get_counts (put_counts c @ rest) = Inr (c, rest)" if "counts_ok c" for c rest
    using that by (simp add: put_counts_def get_counts_def token_ok codec_simps)
  show "takes get_counts counts_ok"
    unfolding get_counts_def by (rule codec_intros | simp add: token_ok)+
  show "bs = put_counts x @ rest" if "get_counts bs = Inr (x, rest)" for bs x rest
    using that by (auto simp: get_counts_def put_counts_def reads_Inr_iff give_def dest!: u64.exact bool.exact)
qed

definition put_version :: "version \<Rightarrow> byte list" where
  "put_version v = put_id (ver_pane v) @ put_counts (ver_counts v) @ put_run (ver_run v)"
definition get_version :: "version reader" where
  "get_version = reads get_id (\<lambda>p. reads get_counts (\<lambda>c. reads get_run (\<lambda>r.
     give \<lparr>ver_pane = p, ver_counts = c, ver_run = r\<rparr>)))"

interpretation version: exact_codec put_version get_version version_ok
proof unfold_locales
  show "get_version (put_version v @ rest) = Inr (v, rest)" if "version_ok v" for v rest
    using that by (simp add: put_version_def get_version_def version_ok_def max_less codec_simps)
  show "takes get_version version_ok"
    unfolding get_version_def by (rule codec_intros | simp add: version_ok_def max_less)+
  show "bs = put_version x @ rest" if "get_version bs = Inr (x, rest)" for bs x rest
    using that by (auto simp: get_version_def put_version_def reads_Inr_iff give_def dest!: id.exact counts.exact run.exact)
qed

definition put_revision :: "layout_revision \<Rightarrow> byte list" where
  "put_revision v = put_id (rev_tab v) @ put_u64 (rev_serial v) @ put_run (rev_run v)"
definition get_revision :: "layout_revision reader" where
  "get_revision = reads get_id (\<lambda>t. reads get_u64 (\<lambda>s. reads get_run (\<lambda>r.
     give \<lparr>rev_tab = t, rev_serial = s, rev_run = r\<rparr>)))"

interpretation revision: exact_codec put_revision get_revision revision_ok
proof unfold_locales
  show "get_revision (put_revision v @ rest) = Inr (v, rest)" if "revision_ok v" for v rest
    using that by (simp add: put_revision_def get_revision_def revision_ok_def max_less codec_simps)
  show "takes get_revision revision_ok"
    unfolding get_revision_def by (rule codec_intros | simp add: revision_ok_def max_less)+
  show "bs = put_revision x @ rest" if "get_revision bs = Inr (x, rest)" for bs x rest
    using that by (auto simp: get_revision_def put_revision_def reads_Inr_iff give_def dest!: id.exact u64.exact run.exact)
qed

definition put_cursor :: "cursor \<Rightarrow> byte list" where
  "put_cursor c = put_u64 (cur_seq c) @ put_run (cur_run c)"
definition get_cursor :: "cursor reader" where
  "get_cursor = reads get_u64 (\<lambda>s. reads get_run (\<lambda>r. give \<lparr>cur_seq = s, cur_run = r\<rparr>))"

interpretation cursor: exact_codec put_cursor get_cursor cursor_ok
proof unfold_locales
  show "get_cursor (put_cursor c @ rest) = Inr (c, rest)" if "cursor_ok c" for c rest
    using that by (simp add: put_cursor_def get_cursor_def cursor_ok_def max_less codec_simps)
  show "takes get_cursor cursor_ok"
    unfolding get_cursor_def by (rule codec_intros | simp add: cursor_ok_def max_less)+
  show "bs = put_cursor x @ rest" if "get_cursor bs = Inr (x, rest)" for bs x rest
    using that by (auto simp: get_cursor_def put_cursor_def reads_Inr_iff give_def dest!: u64.exact run.exact)
qed

text \<open>
  A version on the wire has one encoding: bytes are read whole as a version
  exactly when they are the ones it is written as and its numbers are their
  types'.
\<close>

lemma version_one_encoding:
  "whole get_version bs = Inr v \<longleftrightarrow> version_ok v \<and> bs = put_version v"
  by (rule version.one_encoding)

section \<open>Numbers in a range\<close>

text \<open>\<open>Number<MIN, MAX>\<close>: a \<open>usize\<close> from \<open>lo\<close> to \<open>hi\<close>.\<close>

definition number_new :: "nat \<Rightarrow> nat \<Rightarrow> nat \<Rightarrow> nat option" where
  "number_new lo hi n = (if lo \<le> n \<and> n \<le> hi then Some n else None)"

definition put_number :: "nat \<Rightarrow> byte list" where
  "put_number = put_usize"
definition get_number :: "nat \<Rightarrow> nat \<Rightarrow> nat reader" where
  "get_number lo hi = reads get_usize (\<lambda>n.
     case number_new lo hi n of Some m \<Rightarrow> give m | None \<Rightarrow> refuse (Bad_Value ''number''))"

lemma codec_number: "codec put_number (get_number lo hi) (\<lambda>n. lo \<le> n \<and> n \<le> hi \<and> ok_u64 n)"
proof (rule codec.intro)
  show "get_number lo hi (put_number n @ rest) = Inr (n, rest)" if "lo \<le> n \<and> n \<le> hi \<and> ok_u64 n" for n rest
    using that by (simp add: put_number_def get_number_def number_new_def codec_simps)
  have "steady (case number_new lo hi n of Some m \<Rightarrow> give m | None \<Rightarrow> refuse (Bad_Value ''number''))
      (\<lambda>n. lo \<le> n \<and> n \<le> hi \<and> ok_u64 n)" if "ok_u64 n" for n
    using that by (simp add: number_new_def steady_give steady_refuse)
  then show "takes (get_number lo hi) (\<lambda>n. lo \<le> n \<and> n \<le> hi \<and> ok_u64 n)"
    unfolding get_number_def by (rule takes_reads [OF usize.takes])
qed

definition HISTORY_MOST :: nat where
  "HISTORY_MOST = 2 ^ 63 - 1"
definition PICTURE_BYTES :: nat where
  "PICTURE_BYTES = 96 * 2 ^ 20"

interpretation history_bytes: codec put_number "get_number 0 HISTORY_MOST" "\<lambda>n. 0 \<le> n \<and> n \<le> HISTORY_MOST \<and> ok_u64 n"
  by (rule codec_number)
interpretation picture_bytes: codec put_number "get_number 0 PICTURE_BYTES" "\<lambda>n. 0 \<le> n \<and> n \<le> PICTURE_BYTES \<and> ok_u64 n"
  by (rule codec_number)

text \<open>\<open>ScrollLines\<close> and \<open>Percent\<close>.\<close>

definition scroll_lines_new :: "nat \<Rightarrow> nat option" where
  "scroll_lines_new n = (if n \<le> u16_max \<and> n \<le> 32767 then Some n else None)"

definition put_scroll_lines :: "nat \<Rightarrow> byte list" where
  "put_scroll_lines = put_u16"
definition get_scroll_lines :: "nat reader" where
  "get_scroll_lines = reads get_u16 (\<lambda>n.
     case scroll_lines_new n of Some m \<Rightarrow> give m | None \<Rightarrow> refuse (Bad_Value ''scroll lines''))"
definition ok_scroll_lines :: "nat \<Rightarrow> bool" where
  "ok_scroll_lines n \<longleftrightarrow> scroll_lines_new n = Some n"

definition percent_new :: "nat \<Rightarrow> nat option" where
  "percent_new n = (if 1 \<le> n \<and> n \<le> 100 then Some n else None)"

definition percent_of :: "nat \<Rightarrow> nat \<Rightarrow> nat" where
  "percent_of p room =
     (let share = min (room * p) u32_max div 100
      in max (if share \<le> u16_max then share else room) 1)"

definition put_percent :: "nat \<Rightarrow> byte list" where
  "put_percent = put_u8"
definition get_percent :: "nat reader" where
  "get_percent = reads get_u8 (\<lambda>n.
     case percent_new n of Some m \<Rightarrow> give m | None \<Rightarrow> refuse (Bad_Value ''percent''))"
definition ok_percent :: "nat \<Rightarrow> bool" where
  "ok_percent n \<longleftrightarrow> percent_new n = Some n"

lemma steady_checked [codec_intros]:
  "(\<And>m. v = Some m \<Longrightarrow> ok m) \<Longrightarrow> steady (case v of Some m \<Rightarrow> give m | None \<Rightarrow> refuse e) ok"
  by (cases v) (simp_all add: steady_give steady_refuse)

interpretation scroll_lines: codec put_scroll_lines get_scroll_lines ok_scroll_lines
proof (rule codec.intro)
  show "get_scroll_lines (put_scroll_lines n @ rest) = Inr (n, rest)" if "ok_scroll_lines n" for n rest
    using that by (simp add: put_scroll_lines_def get_scroll_lines_def ok_scroll_lines_def scroll_lines_new_def codec_simps split: if_splits)
  show "takes get_scroll_lines ok_scroll_lines"
    unfolding get_scroll_lines_def by (rule codec_intros | simp add: ok_scroll_lines_def scroll_lines_new_def split: if_splits)+
qed

interpretation percent: codec put_percent get_percent ok_percent
proof (rule codec.intro)
  show "get_percent (put_percent n @ rest) = Inr (n, rest)" if "ok_percent n" for n rest
    using that by (simp add: put_percent_def get_percent_def ok_percent_def percent_new_def codec_simps split: if_splits)
  show "takes get_percent ok_percent"
    unfolding get_percent_def by (rule codec_intros | simp add: ok_percent_def percent_new_def split: if_splits)+
qed

text \<open>\<open>Limit\<close>: its seconds.\<close>

definition limit_read :: "nat \<Rightarrow> nat option" where
  "limit_read s = (if s \<le> u32_max then Some s else None)"

definition put_limit :: "nat \<Rightarrow> byte list" where
  "put_limit = put_u32"
definition get_limit :: "nat reader" where
  "get_limit = reads get_u32 give"

interpretation limit: codec put_limit get_limit ok_u32
proof (rule codec.intro)
  show "get_limit (put_limit n @ rest) = Inr (n, rest)" if "ok_u32 n" for n rest
    using that by (simp add: put_limit_def get_limit_def codec_simps)
  show "takes get_limit ok_u32"
    unfolding get_limit_def by (rule takes_reads [OF u32.takes steady_give])
qed

section \<open>Sizes\<close>

record size =
  rows :: nat
  cols :: nat

definition size_new :: "nat \<Rightarrow> nat \<Rightarrow> size option" where
  "size_new r c = (if r \<noteq> 0 \<and> c \<noteq> 0 then Some \<lparr>rows = r, cols = c\<rparr> else None)"

definition MAX_CELLS :: nat where
  "MAX_CELLS = 64 * 1024 * 1024"

definition fits :: "size \<Rightarrow> bool" where
  "fits s \<longleftrightarrow> rows s * cols s \<le> MAX_CELLS"

definition put_size :: "size \<Rightarrow> byte list" where
  "put_size s = put_u16 (rows s) @ put_u16 (cols s)"
definition get_size :: "size reader" where
  "get_size = reads get_u16 (\<lambda>r. reads get_u16 (\<lambda>c.
     case size_new r c of Some s \<Rightarrow> give s | None \<Rightarrow> refuse (Bad_Value ''size'')))"
definition ok_size :: "size \<Rightarrow> bool" where
  "ok_size s \<longleftrightarrow> ok_u16 (rows s) \<and> ok_u16 (cols s) \<and> rows s \<noteq> 0 \<and> cols s \<noteq> 0"

interpretation size: codec put_size get_size ok_size
proof (rule codec.intro)
  show "get_size (put_size s @ rest) = Inr (s, rest)" if "ok_size s" for s rest
    using that by (simp add: put_size_def get_size_def ok_size_def size_new_def codec_simps)
  show "takes get_size ok_size"
    unfolding get_size_def by (rule codec_intros | auto simp: ok_size_def size_new_def split: if_splits)+
qed

text \<open>\<open>Screen\<close>: a size a grid can be, \<open>Screen::new\<close> on any integers.\<close>

definition int_name :: "int \<Rightarrow> str" where
  "int_name i = (if i < 0 then 45 # digits 10 (nat (- i)) else digits 10 (nat i))"

definition no_screen :: "int \<Rightarrow> int \<Rightarrow> error" where
  "no_screen r c =
     fail C_Size (int_name c @ ascii '' columns by '' @ int_name r @ ascii '' rows: no screen is that size'')"

definition screen_new :: "int \<Rightarrow> int \<Rightarrow> error + size" where
  "screen_new r c =
     (if 0 \<le> r \<and> r < 2 ^ 16 \<and> 0 \<le> c \<and> c < 2 ^ 16
      then (case size_new (nat r) (nat c) of
              Some s \<Rightarrow> if fits s then Inr s else Inl (no_screen r c)
            | None \<Rightarrow> Inl (no_screen r c))
      else Inl (no_screen r c))"

definition get_screen :: "size reader" where
  "get_screen = reads get_size (\<lambda>s.
     case screen_new (int (rows s)) (int (cols s)) of
       Inr s' \<Rightarrow> give s' | Inl _ \<Rightarrow> refuse (Bad_Value ''size''))"
definition ok_screen :: "size \<Rightarrow> bool" where
  "ok_screen s \<longleftrightarrow> ok_size s \<and> fits s"

interpretation screen: codec put_size get_screen ok_screen
proof (rule codec.intro)
  show "get_screen (put_size s @ rest) = Inr (s, rest)" if "ok_screen s" for s rest
    using that by (cases s) (simp add: get_screen_def codec_simps ok_screen_def ok_size_def screen_new_def size_new_def)
  have "steady (case screen_new (int (rows s)) (int (cols s)) of Inr s' \<Rightarrow> give s' | Inl _ \<Rightarrow> refuse (Bad_Value ''size'')) ok_screen"
    if "ok_size s" for s
    using that by (cases s) (simp add: ok_screen_def ok_size_def screen_new_def size_new_def steady_give steady_refuse)
  then show "takes get_screen ok_screen"
    unfolding get_screen_def by (rule takes_reads [OF size.takes])
qed

end
