(* ===== verification/Wire_Command.thy ===== *)
theory Wire_Command
  imports Wire_Values
begin

text \<open>
  What the requests are made of (\<open>command.rs\<close>): places and ways, sizes and
  resizes, inputs, waits, launches and their options.  Each declaration in
  \<open>wire!\<close> is a datatype or a record with the bytes its fields are put as in
  order, an enum's after its tag, and is a \<open>codec\<close>.
\<close>

section \<open>Places\<close>

datatype ws_ref =
    Ws_Id ws_id
  | Ws_Name str
  | Ws_New

fun put_ws_ref :: "ws_ref \<Rightarrow> byte list" where
  "put_ws_ref (Ws_Id a) = put_u8 0 @ put_id a"
| "put_ws_ref (Ws_Name a) = put_u8 1 @ put_text a"
| "put_ws_ref Ws_New = put_u8 2"

definition get_ws_ref :: "ws_ref reader" where
  "get_ws_ref = reads get_u8 (\<lambda>tag.
     if tag = 0 then reads get_id (\<lambda>a. give (Ws_Id a))
     else if tag = 1 then reads get_text (\<lambda>a. give (Ws_Name a))
     else if tag = 2 then give Ws_New
     else refuse (Bad_Tag ''WsRef'' tag))"

fun ok_ws_ref :: "ws_ref \<Rightarrow> bool" where
  "ok_ws_ref (Ws_Id a) = ok_u32 a"
| "ok_ws_ref (Ws_Name a) = ok_text a"
| "ok_ws_ref Ws_New = True"

interpretation ws_ref: codec put_ws_ref get_ws_ref ok_ws_ref
proof (rule codec.intro)
  show "get_ws_ref (put_ws_ref x @ rest) = Inr (x, rest)" if "ok_ws_ref x" for x rest
    using that by (cases x) (simp_all add: get_ws_ref_def codec_simps)
  show "takes get_ws_ref ok_ws_ref"
    unfolding get_ws_ref_def by (rule codec_intros | simp)+
qed

fun put_any_ref :: "any_ref \<Rightarrow> byte list" where
  "put_any_ref (A_Pane a) = put_u8 0 @ put_id a"
| "put_any_ref (A_Tab a) = put_u8 1 @ put_id a"
| "put_any_ref (A_Workspace a) = put_u8 2 @ put_id a"

definition get_any_ref :: "any_ref reader" where
  "get_any_ref = reads get_u8 (\<lambda>tag.
     if tag = 0 then reads get_id (\<lambda>a. give (A_Pane a))
     else if tag = 1 then reads get_id (\<lambda>a. give (A_Tab a))
     else if tag = 2 then reads get_id (\<lambda>a. give (A_Workspace a))
     else refuse (Bad_Tag ''AnyRef'' tag))"

fun ok_any_ref :: "any_ref \<Rightarrow> bool" where
  "ok_any_ref (A_Pane a) = ok_u32 a"
| "ok_any_ref (A_Tab a) = ok_u32 a"
| "ok_any_ref (A_Workspace a) = ok_u32 a"

interpretation any_ref: codec put_any_ref get_any_ref ok_any_ref
proof (rule codec.intro)
  show "get_any_ref (put_any_ref x @ rest) = Inr (x, rest)" if "ok_any_ref x" for x rest
    using that by (cases x) (simp_all add: get_any_ref_def codec_simps)
  show "takes get_any_ref ok_any_ref"
    unfolding get_any_ref_def by (rule codec_intros | simp)+
qed

fun put_kind :: "kind \<Rightarrow> byte list" where
  "put_kind K_Pane = put_u8 0"
| "put_kind K_Tab = put_u8 1"
| "put_kind K_Workspace = put_u8 2"

definition get_kind :: "kind reader" where
  "get_kind = reads get_u8 (\<lambda>tag.
     if tag = 0 then give K_Pane
     else if tag = 1 then give K_Tab
     else if tag = 2 then give K_Workspace
     else refuse (Bad_Tag ''Kind'' tag))"

interpretation kind: codec put_kind get_kind any_of
proof (rule codec.intro)
  show "get_kind (put_kind x @ rest) = Inr (x, rest)" for x rest
    by (cases x) (simp_all add: get_kind_def codec_simps)
  show "takes get_kind any_of"
    unfolding get_kind_def by (rule codec_intros | simp)+
qed

fun put_scope :: "scope \<Rightarrow> byte list" where
  "put_scope S_All = put_u8 0"
| "put_scope (S_Target a) = put_u8 1 @ put_any_ref a"
| "put_scope (S_Client a) = put_u8 2 @ put_id a"

definition get_scope :: "scope reader" where
  "get_scope = reads get_u8 (\<lambda>tag.
     if tag = 0 then give S_All
     else if tag = 1 then reads get_any_ref (\<lambda>a. give (S_Target a))
     else if tag = 2 then reads get_id (\<lambda>a. give (S_Client a))
     else refuse (Bad_Tag ''Scope'' tag))"

fun ok_scope :: "scope \<Rightarrow> bool" where
  "ok_scope S_All = True"
| "ok_scope (S_Target a) = ok_any_ref a"
| "ok_scope (S_Client a) = ok_u32 a"

interpretation scope: codec put_scope get_scope ok_scope
proof (rule codec.intro)
  show "get_scope (put_scope x @ rest) = Inr (x, rest)" if "ok_scope x" for x rest
    using that by (cases x) (simp_all add: get_scope_def codec_simps)
  show "takes get_scope ok_scope"
    unfolding get_scope_def by (rule codec_intros | simp)+
qed

fun put_axis :: "axis \<Rightarrow> byte list" where
  "put_axis Horizontal = put_u8 0"
| "put_axis Vertical = put_u8 1"

definition get_axis :: "axis reader" where
  "get_axis = reads get_u8 (\<lambda>tag.
     if tag = 0 then give Horizontal
     else if tag = 1 then give Vertical
     else refuse (Bad_Tag ''Axis'' tag))"

interpretation axis: codec put_axis get_axis any_of
proof (rule codec.intro)
  show "get_axis (put_axis x @ rest) = Inr (x, rest)" for x rest
    by (cases x) (simp_all add: get_axis_def codec_simps)
  show "takes get_axis any_of"
    unfolding get_axis_def by (rule codec_intros | simp)+
qed

datatype sibling =
    Sib_Next
  | Sib_Previous

fun put_sibling :: "sibling \<Rightarrow> byte list" where
  "put_sibling Sib_Next = put_u8 0"
| "put_sibling Sib_Previous = put_u8 1"

definition get_sibling :: "sibling reader" where
  "get_sibling = reads get_u8 (\<lambda>tag.
     if tag = 0 then give Sib_Next
     else if tag = 1 then give Sib_Previous
     else refuse (Bad_Tag ''Sibling'' tag))"

interpretation sibling: codec put_sibling get_sibling any_of
proof (rule codec.intro)
  show "get_sibling (put_sibling x @ rest) = Inr (x, rest)" for x rest
    by (cases x) (simp_all add: get_sibling_def codec_simps)
  show "takes get_sibling any_of"
    unfolding get_sibling_def by (rule codec_intros | simp)+
qed

datatype sibling_way =
    Way_Step sibling
  | Way_Last
  | Way_Toward direction

fun put_sibling_way :: "sibling_way \<Rightarrow> byte list" where
  "put_sibling_way (Way_Step a) = put_u8 0 @ put_sibling a"
| "put_sibling_way Way_Last = put_u8 1"
| "put_sibling_way (Way_Toward a) = put_u8 2 @ put_direction a"

definition get_sibling_way :: "sibling_way reader" where
  "get_sibling_way = reads get_u8 (\<lambda>tag.
     if tag = 0 then reads get_sibling (\<lambda>a. give (Way_Step a))
     else if tag = 1 then give Way_Last
     else if tag = 2 then reads get_direction (\<lambda>a. give (Way_Toward a))
     else refuse (Bad_Tag ''Way'' tag))"

fun ok_sibling_way :: "sibling_way \<Rightarrow> bool" where
  "ok_sibling_way (Way_Step a) = True"
| "ok_sibling_way Way_Last = True"
| "ok_sibling_way (Way_Toward a) = True"

interpretation sibling_way: codec put_sibling_way get_sibling_way ok_sibling_way
proof (rule codec.intro)
  show "get_sibling_way (put_sibling_way x @ rest) = Inr (x, rest)" if "ok_sibling_way x" for x rest
    using that by (cases x) (simp_all add: get_sibling_way_def codec_simps)
  show "takes get_sibling_way ok_sibling_way"
    unfolding get_sibling_way_def by (rule codec_intros | simp)+
qed

interpretation pair__nonzerou32_nonzerou32: codec "put_pair put_nonzero put_nonzero" "get_pair get_nonzero get_nonzero" "pred_prod ok_nonzero ok_nonzero"
  by (rule codec_pair [OF nonzero.codec_axioms nonzero.codec_axioms])

interpretation option_nonzerou32_nonzerou32: codec "put_option (put_pair put_nonzero put_nonzero)" "get_option (get_pair get_nonzero get_nonzero)" "pred_option (pred_prod ok_nonzero ok_nonzero)"
  by (rule codec_option [OF pair__nonzerou32_nonzerou32.codec_axioms])

datatype beside =
    Beside_Split axis "(nat \<times> nat) option"
  | Beside_Stack

fun put_beside :: "beside \<Rightarrow> byte list" where
  "put_beside (Beside_Split a b) = put_u8 0 @ put_axis a @ put_option (put_pair put_nonzero put_nonzero) b"
| "put_beside Beside_Stack = put_u8 1"

definition get_beside :: "beside reader" where
  "get_beside = reads get_u8 (\<lambda>tag.
     if tag = 0 then reads get_axis (\<lambda>a. reads (get_option (get_pair get_nonzero get_nonzero)) (\<lambda>b. give (Beside_Split a b)))
     else if tag = 1 then give Beside_Stack
     else refuse (Bad_Tag ''Beside'' tag))"

fun ok_beside :: "beside \<Rightarrow> bool" where
  "ok_beside (Beside_Split a b) = (pred_option (pred_prod ok_nonzero ok_nonzero)) b"
| "ok_beside Beside_Stack = True"

interpretation beside: codec put_beside get_beside ok_beside
proof (rule codec.intro)
  show "get_beside (put_beside x @ rest) = Inr (x, rest)" if "ok_beside x" for x rest
    using that by (cases x) (simp_all add: get_beside_def codec_simps)
  show "takes get_beside ok_beside"
    unfolding get_beside_def by (rule codec_intros | simp)+
qed

datatype move_to =
    To_Tab tab_id
  | To_Workspace ws_ref
  | To_NewTab
  | To_NewWorkspace
  | To_Beside direction
  | To_Top

fun put_move_to :: "move_to \<Rightarrow> byte list" where
  "put_move_to (To_Tab a) = put_u8 0 @ put_id a"
| "put_move_to (To_Workspace a) = put_u8 1 @ put_ws_ref a"
| "put_move_to To_NewTab = put_u8 2"
| "put_move_to To_NewWorkspace = put_u8 3"
| "put_move_to (To_Beside a) = put_u8 4 @ put_direction a"
| "put_move_to To_Top = put_u8 5"

definition get_move_to :: "move_to reader" where
  "get_move_to = reads get_u8 (\<lambda>tag.
     if tag = 0 then reads get_id (\<lambda>a. give (To_Tab a))
     else if tag = 1 then reads get_ws_ref (\<lambda>a. give (To_Workspace a))
     else if tag = 2 then give To_NewTab
     else if tag = 3 then give To_NewWorkspace
     else if tag = 4 then reads get_direction (\<lambda>a. give (To_Beside a))
     else if tag = 5 then give To_Top
     else refuse (Bad_Tag ''MoveTo'' tag))"

fun ok_move_to :: "move_to \<Rightarrow> bool" where
  "ok_move_to (To_Tab a) = ok_u32 a"
| "ok_move_to (To_Workspace a) = ok_ws_ref a"
| "ok_move_to To_NewTab = True"
| "ok_move_to To_NewWorkspace = True"
| "ok_move_to (To_Beside a) = True"
| "ok_move_to To_Top = True"

interpretation move_to: codec put_move_to get_move_to ok_move_to
proof (rule codec.intro)
  show "get_move_to (put_move_to x @ rest) = Inr (x, rest)" if "ok_move_to x" for x rest
    using that by (cases x) (simp_all add: get_move_to_def codec_simps)
  show "takes get_move_to ok_move_to"
    unfolding get_move_to_def by (rule codec_intros | simp)+
qed

datatype swap_with =
    Swap_Pane pane_id
  | Swap_Toward direction

fun put_swap_with :: "swap_with \<Rightarrow> byte list" where
  "put_swap_with (Swap_Pane a) = put_u8 0 @ put_id a"
| "put_swap_with (Swap_Toward a) = put_u8 1 @ put_direction a"

definition get_swap_with :: "swap_with reader" where
  "get_swap_with = reads get_u8 (\<lambda>tag.
     if tag = 0 then reads get_id (\<lambda>a. give (Swap_Pane a))
     else if tag = 1 then reads get_direction (\<lambda>a. give (Swap_Toward a))
     else refuse (Bad_Tag ''SwapWith'' tag))"

fun ok_swap_with :: "swap_with \<Rightarrow> bool" where
  "ok_swap_with (Swap_Pane a) = ok_u32 a"
| "ok_swap_with (Swap_Toward a) = True"

interpretation swap_with: codec put_swap_with get_swap_with ok_swap_with
proof (rule codec.intro)
  show "get_swap_with (put_swap_with x @ rest) = Inr (x, rest)" if "ok_swap_with x" for x rest
    using that by (cases x) (simp_all add: get_swap_with_def codec_simps)
  show "takes get_swap_with ok_swap_with"
    unfolding get_swap_with_def by (rule codec_intros | simp)+
qed

text \<open>\<open>parse_workspace\<close>: a workspace's id, or its name.\<close>

definition parse_workspace :: "str \<Rightarrow> usage + ws_ref" where
  "parse_workspace t =
     (if t = ascii ''new-workspace'' then Inr Ws_New
      else (case ws_from t of
              Inr n \<Rightarrow> Inr (Ws_Id n)
            | Inl _ \<Rightarrow> if strip_prefix [43] t \<noteq> None then Inl (U_Not K_Workspace t) else Inr (Ws_Name t)))"

definition kind_all :: "kind list" where
  "kind_all = [K_Pane, K_Tab, K_Workspace]"

section \<open>Sizes and resizes\<close>

datatype extent =
    Ext_Cells nat
  | Ext_Percent nat

fun put_extent :: "extent \<Rightarrow> byte list" where
  "put_extent (Ext_Cells a) = put_u8 0 @ put_u16 a"
| "put_extent (Ext_Percent a) = put_u8 1 @ put_percent a"

definition get_extent :: "extent reader" where
  "get_extent = reads get_u8 (\<lambda>tag.
     if tag = 0 then reads get_u16 (\<lambda>a. give (Ext_Cells a))
     else if tag = 1 then reads get_percent (\<lambda>a. give (Ext_Percent a))
     else refuse (Bad_Tag ''Extent'' tag))"

fun ok_extent :: "extent \<Rightarrow> bool" where
  "ok_extent (Ext_Cells a) = ok_u16 a"
| "ok_extent (Ext_Percent a) = ok_percent a"

interpretation extent: codec put_extent get_extent ok_extent
proof (rule codec.intro)
  show "get_extent (put_extent x @ rest) = Inr (x, rest)" if "ok_extent x" for x rest
    using that by (cases x) (simp_all add: get_extent_def codec_simps)
  show "takes get_extent ok_extent"
    unfolding get_extent_def by (rule codec_intros | simp)+
qed

datatype pane_resize =
    PR_Border direction nat
  | PR_To axis extent

fun put_pane_resize :: "pane_resize \<Rightarrow> byte list" where
  "put_pane_resize (PR_Border a b) = put_u8 0 @ put_direction a @ put_u16 b"
| "put_pane_resize (PR_To a b) = put_u8 1 @ put_axis a @ put_extent b"

definition get_pane_resize :: "pane_resize reader" where
  "get_pane_resize = reads get_u8 (\<lambda>tag.
     if tag = 0 then reads get_direction (\<lambda>a. reads get_u16 (\<lambda>b. give (PR_Border a b)))
     else if tag = 1 then reads get_axis (\<lambda>a. reads get_extent (\<lambda>b. give (PR_To a b)))
     else refuse (Bad_Tag ''PaneResize'' tag))"

fun ok_pane_resize :: "pane_resize \<Rightarrow> bool" where
  "ok_pane_resize (PR_Border a b) = ok_u16 b"
| "ok_pane_resize (PR_To a b) = ok_extent b"

interpretation pane_resize: codec put_pane_resize get_pane_resize ok_pane_resize
proof (rule codec.intro)
  show "get_pane_resize (put_pane_resize x @ rest) = Inr (x, rest)" if "ok_pane_resize x" for x rest
    using that by (cases x) (simp_all add: get_pane_resize_def codec_simps)
  show "takes get_pane_resize ok_pane_resize"
    unfolding get_pane_resize_def by (rule codec_intros | simp)+
qed

interpretation option_screen: codec "put_option put_size" "get_option get_screen" "pred_option ok_screen"
  by (rule codec_option [OF screen.codec_axioms])

datatype resized =
    Rz_Tabs any_ref "size option"
  | Rz_Client client_id size

fun put_resized :: "resized \<Rightarrow> byte list" where
  "put_resized (Rz_Tabs a b) = put_u8 0 @ put_any_ref a @ put_option put_size b"
| "put_resized (Rz_Client a b) = put_u8 1 @ put_id a @ put_size b"

definition get_resized :: "resized reader" where
  "get_resized = reads get_u8 (\<lambda>tag.
     if tag = 0 then reads get_any_ref (\<lambda>a. reads (get_option get_screen) (\<lambda>b. give (Rz_Tabs a b)))
     else if tag = 1 then reads get_id (\<lambda>a. reads get_screen (\<lambda>b. give (Rz_Client a b)))
     else refuse (Bad_Tag ''Resized'' tag))"

fun ok_resized :: "resized \<Rightarrow> bool" where
  "ok_resized (Rz_Tabs a b) = (ok_any_ref a \<and> (pred_option ok_screen) b)"
| "ok_resized (Rz_Client a b) = (ok_u32 a \<and> ok_screen b)"

interpretation resized: codec put_resized get_resized ok_resized
proof (rule codec.intro)
  show "get_resized (put_resized x @ rest) = Inr (x, rest)" if "ok_resized x" for x rest
    using that by (cases x) (simp_all add: get_resized_def codec_simps)
  show "takes get_resized ok_resized"
    unfolding get_resized_def by (rule codec_intros | simp)+
qed

section \<open>Inputs and captures\<close>

datatype input =
    In_Key key_press
  | In_Text str
  | In_Paste str
  | In_Bytes "byte list"

fun put_input :: "input \<Rightarrow> byte list" where
  "put_input (In_Key a) = put_u8 0 @ put_key a"
| "put_input (In_Text a) = put_u8 1 @ put_text a"
| "put_input (In_Paste a) = put_u8 2 @ put_text a"
| "put_input (In_Bytes a) = put_u8 3 @ put_list put_byte a"

definition get_input :: "input reader" where
  "get_input = reads get_u8 (\<lambda>tag.
     if tag = 0 then reads get_key (\<lambda>a. give (In_Key a))
     else if tag = 1 then reads get_text (\<lambda>a. give (In_Text a))
     else if tag = 2 then reads get_text (\<lambda>a. give (In_Paste a))
     else if tag = 3 then reads (get_list get_byte) (\<lambda>a. give (In_Bytes a))
     else refuse (Bad_Tag ''Input'' tag))"

fun ok_input :: "input \<Rightarrow> bool" where
  "ok_input (In_Key a) = press_ok a"
| "ok_input (In_Text a) = ok_text a"
| "ok_input (In_Paste a) = ok_text a"
| "ok_input (In_Bytes a) = (ok_list any_of) a"

interpretation input: codec put_input get_input ok_input
proof (rule codec.intro)
  show "get_input (put_input x @ rest) = Inr (x, rest)" if "ok_input x" for x rest
    using that by (cases x) (simp_all add: get_input_def codec_simps)
  show "takes get_input ok_input"
    unfolding get_input_def by (rule codec_intros | simp)+
qed

datatype source =
    Src_Shown
  | Src_Main
  | Src_Alternate
  | Src_LastOutput

fun put_source :: "source \<Rightarrow> byte list" where
  "put_source Src_Shown = put_u8 0"
| "put_source Src_Main = put_u8 1"
| "put_source Src_Alternate = put_u8 2"
| "put_source Src_LastOutput = put_u8 3"

definition get_source :: "source reader" where
  "get_source = reads get_u8 (\<lambda>tag.
     if tag = 0 then give Src_Shown
     else if tag = 1 then give Src_Main
     else if tag = 2 then give Src_Alternate
     else if tag = 3 then give Src_LastOutput
     else refuse (Bad_Tag ''Source'' tag))"

interpretation source: codec put_source get_source any_of
proof (rule codec.intro)
  show "get_source (put_source x @ rest) = Inr (x, rest)" for x rest
    by (cases x) (simp_all add: get_source_def codec_simps)
  show "takes get_source any_of"
    unfolding get_source_def by (rule codec_intros | simp)+
qed

interpretation pair__u16_u16: codec "put_pair put_u16 put_u16" "get_pair get_u16 get_u16" "pred_prod ok_u16 ok_u16"
  by (rule codec_pair [OF u16.codec_axioms u16.codec_axioms])

interpretation option_u16_u16: codec "put_option (put_pair put_u16 put_u16)" "get_option (get_pair get_u16 get_u16)" "pred_option (pred_prod ok_u16 ok_u16)"
  by (rule codec_option [OF pair__u16_u16.codec_axioms])

interpretation option_version: codec "put_option put_version" "get_option get_version" "pred_option version_ok"
  by (rule codec_option [OF version.codec_axioms])

record capture_view =
  cv_full :: bool
  cv_wrapped :: bool
  cv_styles :: bool
  cv_source :: source
  cv_marks :: bool
  cv_rows :: "(nat \<times> nat) option"
  cv_cols :: "(nat \<times> nat) option"
  cv_since :: "version option"

definition put_capture_view :: "capture_view \<Rightarrow> byte list" where
  "put_capture_view x =
     put_bool (cv_full x) @ put_bool (cv_wrapped x) @ put_bool (cv_styles x) @ put_source (cv_source x)
       @ put_bool (cv_marks x) @ put_option (put_pair put_u16 put_u16) (cv_rows x)
       @ put_option (put_pair put_u16 put_u16) (cv_cols x) @ put_option put_version (cv_since x)"

definition get_capture_view :: "capture_view reader" where
  "get_capture_view =
     reads get_bool (\<lambda>a. reads get_bool (\<lambda>b. reads get_bool (\<lambda>c.
       reads get_source (\<lambda>d. reads get_bool (\<lambda>e.
       reads (get_option (get_pair get_u16 get_u16)) (\<lambda>f.
       reads (get_option (get_pair get_u16 get_u16)) (\<lambda>g. reads (get_option get_version) (\<lambda>h.
       give \<lparr>cv_full = a, cv_wrapped = b, cv_styles = c, cv_source = d, cv_marks = e, cv_rows = f,
       cv_cols = g, cv_since = h\<rparr>))))))))"

definition ok_capture_view :: "capture_view \<Rightarrow> bool" where
  "ok_capture_view x \<longleftrightarrow> (pred_option (pred_prod ok_u16 ok_u16)) (cv_rows x)
       \<and> (pred_option (pred_prod ok_u16 ok_u16)) (cv_cols x) \<and> (pred_option version_ok) (cv_since x)"

interpretation capture_view: codec put_capture_view get_capture_view ok_capture_view
proof (rule codec.intro)
  show "get_capture_view (put_capture_view x @ rest) = Inr (x, rest)" if "ok_capture_view x" for x rest
    using that by (simp add: put_capture_view_def get_capture_view_def ok_capture_view_def codec_simps)
  show "takes get_capture_view ok_capture_view"
    unfolding get_capture_view_def by (rule codec_intros | simp add: ok_capture_view_def)+
qed

datatype button =
    Btn_Left
  | Btn_Middle
  | Btn_Right
  | Btn_Back
  | Btn_Forward

fun put_button :: "button \<Rightarrow> byte list" where
  "put_button Btn_Left = put_u8 0"
| "put_button Btn_Middle = put_u8 1"
| "put_button Btn_Right = put_u8 2"
| "put_button Btn_Back = put_u8 3"
| "put_button Btn_Forward = put_u8 4"

definition get_button :: "button reader" where
  "get_button = reads get_u8 (\<lambda>tag.
     if tag = 0 then give Btn_Left
     else if tag = 1 then give Btn_Middle
     else if tag = 2 then give Btn_Right
     else if tag = 3 then give Btn_Back
     else if tag = 4 then give Btn_Forward
     else refuse (Bad_Tag ''Button'' tag))"

interpretation button: codec put_button get_button any_of
proof (rule codec.intro)
  show "get_button (put_button x @ rest) = Inr (x, rest)" for x rest
    by (cases x) (simp_all add: get_button_def codec_simps)
  show "takes get_button any_of"
    unfolding get_button_def by (rule codec_intros | simp)+
qed

datatype wheel =
    Wheel_Up
  | Wheel_Down
  | Wheel_Left
  | Wheel_Right

fun put_wheel :: "wheel \<Rightarrow> byte list" where
  "put_wheel Wheel_Up = put_u8 0"
| "put_wheel Wheel_Down = put_u8 1"
| "put_wheel Wheel_Left = put_u8 2"
| "put_wheel Wheel_Right = put_u8 3"

definition get_wheel :: "wheel reader" where
  "get_wheel = reads get_u8 (\<lambda>tag.
     if tag = 0 then give Wheel_Up
     else if tag = 1 then give Wheel_Down
     else if tag = 2 then give Wheel_Left
     else if tag = 3 then give Wheel_Right
     else refuse (Bad_Tag ''Wheel'' tag))"

interpretation wheel: codec put_wheel get_wheel any_of
proof (rule codec.intro)
  show "get_wheel (put_wheel x @ rest) = Inr (x, rest)" for x rest
    by (cases x) (simp_all add: get_wheel_def codec_simps)
  show "takes get_wheel any_of"
    unfolding get_wheel_def by (rule codec_intros | simp)+
qed

datatype mouse =
    Mouse_Click button
  | Mouse_Press button
  | Mouse_Release button
  | Mouse_Wheel wheel
  | Mouse_Move

fun put_mouse :: "mouse \<Rightarrow> byte list" where
  "put_mouse (Mouse_Click a) = put_u8 0 @ put_button a"
| "put_mouse (Mouse_Press a) = put_u8 1 @ put_button a"
| "put_mouse (Mouse_Release a) = put_u8 2 @ put_button a"
| "put_mouse (Mouse_Wheel a) = put_u8 3 @ put_wheel a"
| "put_mouse Mouse_Move = put_u8 4"

definition get_mouse :: "mouse reader" where
  "get_mouse = reads get_u8 (\<lambda>tag.
     if tag = 0 then reads get_button (\<lambda>a. give (Mouse_Click a))
     else if tag = 1 then reads get_button (\<lambda>a. give (Mouse_Press a))
     else if tag = 2 then reads get_button (\<lambda>a. give (Mouse_Release a))
     else if tag = 3 then reads get_wheel (\<lambda>a. give (Mouse_Wheel a))
     else if tag = 4 then give Mouse_Move
     else refuse (Bad_Tag ''Mouse'' tag))"

fun ok_mouse :: "mouse \<Rightarrow> bool" where
  "ok_mouse (Mouse_Click a) = True"
| "ok_mouse (Mouse_Press a) = True"
| "ok_mouse (Mouse_Release a) = True"
| "ok_mouse (Mouse_Wheel a) = True"
| "ok_mouse Mouse_Move = True"

interpretation mouse: codec put_mouse get_mouse ok_mouse
proof (rule codec.intro)
  show "get_mouse (put_mouse x @ rest) = Inr (x, rest)" if "ok_mouse x" for x rest
    using that by (cases x) (simp_all add: get_mouse_def codec_simps)
  show "takes get_mouse ok_mouse"
    unfolding get_mouse_def by (rule codec_intros | simp)+
qed

text \<open>The button a report names, and whether it is the wheel: buttons are never wheels.\<close>

datatype mouse_button =
    MB_Left | MB_Middle | MB_Right | MB_WheelUp | MB_WheelDown | MB_WheelLeft | MB_WheelRight | MB_Back | MB_Forward

fun mouse_button_code :: "mouse_button \<Rightarrow> nat" where
  "mouse_button_code MB_Left = 0"
| "mouse_button_code MB_Middle = 1"
| "mouse_button_code MB_Right = 2"
| "mouse_button_code MB_WheelUp = 64"
| "mouse_button_code MB_WheelDown = 65"
| "mouse_button_code MB_WheelLeft = 66"
| "mouse_button_code MB_WheelRight = 67"
| "mouse_button_code MB_Back = 128"
| "mouse_button_code MB_Forward = 129"

definition is_wheel :: "mouse_button \<Rightarrow> bool" where
  "is_wheel b \<longleftrightarrow> 64 \<le> mouse_button_code b \<and> mouse_button_code b < 128"

fun button_reported :: "button \<Rightarrow> mouse_button" where
  "button_reported Btn_Left = MB_Left"
| "button_reported Btn_Middle = MB_Middle"
| "button_reported Btn_Right = MB_Right"
| "button_reported Btn_Back = MB_Back"
| "button_reported Btn_Forward = MB_Forward"

fun wheel_reported :: "wheel \<Rightarrow> mouse_button" where
  "wheel_reported Wheel_Up = MB_WheelUp"
| "wheel_reported Wheel_Down = MB_WheelDown"
| "wheel_reported Wheel_Left = MB_WheelLeft"
| "wheel_reported Wheel_Right = MB_WheelRight"

lemma reports: "\<not> is_wheel (button_reported b)" "is_wheel (wheel_reported w)"
  by (cases b; simp add: is_wheel_def) (cases w; simp add: is_wheel_def)

section \<open>Waits\<close>

datatype since =
    Since_Now any_ref
  | Since_Version version

fun put_since :: "since \<Rightarrow> byte list" where
  "put_since (Since_Now a) = put_u8 0 @ put_any_ref a"
| "put_since (Since_Version a) = put_u8 1 @ put_version a"

definition get_since :: "since reader" where
  "get_since = reads get_u8 (\<lambda>tag.
     if tag = 0 then reads get_any_ref (\<lambda>a. give (Since_Now a))
     else if tag = 1 then reads get_version (\<lambda>a. give (Since_Version a))
     else refuse (Bad_Tag ''Since'' tag))"

fun ok_since :: "since \<Rightarrow> bool" where
  "ok_since (Since_Now a) = ok_any_ref a"
| "ok_since (Since_Version a) = version_ok a"

interpretation since: codec put_since get_since ok_since
proof (rule codec.intro)
  show "get_since (put_since x @ rest) = Inr (x, rest)" if "ok_since x" for x rest
    using that by (cases x) (simp_all add: get_since_def codec_simps)
  show "takes get_since ok_since"
    unfolding get_since_def by (rule codec_intros | simp)+
qed

datatype to_panes =
    Send_Now any_ref
  | Send_Seen version

fun put_to_panes :: "to_panes \<Rightarrow> byte list" where
  "put_to_panes (Send_Now a) = put_u8 0 @ put_any_ref a"
| "put_to_panes (Send_Seen a) = put_u8 1 @ put_version a"

definition get_to_panes :: "to_panes reader" where
  "get_to_panes = reads get_u8 (\<lambda>tag.
     if tag = 0 then reads get_any_ref (\<lambda>a. give (Send_Now a))
     else if tag = 1 then reads get_version (\<lambda>a. give (Send_Seen a))
     else refuse (Bad_Tag ''To'' tag))"

fun ok_to_panes :: "to_panes \<Rightarrow> bool" where
  "ok_to_panes (Send_Now a) = ok_any_ref a"
| "ok_to_panes (Send_Seen a) = version_ok a"

interpretation to_panes: codec put_to_panes get_to_panes ok_to_panes
proof (rule codec.intro)
  show "get_to_panes (put_to_panes x @ rest) = Inr (x, rest)" if "ok_to_panes x" for x rest
    using that by (cases x) (simp_all add: get_to_panes_def codec_simps)
  show "takes get_to_panes ok_to_panes"
    unfolding get_to_panes_def by (rule codec_intros | simp)+
qed

fun to_panes_target :: "to_panes \<Rightarrow> any_ref" where
  "to_panes_target (Send_Now target) = target"
| "to_panes_target (Send_Seen v) = A_Pane (ver_pane v)"

interpretation option_limit: codec "put_option put_limit" "get_option get_limit" "pred_option ok_u32"
  by (rule codec_option [OF limit.codec_axioms])

record wait =
  wait_since :: since
  wait_timeout :: "nat option"

definition put_wait :: "wait \<Rightarrow> byte list" where
  "put_wait x =
     put_since (wait_since x) @ put_option put_limit (wait_timeout x)"

definition get_wait :: "wait reader" where
  "get_wait =
     reads get_since (\<lambda>a. reads (get_option get_limit) (\<lambda>b. give \<lparr>wait_since = a, wait_timeout = b\<rparr>))"

definition ok_wait :: "wait \<Rightarrow> bool" where
  "ok_wait x \<longleftrightarrow> ok_since (wait_since x) \<and> (pred_option ok_u32) (wait_timeout x)"

interpretation wait: codec put_wait get_wait ok_wait
proof (rule codec.intro)
  show "get_wait (put_wait x @ rest) = Inr (x, rest)" if "ok_wait x" for x rest
    using that by (simp add: put_wait_def get_wait_def ok_wait_def codec_simps)
  show "takes get_wait ok_wait"
    unfolding get_wait_def by (rule codec_intros | simp add: ok_wait_def)+
qed

section \<open>Launches\<close>

text \<open>
  \<open>Program\<close>: a program, never empty, then its arguments, none with a NUL; read
  back only checked.
\<close>

record program_argv =
  prog_program :: str
  prog_args :: "str list"

datatype bad_program = Program_Needed | Word_Holds_Nul str

definition program_new :: "str \<Rightarrow> str list \<Rightarrow> bad_program + program_argv" where
  "program_new program args =
     (if program = [] then Inl Program_Needed
      else (case List.find (\<lambda>w. 0 \<in> set w) (program # args) of
              Some word \<Rightarrow> Inl (Word_Holds_Nul word)
            | None \<Rightarrow> Inr \<lparr>prog_program = program, prog_args = args\<rparr>))"

text \<open>\<open>from_argv\<close> and \<open>into_argv\<close>, split and joined in one vector by rotating it.\<close>

definition program_from_argv :: "str list \<Rightarrow> bad_program + program_argv" where
  "program_from_argv argv =
     (let turned = rotate (min (length argv) 1) argv
      in program_new (if turned = [] then [] else last turned) (butlast turned))"

definition program_into_argv :: "program_argv \<Rightarrow> str list" where
  "program_into_argv p = (let argv = prog_args p @ [prog_program p] in last argv # butlast argv)"

definition program_argv_of :: "program_argv \<Rightarrow> str list" where
  "program_argv_of p = prog_program p # prog_args p"

interpretation vec_string: codec "put_list put_text" "get_list get_text" "ok_list ok_text"
  by (rule codec_list [OF str.codec_axioms])

definition put_program :: "program_argv \<Rightarrow> byte list" where
  "put_program p = put_text (prog_program p) @ put_list put_text (prog_args p)"

definition get_program :: "program_argv reader" where
  "get_program = reads get_text (\<lambda>program. reads (get_list get_text) (\<lambda>args.
     case program_new program args of Inr p \<Rightarrow> give p | Inl _ \<Rightarrow> refuse (Bad_Value ''program'')))"

definition ok_program :: "program_argv \<Rightarrow> bool" where
  "ok_program p \<longleftrightarrow> ok_text (prog_program p) \<and> ok_list ok_text (prog_args p)
     \<and> program_new (prog_program p) (prog_args p) = Inr p"

lemma program_new_Inr:
  "program_new program args = Inr p \<Longrightarrow> prog_program p = program \<and> prog_args p = args"
  by (auto simp: program_new_def split: if_splits option.splits)

lemma steady_program [codec_intros]:
  assumes "ok_text program" "ok_list ok_text args"
  shows "steady (case program_new program args of Inr p \<Rightarrow> give p | Inl _ \<Rightarrow> refuse e) ok_program"
proof (cases "program_new program args")
  case (Inr p)
  then show ?thesis
    using assms program_new_Inr [OF Inr] by (simp add: steady_give ok_program_def)
qed (simp add: steady_refuse)

interpretation program_argv: codec put_program get_program ok_program
proof (rule codec.intro)
  show "get_program (put_program x @ rest) = Inr (x, rest)" if "ok_program x" for x rest
    using that by (simp add: put_program_def get_program_def ok_program_def codec_simps)
  show "takes get_program ok_program"
    unfolding get_program_def by (rule codec_intros | simp)+
qed

lemma program_argv_back: "program_into_argv p = program_argv_of p"
  by (simp add: program_into_argv_def program_argv_of_def)

datatype start =
    Start_Shell program_argv
  | Start_Program program_argv

fun put_start :: "start \<Rightarrow> byte list" where
  "put_start (Start_Shell a) = put_u8 0 @ put_program a"
| "put_start (Start_Program a) = put_u8 1 @ put_program a"

definition get_start :: "start reader" where
  "get_start = reads get_u8 (\<lambda>tag.
     if tag = 0 then reads get_program (\<lambda>a. give (Start_Shell a))
     else if tag = 1 then reads get_program (\<lambda>a. give (Start_Program a))
     else refuse (Bad_Tag ''Start'' tag))"

fun ok_start :: "start \<Rightarrow> bool" where
  "ok_start (Start_Shell a) = ok_program a"
| "ok_start (Start_Program a) = ok_program a"

interpretation start: codec put_start get_start ok_start
proof (rule codec.intro)
  show "get_start (put_start x @ rest) = Inr (x, rest)" if "ok_start x" for x rest
    using that by (cases x) (simp_all add: get_start_def codec_simps)
  show "takes get_start ok_start"
    unfolding get_start_def by (rule codec_intros | simp)+
qed

fun start_argv :: "start \<Rightarrow> program_argv" where
  "start_argv (Start_Shell p) = p"
| "start_argv (Start_Program p) = p"

record pane_options =
  po_history_bytes :: nat
  po_program_clipboard :: bool
  po_reflow :: bool
  po_alternate_scroll_lines :: nat
  po_picture_bytes :: nat

definition put_pane_options :: "pane_options \<Rightarrow> byte list" where
  "put_pane_options x =
     put_number (po_history_bytes x) @ put_bool (po_program_clipboard x) @ put_bool (po_reflow x)
       @ put_scroll_lines (po_alternate_scroll_lines x) @ put_number (po_picture_bytes x)"

definition get_pane_options :: "pane_options reader" where
  "get_pane_options =
     reads (get_number 0 HISTORY_MOST) (\<lambda>a. reads get_bool (\<lambda>b. reads get_bool (\<lambda>c.
       reads get_scroll_lines (\<lambda>d. reads (get_number 0 PICTURE_BYTES) (\<lambda>e.
       give \<lparr>po_history_bytes = a, po_program_clipboard = b, po_reflow = c, po_alternate_scroll_lines = d,
       po_picture_bytes = e\<rparr>)))))"

definition ok_pane_options :: "pane_options \<Rightarrow> bool" where
  "ok_pane_options x \<longleftrightarrow> (\<lambda>n. 0 \<le> n \<and> n \<le> HISTORY_MOST
       \<and> ok_u64 n) (po_history_bytes x) \<and> ok_scroll_lines (po_alternate_scroll_lines x)
       \<and> (\<lambda>n. 0 \<le> n \<and> n \<le> PICTURE_BYTES \<and> ok_u64 n) (po_picture_bytes x)"

interpretation pane_options: codec put_pane_options get_pane_options ok_pane_options
proof (rule codec.intro)
  show "get_pane_options (put_pane_options x @ rest) = Inr (x, rest)" if "ok_pane_options x" for x rest
    using that by (simp add: put_pane_options_def get_pane_options_def ok_pane_options_def codec_simps)
  show "takes get_pane_options ok_pane_options"
    unfolding get_pane_options_def by (rule codec_intros | simp add: ok_pane_options_def)+
qed

datatype attach_target =
    At_Workspace ws_ref
  | At_Tab tab_id
  | At_Pane pane_id

fun put_attach_target :: "attach_target \<Rightarrow> byte list" where
  "put_attach_target (At_Workspace a) = put_u8 0 @ put_ws_ref a"
| "put_attach_target (At_Tab a) = put_u8 1 @ put_id a"
| "put_attach_target (At_Pane a) = put_u8 2 @ put_id a"

definition get_attach_target :: "attach_target reader" where
  "get_attach_target = reads get_u8 (\<lambda>tag.
     if tag = 0 then reads get_ws_ref (\<lambda>a. give (At_Workspace a))
     else if tag = 1 then reads get_id (\<lambda>a. give (At_Tab a))
     else if tag = 2 then reads get_id (\<lambda>a. give (At_Pane a))
     else refuse (Bad_Tag ''AttachTarget'' tag))"

fun ok_attach_target :: "attach_target \<Rightarrow> bool" where
  "ok_attach_target (At_Workspace a) = ok_ws_ref a"
| "ok_attach_target (At_Tab a) = ok_u32 a"
| "ok_attach_target (At_Pane a) = ok_u32 a"

interpretation attach_target: codec put_attach_target get_attach_target ok_attach_target
proof (rule codec.intro)
  show "get_attach_target (put_attach_target x @ rest) = Inr (x, rest)" if "ok_attach_target x" for x rest
    using that by (cases x) (simp_all add: get_attach_target_def codec_simps)
  show "takes get_attach_target ok_attach_target"
    unfolding get_attach_target_def by (rule codec_intros | simp)+
qed

interpretation option_string: codec "put_option put_text" "get_option get_text" "pred_option ok_text"
  by (rule codec_option [OF str.codec_axioms])

record initial_workspace =
  iw_name :: "str option"
  iw_start :: start
  iw_options :: pane_options
  iw_cwd :: str

definition put_initial_workspace :: "initial_workspace \<Rightarrow> byte list" where
  "put_initial_workspace x =
     put_option put_text (iw_name x) @ put_start (iw_start x) @ put_pane_options (iw_options x) @ put_os (iw_cwd x)"

definition get_initial_workspace :: "initial_workspace reader" where
  "get_initial_workspace =
     reads (get_option get_text) (\<lambda>a. reads get_start (\<lambda>b. reads get_pane_options (\<lambda>c.
       reads get_os (\<lambda>d. give \<lparr>iw_name = a, iw_start = b, iw_options = c, iw_cwd = d\<rparr>))))"

definition ok_initial_workspace :: "initial_workspace \<Rightarrow> bool" where
  "ok_initial_workspace x \<longleftrightarrow> (pred_option ok_text) (iw_name x) \<and> ok_start (iw_start x)
       \<and> ok_pane_options (iw_options x) \<and> ok_os (iw_cwd x)"

interpretation initial_workspace: codec put_initial_workspace get_initial_workspace ok_initial_workspace
proof (rule codec.intro)
  show "get_initial_workspace (put_initial_workspace x @ rest) = Inr (x, rest)" if "ok_initial_workspace x" for x rest
    using that by (simp add: put_initial_workspace_def get_initial_workspace_def ok_initial_workspace_def codec_simps)
  show "takes get_initial_workspace ok_initial_workspace"
    unfolding get_initial_workspace_def by (rule codec_intros | simp add: ok_initial_workspace_def)+
qed

datatype members =
    Mem_Panes
  | Mem_Tabs

fun put_members :: "members \<Rightarrow> byte list" where
  "put_members Mem_Panes = put_u8 0"
| "put_members Mem_Tabs = put_u8 1"

definition get_members :: "members reader" where
  "get_members = reads get_u8 (\<lambda>tag.
     if tag = 0 then give Mem_Panes
     else if tag = 1 then give Mem_Tabs
     else refuse (Bad_Tag ''Members'' tag))"

interpretation members: codec put_members get_members any_of
proof (rule codec.intro)
  show "get_members (put_members x @ rest) = Inr (x, rest)" for x rest
    by (cases x) (simp_all add: get_members_def codec_simps)
  show "takes get_members any_of"
    unfolding get_members_def by (rule codec_intros | simp)+
qed

datatype client_read =
    CR_Keys
  | CR_Preferences

fun put_client_read :: "client_read \<Rightarrow> byte list" where
  "put_client_read CR_Keys = put_u8 0"
| "put_client_read CR_Preferences = put_u8 1"

definition get_client_read :: "client_read reader" where
  "get_client_read = reads get_u8 (\<lambda>tag.
     if tag = 0 then give CR_Keys
     else if tag = 1 then give CR_Preferences
     else refuse (Bad_Tag ''ClientRead'' tag))"

interpretation client_read: codec put_client_read get_client_read any_of
proof (rule codec.intro)
  show "get_client_read (put_client_read x @ rest) = Inr (x, rest)" for x rest
    by (cases x) (simp_all add: get_client_read_def codec_simps)
  show "takes get_client_read any_of"
    unfolding get_client_read_def by (rule codec_intros | simp)+
qed

end
