(* ===== verification/Wire_Callback.thy ===== *)
theory Wire_Callback
  imports Wire_Command
begin

text \<open>
  What a client's screens hand the server (\<open>callback.rs\<close>): values nested no
  deeper than the reader goes, code with where it was written, lists and
  prompts, and the line a prompt holds (\<open>Line\<close> of \<open>act.rs\<close>).
\<close>

section \<open>A line being typed\<close>

text \<open>The text before the cursor and after it.\<close>

record line =
  line_before :: str
  line_after :: str

datatype edit = Insert str | Backspace | Delete | Left_One | Right_One | Home | End

definition line_new :: "str \<Rightarrow> line" where
  "line_new t = \<lparr>line_before = t, line_after = []\<rparr>"

definition line_text :: "line \<Rightarrow> str" where
  "line_text l = line_before l @ line_after l"

definition strip_end :: "str \<Rightarrow> str \<Rightarrow> str option" where
  "strip_end e t = map_option rev (strip_prefix (rev e) (rev t))"

text \<open>The line end a pasted line ends in left out.\<close>

definition without_line_end :: "str \<Rightarrow> str" where
  "without_line_end t =
     (case strip_end [13, 10] t of
        Some r \<Rightarrow> r
      | None \<Rightarrow>
          (case strip_end [10] t of
             Some r \<Rightarrow> r
           | None \<Rightarrow> (case strip_end [13] t of Some r \<Rightarrow> r | None \<Rightarrow> t)))"

definition line_edit :: "edit \<Rightarrow> line \<Rightarrow> line option" where
  "line_edit e l =
     (case e of
        Insert new \<Rightarrow>
          (let t = without_line_end new
           in if 10 \<in> set t \<or> 13 \<in> set t then None
              else Some (l\<lparr>line_before := line_before l @ text_of (filter (\<lambda>c. \<not> is_control c) (chars_of t))\<rparr>))
      | Backspace \<Rightarrow> Some (l\<lparr>line_before := text_of (butlast (chars_of (line_before l)))\<rparr>)
      | Delete \<Rightarrow> Some (l\<lparr>line_after := text_of (tl (chars_of (line_after l)))\<rparr>)
      | Left_One \<Rightarrow>
          (case chars_of (line_before l) of
             [] \<Rightarrow> Some l
           | cs \<Rightarrow> Some \<lparr>line_before = text_of (butlast cs), line_after = text_of (last cs # chars_of (line_after l))\<rparr>)
      | Right_One \<Rightarrow>
          (case chars_of (line_after l) of
             [] \<Rightarrow> Some l
           | c # cs \<Rightarrow> Some \<lparr>line_before = line_before l @ utf8_encode c, line_after = text_of cs\<rparr>)
      | Home \<Rightarrow> Some \<lparr>line_before = [], line_after = line_before l @ line_after l\<rparr>
      | End \<Rightarrow> Some \<lparr>line_before = line_before l @ line_after l, line_after = []\<rparr>)"

definition line_ok :: "line \<Rightarrow> bool" where
  "line_ok l \<longleftrightarrow> utf8_valid (line_before l) \<and> utf8_valid (line_after l)"

definition no_control :: "str \<Rightarrow> bool" where
  "no_control t \<longleftrightarrow> list_all (\<lambda>c. \<not> is_control c) (chars_of t)"

lemma text_bytes:
  assumes "utf8_valid t" "b \<in> set t" "unat b < 128"
  shows "unat b \<in> set (chars_of t)"
proof -
  have "unat b \<in> set cs" if "list_all scalar cs" "b \<in> set (text_of cs)" for cs
    using that
  proof (induction cs)
    case (Cons c cs)
    show ?case
    proof (cases "b \<in> set (utf8_encode c)")
      case True
      show ?thesis
      proof (cases "c < 128")
        case True
        then show ?thesis using \<open>b \<in> set (utf8_encode c)\<close> by (auto simp: utf8_encode_def unat_byte_of)
      next
        case False
        then obtain h bs where "utf8_encode c = h # bs" "192 \<le> unat h" "\<forall>x \<in> set bs. 128 \<le> unat x
       \<and> unat x < 192"
          using Cons.prems(1) by (auto simp: not_less elim: utf8_shape)
        then show ?thesis using \<open>b \<in> set (utf8_encode c)\<close> assms(3) by auto
      qed
    qed (use Cons in auto)
  qed simp
  from this [of "chars_of t"] show ?thesis using chars_of_valid [OF assms(1)] assms(2) by simp
qed

lemma filter_all: "list_all P xs \<Longrightarrow> filter P xs = xs"
  by (induction xs) auto

lemma strip_end_Some: "strip_end e t = Some r \<longleftrightarrow> t = r @ e"
  by (auto simp: strip_end_def strip_prefix_Some) (metis rev_append rev_rev_ident)

text \<open>A text with no control character is inserted as it is.\<close>

lemma insert_plain:
  assumes "utf8_valid t" "no_control t"
  shows "line_edit (Insert t) l = Some (l\<lparr>line_before := line_before l @ t\<rparr>)"
proof -
  have "10 \<notin> set t" "13 \<notin> set t"
    using assms(2) text_bytes [OF assms(1), of 10] text_bytes [OF assms(1), of 13]
    by (force simp: no_control_def list_all_iff is_control_def)+
  moreover from this have "without_line_end t = t"
    by (auto simp: without_line_end_def strip_end_Some split: option.splits)
  moreover have "text_of (filter (\<lambda>c. \<not> is_control c) (chars_of t)) = t"
    using assms chars_of_valid [OF assms(1)] by (simp add: no_control_def filter_all)
  ultimately show ?thesis by (simp add: line_edit_def)
qed

section \<open>Values\<close>

record place_at =
  at_file :: str
  at_line :: nat

definition put_place_at :: "place_at \<Rightarrow> byte list" where
  "put_place_at x =
     put_text (at_file x) @ put_u32 (at_line x)"

definition get_place_at :: "place_at reader" where
  "get_place_at =
     reads get_text (\<lambda>a. reads get_u32 (\<lambda>b. give \<lparr>at_file = a, at_line = b\<rparr>))"

definition ok_place_at :: "place_at \<Rightarrow> bool" where
  "ok_place_at x \<longleftrightarrow> ok_text (at_file x) \<and> ok_u32 (at_line x)"

interpretation place_at: codec put_place_at get_place_at ok_place_at
proof (rule codec.intro)
  show "get_place_at (put_place_at x @ rest) = Inr (x, rest)" if "ok_place_at x" for x rest
    using that by (simp add: put_place_at_def get_place_at_def ok_place_at_def codec_simps)
  show "takes get_place_at ok_place_at"
    unfolding get_place_at_def by (rule codec_intros | simp add: ok_place_at_def)+
qed

interpretation option_box_place: codec "put_option put_place_at" "get_option get_place_at" "pred_option ok_place_at"
  by (rule codec_option [OF place_at.codec_axioms])

record callback_code =
  cc_source :: str
  cc_place :: "place_at option"

definition put_callback_code :: "callback_code \<Rightarrow> byte list" where
  "put_callback_code x =
     put_text (cc_source x) @ put_option put_place_at (cc_place x)"

definition get_callback_code :: "callback_code reader" where
  "get_callback_code =
     reads get_text (\<lambda>a. reads (get_option get_place_at) (\<lambda>b. give \<lparr>cc_source = a, cc_place = b\<rparr>))"

definition ok_callback_code :: "callback_code \<Rightarrow> bool" where
  "ok_callback_code x \<longleftrightarrow> ok_text (cc_source x) \<and> (pred_option ok_place_at) (cc_place x)"

interpretation callback_code: codec put_callback_code get_callback_code ok_callback_code
proof (rule codec.intro)
  show "get_callback_code (put_callback_code x @ rest) = Inr (x, rest)" if "ok_callback_code x" for x rest
    using that by (simp add: put_callback_code_def get_callback_code_def ok_callback_code_def codec_simps)
  show "takes get_callback_code ok_callback_code"
    unfolding get_callback_code_def by (rule codec_intros | simp add: ok_callback_code_def)+
qed

interpretation option_run: codec "put_option put_run" "get_option get_run" "pred_option run_ok"
  by (rule codec_option [OF run.codec_axioms])

text \<open>Two code values are alike if they say the same.\<close>

definition callback_code_eq :: "callback_code \<Rightarrow> callback_code \<Rightarrow> bool" where
  "callback_code_eq a b \<longleftrightarrow> cc_source a = cc_source b"

datatype data =
    D_Int int
  | D_Bool bool
  | D_Text str
  | D_List "data list"
  | D_Record "run option" "(str \<times> data) list"
  | D_All
  | D_Null
  | D_Handle any_ref "run option"
  | D_Client client_id "run option"
  | D_Code callback_code
  | D_Bytes "byte list"
  | D_FloatBits nat
  | D_Symbol str

definition data_count :: "nat \<Rightarrow> data" where
  "data_count n = (if n < 2 ^ 63 then D_Int (int n) else D_Null)"

lemma data_list_size: "d \<in> set v \<Longrightarrow> size (d :: data) < Suc (size_list size v)"
  by (induction v) auto

lemma data_field_size: "(a, b) \<in> set fs \<Longrightarrow> size b < Suc (size_list (size_prod (\<lambda>x. 0) size) (fs :: (str \<times> data) list))"
  by (induction fs) auto

definition DATA_DEPTH :: nat where
  "DATA_DEPTH = 64"

function put_data :: "data \<Rightarrow> byte list" where
  "put_data (D_Int v) = put_u8 0 @ put_i64 v"
| "put_data (D_Bool v) = put_u8 1 @ put_bool v"
| "put_data (D_Text v) = put_u8 2 @ put_text v"
| "put_data (D_List v) = put_u8 3 @ put_length (length v) @ concat (map put_data v)"
| "put_data (D_Record r fs) =
     put_u8 4 @ put_option put_run r @ put_length (length fs) @ concat (map (\<lambda>f. put_text (fst f) @ put_data (snd f)) fs)"
| "put_data D_All = put_u8 8"
| "put_data D_Null = put_u8 5"
| "put_data (D_Handle v r) = put_u8 6 @ put_any_ref v @ put_option put_run r"
| "put_data (D_Client v r) = put_u8 7 @ put_id v @ put_option put_run r"
| "put_data (D_Code v) = put_u8 9 @ put_callback_code v"
| "put_data (D_Bytes v) = put_u8 10 @ put_list put_byte v"
| "put_data (D_FloatBits v) = put_u8 11 @ put_u64 v"
| "put_data (D_Symbol v) = put_u8 12 @ put_text v"
  by pat_completeness auto
termination
  by (relation "measure size") (auto intro: data_list_size data_field_size)

text \<open>\<open>Data::read\<close>: a recursion no deeper than the depth it is given.\<close>

primrec get_data :: "nat \<Rightarrow> data reader" where
  "get_data 0 = refuse (Bad_Value ''callback depth'')"
| "get_data (Suc depth) = reads get_u8 (\<lambda>tag.
     if tag = 0 then reads get_i64 (\<lambda>v. give (D_Int v))
     else if tag = 1 then reads get_bool (\<lambda>v. give (D_Bool v))
     else if tag = 2 then reads get_text (\<lambda>v. give (D_Text v))
     else if tag = 3 then reads (get_list (get_data depth)) (\<lambda>v. give (D_List v))
     else if tag = 4 then reads (get_option get_run) (\<lambda>r.
       reads (get_list (get_pair get_text (get_data depth))) (\<lambda>fs. give (D_Record r fs)))
     else if tag = 5 then give D_Null
     else if tag = 6 then reads get_any_ref (\<lambda>v. reads (get_option get_run) (\<lambda>r. give (D_Handle v r)))
     else if tag = 7 then reads get_id (\<lambda>v. reads (get_option get_run) (\<lambda>r. give (D_Client v r)))
     else if tag = 8 then give D_All
     else if tag = 9 then reads get_callback_code (\<lambda>v. give (D_Code v))
     else if tag = 10 then reads (get_list get_byte) (\<lambda>v. give (D_Bytes v))
     else if tag = 11 then reads get_u64 (\<lambda>v. give (D_FloatBits v))
     else if tag = 12 then reads get_text (\<lambda>v. give (D_Symbol v))
     else refuse (Bad_Tag ''callback value'' tag))"

text \<open>What a value nested so deep at most holds.\<close>

primrec ok_data :: "nat \<Rightarrow> data \<Rightarrow> bool" where
  "ok_data 0 x = False"
| "ok_data (Suc depth) x =
     (case x of
        D_Int v \<Rightarrow> ok_i64 v
      | D_Text v \<Rightarrow> ok_text v
      | D_List v \<Rightarrow> ok_list (ok_data depth) v
      | D_Record r fs \<Rightarrow> pred_option run_ok r \<and> ok_list (pred_prod ok_text (ok_data depth)) fs
      | D_Handle v r \<Rightarrow> ok_any_ref v \<and> pred_option run_ok r
      | D_Client v r \<Rightarrow> ok_u32 v \<and> pred_option run_ok r
      | D_Code v \<Rightarrow> ok_callback_code v
      | D_Bytes v \<Rightarrow> ok_list any_of v
      | D_FloatBits v \<Rightarrow> ok_u64 v
      | D_Symbol v \<Rightarrow> ok_text v
      | _ \<Rightarrow> True)"

lemma put_data_list: "put_data (D_List v) = put_u8 3 @ put_list put_data v"
  by (simp add: put_list_def)

lemma put_data_record:
  "put_data (D_Record r fs) = put_u8 4 @ put_option put_run r @ put_list (put_pair put_text put_data) fs"
  by (simp add: put_list_def put_pair_def [abs_def])

lemma codec_data: "codec put_data (get_data depth) (ok_data depth)"
proof (induction depth)
  case 0
  show ?case by (rule codec.intro) (simp_all add: takes_def steady_refuse, simp add: refuse_def)
next
  case (Suc depth)
  note items = codec_list [OF Suc]
  note fs_codec = codec_list [OF codec_pair [OF str.codec_axioms Suc]]
  note [codec_intros] = codec.steady [OF items] codec.steady [OF fs_codec]
  show ?case
  proof (rule codec.intro)
    show "get_data (Suc depth) (put_data x @ rest) = Inr (x, rest)" if "ok_data (Suc depth) x" for x rest
      using that
      by (cases x)
        (simp_all add: codec_simps codec.reads_back [OF items] codec.reads_back [OF fs_codec] put_data_list put_data_record
          del: put_data.simps(4,5))
    show "takes (get_data (Suc depth)) (ok_data (Suc depth))"
      unfolding get_data.simps by (rule codec_intros | simp)+
  qed
qed

definition get_any_data :: "data reader" where
  "get_any_data = get_data (DATA_DEPTH + 1)"

interpretation data: codec put_data get_any_data "ok_data (DATA_DEPTH + 1)"
  unfolding get_any_data_def by (rule codec_data)

section \<open>Screens\<close>

interpretation vec_data: codec "put_list put_data" "get_list get_any_data" "ok_list (ok_data (DATA_DEPTH + 1))"
  by (rule codec_list [OF data.codec_axioms])

record callback =
  call_code :: callback_code
  call_args :: "data list"

definition put_callback :: "callback \<Rightarrow> byte list" where
  "put_callback x =
     put_callback_code (call_code x) @ put_list put_data (call_args x)"

definition get_callback :: "callback reader" where
  "get_callback =
     reads get_callback_code (\<lambda>a. reads (get_list get_any_data) (\<lambda>b. give \<lparr>call_code = a, call_args = b\<rparr>))"

definition ok_callback :: "callback \<Rightarrow> bool" where
  "ok_callback x \<longleftrightarrow> ok_callback_code (call_code x) \<and> (ok_list (ok_data (DATA_DEPTH + 1))) (call_args x)"

interpretation callback: codec put_callback get_callback ok_callback
proof (rule codec.intro)
  show "get_callback (put_callback x @ rest) = Inr (x, rest)" if "ok_callback x" for x rest
    using that by (simp add: put_callback_def get_callback_def ok_callback_def codec_simps)
  show "takes get_callback ok_callback"
    unfolding get_callback_def by (rule codec_intros | simp add: ok_callback_def)+
qed

record list_item =
  li_label :: str
  li_payload :: data

definition put_list_item :: "list_item \<Rightarrow> byte list" where
  "put_list_item x =
     put_text (li_label x) @ put_data (li_payload x)"

definition get_list_item :: "list_item reader" where
  "get_list_item =
     reads get_text (\<lambda>a. reads get_any_data (\<lambda>b. give \<lparr>li_label = a, li_payload = b\<rparr>))"

definition ok_list_item :: "list_item \<Rightarrow> bool" where
  "ok_list_item x \<longleftrightarrow> ok_text (li_label x) \<and> (ok_data (DATA_DEPTH + 1)) (li_payload x)"

interpretation list_item: codec put_list_item get_list_item ok_list_item
proof (rule codec.intro)
  show "get_list_item (put_list_item x @ rest) = Inr (x, rest)" if "ok_list_item x" for x rest
    using that by (simp add: put_list_item_def get_list_item_def ok_list_item_def codec_simps)
  show "takes get_list_item ok_list_item"
    unfolding get_list_item_def by (rule codec_intros | simp add: ok_list_item_def)+
qed

interpretation vec_listitem: codec "put_list put_list_item" "get_list get_list_item" "ok_list ok_list_item"
  by (rule codec_list [OF list_item.codec_axioms])

interpretation option_usize: codec "put_option put_usize" "get_option get_usize" "pred_option ok_u64"
  by (rule codec_option [OF usize.codec_axioms])

interpretation pair__anyref_option_run: codec "put_pair put_any_ref (put_option put_run)" "get_pair get_any_ref (get_option get_run)" "pred_prod ok_any_ref (pred_option run_ok)"
  by (rule codec_pair [OF any_ref.codec_axioms option_run.codec_axioms])

interpretation option_anyref_option_run: codec "put_option (put_pair put_any_ref (put_option put_run))" "get_option (get_pair get_any_ref (get_option get_run))" "pred_option (pred_prod ok_any_ref (pred_option run_ok))"
  by (rule codec_option [OF pair__anyref_option_run.codec_axioms])

record list_screen =
  ls_title :: str
  ls_items :: "list_item list"
  ls_current :: "nat option"
  ls_selected :: nat
  ls_about :: "(any_ref \<times> (run option)) option"
  ls_action :: callback
  ls_client :: data

definition put_list_screen :: "list_screen \<Rightarrow> byte list" where
  "put_list_screen x =
     put_text (ls_title x) @ put_list put_list_item (ls_items x) @ put_option put_usize (ls_current x)
       @ put_usize (ls_selected x) @ put_option (put_pair put_any_ref (put_option put_run)) (ls_about x)
       @ put_callback (ls_action x) @ put_data (ls_client x)"

definition get_list_screen :: "list_screen reader" where
  "get_list_screen =
     reads get_text (\<lambda>a. reads (get_list get_list_item) (\<lambda>b.
       reads (get_option get_usize) (\<lambda>c. reads get_usize (\<lambda>d.
       reads (get_option (get_pair get_any_ref (get_option get_run))) (\<lambda>e. reads get_callback (\<lambda>f.
       reads get_any_data (\<lambda>g. give \<lparr>ls_title = a, ls_items = b, ls_current = c, ls_selected = d,
       ls_about = e, ls_action = f, ls_client = g\<rparr>)))))))"

definition ok_list_screen :: "list_screen \<Rightarrow> bool" where
  "ok_list_screen x \<longleftrightarrow> ok_text (ls_title x) \<and> (ok_list ok_list_item) (ls_items x)
       \<and> (pred_option ok_u64) (ls_current x) \<and> ok_u64 (ls_selected x)
       \<and> (pred_option (pred_prod ok_any_ref (pred_option run_ok))) (ls_about x) \<and> ok_callback (ls_action x)
       \<and> (ok_data (DATA_DEPTH + 1)) (ls_client x)"

interpretation list_screen: codec put_list_screen get_list_screen ok_list_screen
proof (rule codec.intro)
  show "get_list_screen (put_list_screen x @ rest) = Inr (x, rest)" if "ok_list_screen x" for x rest
    using that by (simp add: put_list_screen_def get_list_screen_def ok_list_screen_def codec_simps)
  show "takes get_list_screen ok_list_screen"
    unfolding get_list_screen_def by (rule codec_intros | simp add: ok_list_screen_def)+
qed

interpretation option_callback: codec "put_option put_callback" "get_option get_callback" "pred_option ok_callback"
  by (rule codec_option [OF callback.codec_axioms])

text \<open>\<open>Prompt\<close>: its line goes as its text, and comes back with the cursor at its end.\<close>

record prompt =
  prompt_title :: str
  prompt_line :: line
  prompt_action :: "callback option"

definition put_prompt :: "prompt \<Rightarrow> byte list" where
  "put_prompt p = put_text (prompt_title p) @ put_text (line_text (prompt_line p))
       @ put_option put_callback (prompt_action p)"

definition get_prompt :: "prompt reader" where
  "get_prompt = reads get_text (\<lambda>title. reads get_text (\<lambda>t.
     if \<not> no_control t then refuse (Bad_Value ''prompt text'')
     else (case line_edit (Insert t) (line_new []) of
             None \<Rightarrow> refuse (Bad_Value ''prompt length'')
           | Some l \<Rightarrow> reads (get_option get_callback) (\<lambda>a. give \<lparr>prompt_title = title,
       prompt_line = l, prompt_action = a\<rparr>))))"

definition ok_prompt :: "prompt \<Rightarrow> bool" where
  "ok_prompt p \<longleftrightarrow> ok_text (prompt_title p) \<and> line_after (prompt_line p) = []
     \<and> ok_text (line_before (prompt_line p)) \<and> no_control (line_before (prompt_line p))
     \<and> pred_option ok_callback (prompt_action p)"

lemma prompt_line_read:
  "ok_text t \<Longrightarrow> no_control t \<Longrightarrow> line_edit (Insert t) (line_new []) = Some \<lparr>line_before = t, line_after = []\<rparr>"
  by (simp add: insert_plain ok_text_def line_new_def)

interpretation prompt: codec put_prompt get_prompt ok_prompt
proof (rule codec.intro)
  show "get_prompt (put_prompt x @ rest) = Inr (x, rest)" if "ok_prompt x" for x rest
    using that
    by (cases x; cases "prompt_line x")
      (simp add: put_prompt_def get_prompt_def ok_prompt_def codec_simps line_text_def prompt_line_read)
  have "steady (if \<not> no_control t then refuse (Bad_Value ''prompt text'')
     else (case line_edit (Insert t) (line_new []) of
             None \<Rightarrow> refuse (Bad_Value ''prompt length'')
           | Some l \<Rightarrow> reads (get_option get_callback) (\<lambda>a. give \<lparr>prompt_title = title, prompt_line = l, prompt_action = a\<rparr>)))
     ok_prompt" if "ok_text t" "ok_text title" for t title
    using that by (cases "no_control t") (simp_all add: prompt_line_read, (rule codec_intros | simp add: ok_prompt_def)+)
  then show "takes get_prompt ok_prompt"
    unfolding get_prompt_def by (intro takes_reads [OF str.takes] steady_reads [OF str.steady])
qed

datatype open_screen =
    Open_List list_screen
  | Open_Prompt prompt

fun put_open_screen :: "open_screen \<Rightarrow> byte list" where
  "put_open_screen (Open_List a) = put_u8 0 @ put_list_screen a"
| "put_open_screen (Open_Prompt a) = put_u8 1 @ put_prompt a"

definition get_open_screen :: "open_screen reader" where
  "get_open_screen = reads get_u8 (\<lambda>tag.
     if tag = 0 then reads get_list_screen (\<lambda>a. give (Open_List a))
     else if tag = 1 then reads get_prompt (\<lambda>a. give (Open_Prompt a))
     else refuse (Bad_Tag ''screen'' tag))"

fun ok_open_screen :: "open_screen \<Rightarrow> bool" where
  "ok_open_screen (Open_List a) = ok_list_screen a"
| "ok_open_screen (Open_Prompt a) = ok_prompt a"

interpretation open_screen: codec put_open_screen get_open_screen ok_open_screen
proof (rule codec.intro)
  show "get_open_screen (put_open_screen x @ rest) = Inr (x, rest)" if "ok_open_screen x" for x rest
    using that by (cases x) (simp_all add: get_open_screen_def codec_simps)
  show "takes get_open_screen ok_open_screen"
    unfolding get_open_screen_def by (rule codec_intros | simp)+
qed

end
