(* ===== verification/Wire_Request.thy ===== *)
theory Wire_Request
  imports Wire_Callback Layout_Flat
begin

text \<open>
  What a client asks of the server (\<open>Command\<close>, \<open>ClientAction\<close>, \<open>Request\<close> of
  \<open>command.rs\<close>), as it goes over the socket: what is asked is what the server
  reads, whatever comes after; a request cut short is none; and what the
  server reads, from any bytes, is a request whose every number, text, size
  and argv its types admit.
\<close>

interpretation vec_u32: codec "put_list put_u32" "get_list get_u32" "ok_list ok_u32"
  by (rule codec_list [OF u32.codec_axioms])

fun put_node :: "node \<Rightarrow> byte list" where
  "put_node (NPane a) = put_u8 0 @ put_id a"
| "put_node (NSplit a b c d e) = put_u8 1 @ put_axis a @ put_nonzero b @ put_nonzero c @ put_u32 d @ put_u32 e"
| "put_node (NStack a) = put_u8 2 @ put_list put_u32 a"

definition get_node :: "node reader" where
  "get_node = reads get_u8 (\<lambda>tag.
     if tag = 0 then reads get_id (\<lambda>a. give (NPane a))
     else if tag = 1 then reads get_axis (\<lambda>a. reads get_nonzero (\<lambda>b. reads get_nonzero (\<lambda>c.
       reads get_u32 (\<lambda>d. reads get_u32 (\<lambda>e. give (NSplit a b c d e))))))
     else if tag = 2 then reads (get_list get_u32) (\<lambda>a. give (NStack a))
     else refuse (Bad_Tag ''Node'' tag))"

fun ok_node :: "node \<Rightarrow> bool" where
  "ok_node (NPane a) = ok_u32 a"
| "ok_node (NSplit a b c d e) = (ok_nonzero b \<and> ok_nonzero c \<and> ok_u32 d \<and> ok_u32 e)"
| "ok_node (NStack a) = (ok_list ok_u32) a"

interpretation node: codec put_node get_node ok_node
proof (rule codec.intro)
  show "get_node (put_node x @ rest) = Inr (x, rest)" if "ok_node x" for x rest
    using that by (cases x) (simp_all add: get_node_def codec_simps)
  show "takes get_node ok_node"
    unfolding get_node_def by (rule codec_intros | simp)+
qed

datatype projection =
    Proj_Facts
  | Proj_Topology
  | Proj_Recipe
  | Proj_Field str

fun put_projection :: "projection \<Rightarrow> byte list" where
  "put_projection Proj_Facts = put_u8 0"
| "put_projection Proj_Topology = put_u8 1"
| "put_projection Proj_Recipe = put_u8 2"
| "put_projection (Proj_Field a) = put_u8 3 @ put_text a"

definition get_projection :: "projection reader" where
  "get_projection = reads get_u8 (\<lambda>tag.
     if tag = 0 then give Proj_Facts
     else if tag = 1 then give Proj_Topology
     else if tag = 2 then give Proj_Recipe
     else if tag = 3 then reads get_text (\<lambda>a. give (Proj_Field a))
     else refuse (Bad_Tag ''Projection'' tag))"

fun ok_projection :: "projection \<Rightarrow> bool" where
  "ok_projection Proj_Facts = True"
| "ok_projection Proj_Topology = True"
| "ok_projection Proj_Recipe = True"
| "ok_projection (Proj_Field a) = ok_text a"

interpretation projection: codec put_projection get_projection ok_projection
proof (rule codec.intro)
  show "get_projection (put_projection x @ rest) = Inr (x, rest)" if "ok_projection x" for x rest
    using that by (cases x) (simp_all add: get_projection_def codec_simps)
  show "takes get_projection ok_projection"
    unfolding get_projection_def by (rule codec_intros | simp)+
qed

interpretation vec_input: codec "put_list put_input" "get_list get_input" "ok_list ok_input"
  by (rule codec_list [OF input.codec_axioms])

datatype client_action =
    CA_Detach
  | CA_Capture
  | CA_Open open_screen
  | CA_Keys "input list"
  | CA_Show any_ref
  | CA_Step any_ref sibling_way

fun put_client_action :: "client_action \<Rightarrow> byte list" where
  "put_client_action CA_Detach = put_u8 0"
| "put_client_action CA_Capture = put_u8 1"
| "put_client_action (CA_Open a) = put_u8 2 @ put_open_screen a"
| "put_client_action (CA_Keys a) = put_u8 3 @ put_list put_input a"
| "put_client_action (CA_Show a) = put_u8 4 @ put_any_ref a"
| "put_client_action (CA_Step a b) = put_u8 5 @ put_any_ref a @ put_sibling_way b"

definition get_client_action :: "client_action reader" where
  "get_client_action = reads get_u8 (\<lambda>tag.
     if tag = 0 then give CA_Detach
     else if tag = 1 then give CA_Capture
     else if tag = 2 then reads get_open_screen (\<lambda>a. give (CA_Open a))
     else if tag = 3 then reads (get_list get_input) (\<lambda>a. give (CA_Keys a))
     else if tag = 4 then reads get_any_ref (\<lambda>a. give (CA_Show a))
     else if tag = 5 then reads get_any_ref (\<lambda>a. reads get_sibling_way (\<lambda>b. give (CA_Step a b)))
     else refuse (Bad_Tag ''ClientAction'' tag))"

fun ok_client_action :: "client_action \<Rightarrow> bool" where
  "ok_client_action CA_Detach = True"
| "ok_client_action CA_Capture = True"
| "ok_client_action (CA_Open a) = ok_open_screen a"
| "ok_client_action (CA_Keys a) = (ok_list ok_input) a"
| "ok_client_action (CA_Show a) = ok_any_ref a"
| "ok_client_action (CA_Step a b) = (ok_any_ref a \<and> ok_sibling_way b)"

interpretation client_action: codec put_client_action get_client_action ok_client_action
proof (rule codec.intro)
  show "get_client_action (put_client_action x @ rest) = Inr (x, rest)" if "ok_client_action x" for x rest
    using that by (cases x) (simp_all add: get_client_action_def codec_simps)
  show "takes get_client_action ok_client_action"
    unfolding get_client_action_def by (rule codec_intros | simp)+
qed

interpretation vec_wsref: codec "put_list put_ws_ref" "get_list get_ws_ref" "ok_list ok_ws_ref"
  by (rule codec_list [OF ws_ref.codec_axioms])

interpretation option_pathbuf: codec "put_option put_os" "get_option get_os" "pred_option ok_os"
  by (rule codec_option [OF os.codec_axioms])

interpretation option_program: codec "put_option put_program" "get_option get_program" "pred_option ok_program"
  by (rule codec_option [OF program_argv.codec_axioms])

interpretation option_anyref: codec "put_option put_any_ref" "get_option get_any_ref" "pred_option ok_any_ref"
  by (rule codec_option [OF any_ref.codec_axioms])

interpretation vec_node: codec "put_list put_node" "get_list get_node" "ok_list ok_node"
  by (rule codec_list [OF node.codec_axioms])

interpretation option_clientid: codec "put_option put_id" "get_option get_id" "pred_option ok_u32"
  by (rule codec_option [OF id.codec_axioms])

datatype command =
    Cmd_Inspect scope projection
  | Cmd_KillServer
  | Cmd_NewTab "ws_ref list" "str option" "size option" "str option" start pane_options
  | Cmd_Split beside pane_id start "str option" pane_options
  | Cmd_Respawn pane_id bool "program_argv option"
  | Cmd_Notify "any_ref option" str
  | Cmd_Resize resized
  | Cmd_SendMouse pane_id mouse nat nat
  | Cmd_Kill "any_ref option"
  | Cmd_Signal pane_id signal
  | Cmd_Rename any_ref str
  | Cmd_Move any_ref move_to
  | Cmd_SwapPane pane_id swap_with
  | Cmd_Arrange tab_id layout_revision "node list"
  | Cmd_ResizePane pane_id pane_resize
  | Cmd_SendKeys to_panes "input list"
  | Cmd_HistoryBudget pane_id nat
  | Cmd_ClearHistory pane_id
  | Cmd_Zoom pane_id
  | Cmd_CapturePane pane_id "nat option" capture_view
  | Cmd_Reorder any_ref sibling
  | Cmd_Resolve str kind
  | Cmd_Members "any_ref option" members
  | Cmd_Client "client_id option" client_action

fun put_command :: "command \<Rightarrow> byte list" where
  "put_command (Cmd_Inspect a b) = put_u8 0 @ put_scope a @ put_projection b"
| "put_command Cmd_KillServer = put_u8 1"
| "put_command (Cmd_NewTab a b c d e f) = put_u8 2 @ put_list put_ws_ref a @ put_option put_text b
       @ put_option put_size c @ put_option put_os d @ put_start e @ put_pane_options f"
| "put_command (Cmd_Split a b c d e) = put_u8 3 @ put_beside a @ put_id b @ put_start c @ put_option put_os d
       @ put_pane_options e"
| "put_command (Cmd_Respawn a b c) = put_u8 4 @ put_id a @ put_bool b @ put_option put_program c"
| "put_command (Cmd_Notify a b) = put_u8 5 @ put_option put_any_ref a @ put_text b"
| "put_command (Cmd_Resize a) = put_u8 6 @ put_resized a"
| "put_command (Cmd_SendMouse a b c d) = put_u8 7 @ put_id a @ put_mouse b @ put_u16 c @ put_u16 d"
| "put_command (Cmd_Kill a) = put_u8 8 @ put_option put_any_ref a"
| "put_command (Cmd_Signal a b) = put_u8 9 @ put_id a @ put_signal b"
| "put_command (Cmd_Rename a b) = put_u8 10 @ put_any_ref a @ put_text b"
| "put_command (Cmd_Move a b) = put_u8 11 @ put_any_ref a @ put_move_to b"
| "put_command (Cmd_SwapPane a b) = put_u8 12 @ put_id a @ put_swap_with b"
| "put_command (Cmd_Arrange a b c) = put_u8 13 @ put_id a @ put_revision b @ put_list put_node c"
| "put_command (Cmd_ResizePane a b) = put_u8 14 @ put_id a @ put_pane_resize b"
| "put_command (Cmd_SendKeys a b) = put_u8 15 @ put_to_panes a @ put_list put_input b"
| "put_command (Cmd_HistoryBudget a b) = put_u8 16 @ put_id a @ put_number b"
| "put_command (Cmd_ClearHistory a) = put_u8 17 @ put_id a"
| "put_command (Cmd_Zoom a) = put_u8 18 @ put_id a"
| "put_command (Cmd_CapturePane a b c) = put_u8 19 @ put_id a @ put_option put_usize b @ put_capture_view c"
| "put_command (Cmd_Reorder a b) = put_u8 20 @ put_any_ref a @ put_sibling b"
| "put_command (Cmd_Resolve a b) = put_u8 21 @ put_text a @ put_kind b"
| "put_command (Cmd_Members a b) = put_u8 22 @ put_option put_any_ref a @ put_members b"
| "put_command (Cmd_Client a b) = put_u8 23 @ put_option put_id a @ put_client_action b"

definition get_command :: "command reader" where
  "get_command = reads get_u8 (\<lambda>tag.
     if tag = 0 then reads get_scope (\<lambda>a. reads get_projection (\<lambda>b. give (Cmd_Inspect a b)))
     else if tag = 1 then give Cmd_KillServer
     else if tag = 2 then reads (get_list get_ws_ref) (\<lambda>a. reads (get_option get_text) (\<lambda>b.
       reads (get_option get_screen) (\<lambda>c. reads (get_option get_os) (\<lambda>d. reads get_start (\<lambda>e.
       reads get_pane_options (\<lambda>f. give (Cmd_NewTab a b c d e f)))))))
     else if tag = 3 then reads get_beside (\<lambda>a. reads get_id (\<lambda>b. reads get_start (\<lambda>c.
       reads (get_option get_os) (\<lambda>d. reads get_pane_options (\<lambda>e. give (Cmd_Split a b c d e))))))
     else if tag = 4 then reads get_id (\<lambda>a. reads get_bool (\<lambda>b.
       reads (get_option get_program) (\<lambda>c. give (Cmd_Respawn a b c))))
     else if tag = 5 then reads (get_option get_any_ref) (\<lambda>a. reads get_text (\<lambda>b. give (Cmd_Notify a b)))
     else if tag = 6 then reads get_resized (\<lambda>a. give (Cmd_Resize a))
     else if tag = 7 then reads get_id (\<lambda>a. reads get_mouse (\<lambda>b. reads get_u16 (\<lambda>c.
       reads get_u16 (\<lambda>d. give (Cmd_SendMouse a b c d)))))
     else if tag = 8 then reads (get_option get_any_ref) (\<lambda>a. give (Cmd_Kill a))
     else if tag = 9 then reads get_id (\<lambda>a. reads get_signal (\<lambda>b. give (Cmd_Signal a b)))
     else if tag = 10 then reads get_any_ref (\<lambda>a. reads get_text (\<lambda>b. give (Cmd_Rename a b)))
     else if tag = 11 then reads get_any_ref (\<lambda>a. reads get_move_to (\<lambda>b. give (Cmd_Move a b)))
     else if tag = 12 then reads get_id (\<lambda>a. reads get_swap_with (\<lambda>b. give (Cmd_SwapPane a b)))
     else if tag = 13 then reads get_id (\<lambda>a. reads get_revision (\<lambda>b.
       reads (get_list get_node) (\<lambda>c. give (Cmd_Arrange a b c))))
     else if tag = 14 then reads get_id (\<lambda>a. reads get_pane_resize (\<lambda>b. give (Cmd_ResizePane a b)))
     else if tag = 15 then reads get_to_panes (\<lambda>a. reads (get_list get_input) (\<lambda>b. give (Cmd_SendKeys a b)))
     else if tag = 16 then reads get_id (\<lambda>a. reads (get_number 0 HISTORY_MOST) (\<lambda>b. give (Cmd_HistoryBudget a b)))
     else if tag = 17 then reads get_id (\<lambda>a. give (Cmd_ClearHistory a))
     else if tag = 18 then reads get_id (\<lambda>a. give (Cmd_Zoom a))
     else if tag = 19 then reads get_id (\<lambda>a. reads (get_option get_usize) (\<lambda>b.
       reads get_capture_view (\<lambda>c. give (Cmd_CapturePane a b c))))
     else if tag = 20 then reads get_any_ref (\<lambda>a. reads get_sibling (\<lambda>b. give (Cmd_Reorder a b)))
     else if tag = 21 then reads get_text (\<lambda>a. reads get_kind (\<lambda>b. give (Cmd_Resolve a b)))
     else if tag = 22 then reads (get_option get_any_ref) (\<lambda>a. reads get_members (\<lambda>b. give (Cmd_Members a b)))
     else if tag = 23 then reads (get_option get_id) (\<lambda>a. reads get_client_action (\<lambda>b. give (Cmd_Client a b)))
     else refuse (Bad_Tag ''Command'' tag))"

fun ok_command :: "command \<Rightarrow> bool" where
  "ok_command (Cmd_Inspect a b) = (ok_scope a \<and> ok_projection b)"
| "ok_command Cmd_KillServer = True"
| "ok_command (Cmd_NewTab a b c d e f) = ((ok_list ok_ws_ref) a \<and> (pred_option ok_text) b
       \<and> (pred_option ok_screen) c \<and> (pred_option ok_os) d \<and> ok_start e \<and> ok_pane_options f)"
| "ok_command (Cmd_Split a b c d e) = (ok_beside a \<and> ok_u32 b \<and> ok_start c \<and> (pred_option ok_os) d \<and> ok_pane_options e)"
| "ok_command (Cmd_Respawn a b c) = (ok_u32 a \<and> (pred_option ok_program) c)"
| "ok_command (Cmd_Notify a b) = ((pred_option ok_any_ref) a \<and> ok_text b)"
| "ok_command (Cmd_Resize a) = ok_resized a"
| "ok_command (Cmd_SendMouse a b c d) = (ok_u32 a \<and> ok_mouse b \<and> ok_u16 c \<and> ok_u16 d)"
| "ok_command (Cmd_Kill a) = (pred_option ok_any_ref) a"
| "ok_command (Cmd_Signal a b) = ok_u32 a"
| "ok_command (Cmd_Rename a b) = (ok_any_ref a \<and> ok_text b)"
| "ok_command (Cmd_Move a b) = (ok_any_ref a \<and> ok_move_to b)"
| "ok_command (Cmd_SwapPane a b) = (ok_u32 a \<and> ok_swap_with b)"
| "ok_command (Cmd_Arrange a b c) = (ok_u32 a \<and> revision_ok b \<and> (ok_list ok_node) c)"
| "ok_command (Cmd_ResizePane a b) = (ok_u32 a \<and> ok_pane_resize b)"
| "ok_command (Cmd_SendKeys a b) = (ok_to_panes a \<and> (ok_list ok_input) b)"
| "ok_command (Cmd_HistoryBudget a b) = (ok_u32 a \<and> (\<lambda>n. 0 \<le> n \<and> n \<le> HISTORY_MOST \<and> ok_u64 n) b)"
| "ok_command (Cmd_ClearHistory a) = ok_u32 a"
| "ok_command (Cmd_Zoom a) = ok_u32 a"
| "ok_command (Cmd_CapturePane a b c) = (ok_u32 a \<and> (pred_option ok_u64) b \<and> ok_capture_view c)"
| "ok_command (Cmd_Reorder a b) = ok_any_ref a"
| "ok_command (Cmd_Resolve a b) = ok_text a"
| "ok_command (Cmd_Members a b) = (pred_option ok_any_ref) a"
| "ok_command (Cmd_Client a b) = ((pred_option ok_u32) a \<and> ok_client_action b)"

interpretation command: codec put_command get_command ok_command
proof (rule codec.intro)
  show "get_command (put_command x @ rest) = Inr (x, rest)" if "ok_command x" for x rest
    using that by (cases x) (simp_all add: get_command_def codec_simps)
  show "takes get_command ok_command"
    unfolding get_command_def by (rule codec_intros | simp)+
qed

text \<open>Whether every client's screen is as it was after a command.\<close>

fun shows_nothing_new :: "command \<Rightarrow> bool" where
  "shows_nothing_new (Cmd_Inspect _ _) = True"
| "shows_nothing_new (Cmd_Resolve _ _) = True"
| "shows_nothing_new (Cmd_Members _ _) = True"
| "shows_nothing_new (Cmd_CapturePane _ _ _) = True"
| "shows_nothing_new (Cmd_SendKeys _ _) = True"
| "shows_nothing_new (Cmd_SendMouse _ _ _ _) = True"
| "shows_nothing_new (Cmd_Signal _ _) = True"
| "shows_nothing_new (Cmd_Client _ CA_Capture) = True"
| "shows_nothing_new (Cmd_Client _ (CA_Keys _)) = True"
| "shows_nothing_new (Cmd_Client _ (CA_Open _)) = True"
| "shows_nothing_new _ = False"

interpretation option_cursor: codec "put_option put_cursor" "get_option get_cursor" "pred_option cursor_ok"
  by (rule codec_option [OF cursor.codec_axioms])

datatype request =
    Req_Do command
  | Req_Wait wait
  | Req_NextEvents scope "cursor option" nat
  | Req_Read client_id client_read

fun put_request :: "request \<Rightarrow> byte list" where
  "put_request (Req_Do a) = put_u8 0 @ put_command a"
| "put_request (Req_Wait a) = put_u8 1 @ put_wait a"
| "put_request (Req_NextEvents a b c) = put_u8 2 @ put_scope a @ put_option put_cursor b @ put_limit c"
| "put_request (Req_Read a b) = put_u8 3 @ put_id a @ put_client_read b"

definition get_request :: "request reader" where
  "get_request = reads get_u8 (\<lambda>tag.
     if tag = 0 then reads get_command (\<lambda>a. give (Req_Do a))
     else if tag = 1 then reads get_wait (\<lambda>a. give (Req_Wait a))
     else if tag = 2 then reads get_scope (\<lambda>a. reads (get_option get_cursor) (\<lambda>b.
       reads get_limit (\<lambda>c. give (Req_NextEvents a b c))))
     else if tag = 3 then reads get_id (\<lambda>a. reads get_client_read (\<lambda>b. give (Req_Read a b)))
     else refuse (Bad_Tag ''Request'' tag))"

fun ok_request :: "request \<Rightarrow> bool" where
  "ok_request (Req_Do a) = ok_command a"
| "ok_request (Req_Wait a) = ok_wait a"
| "ok_request (Req_NextEvents a b c) = (ok_scope a \<and> (pred_option cursor_ok) b \<and> ok_u32 c)"
| "ok_request (Req_Read a b) = ok_u32 a"

interpretation request: codec put_request get_request ok_request
proof (rule codec.intro)
  show "get_request (put_request x @ rest) = Inr (x, rest)" if "ok_request x" for x rest
    using that by (cases x) (simp_all add: get_request_def codec_simps)
  show "takes get_request ok_request"
    unfolding get_request_def by (rule codec_intros | simp)+
qed

section \<open>What the server reads\<close>

text \<open>
  C7: A request goes over the socket whole: the bytes a client writes for it
  are read back by the server as that request and no other, with whatever
  comes after left to read.
\<close>

theorem request_reads_back:
  assumes "ok_request r"
  shows "get_request (put_request r @ rest) = Inr (r, rest) \<and> whole get_request (put_request r) = Inr r"
  using request.reads_back [OF assms] request.whole_put [OF assms] by simp

theorem request_reads_back_witness:
  "get_request (put_request (Req_Do (Cmd_SendKeys (Send_Now (A_Pane 3)) [In_Text [104, 105], In_Bytes [27]])) @ [0])
     = Inr (Req_Do (Cmd_SendKeys (Send_Now (A_Pane 3)) [In_Text [104, 105], In_Bytes [27]]), [0])
   \<and> whole get_request (put_request (Req_Do (Cmd_SendKeys (Send_Now (A_Pane 3)) [In_Text [104, 105], In_Bytes [27]])))
     = Inr (Req_Do (Cmd_SendKeys (Send_Now (A_Pane 3)) [In_Text [104, 105], In_Bytes [27]]))"
  by (rule request_reads_back) (simp add: ok_text_def ok_list_def byte_less_80)

text \<open>
  C28: Whatever bytes a client sends, a request the server takes from them is
  one its types admit: each text UTF-8, each argv a program's, each size a
  screen's, each key a press as \<open>new\<close> makes it, each number in its range, and
  no value nested past the depth.
\<close>

theorem request_read_is_typed:
  "case whole get_request bs of Inr r \<Rightarrow> ok_request r | Inl _ \<Rightarrow> True"
  using request.whole_ok by (auto split: sum.split)

text \<open>
  C29: A request cut short is never taken for another: every proper beginning
  of a request's bytes is refused.
\<close>

theorem request_cut_short:
  assumes "ok_request r" "put_request r = front @ lost" "lost \<noteq> []"
  shows "\<exists>e. whole get_request front = Inl e"
  using request.cut_short [OF assms] by (auto simp: whole_def)

theorem request_cut_short_witness:
  "\<exists>e. whole get_request [0, 18, 0, 0, 0] = Inl e"
proof (rule request_cut_short)
  show "put_request (Req_Do (Cmd_Zoom 7)) = [0, 18, 0, 0, 0] @ [7]" by code_simp
qed simp_all

end
