(* ===== verification/Spec2Isabelle.thy ===== *)
theory Spec2Isabelle
  imports Layout_Shift_Laws Layout_Flat Vt_Frame Vt_Mode Vt_Check Vt_Pen Vt_Style Vt_Cells Vt_Ring Vt_Spans Wire_Request
begin

text \<open>
  A model of fux, a terminal multiplexer, in which its own core logic is
  checked: the layout of a tab (\<open>fux-wire/src/layout.rs\<close>), the parser of the
  terminal emulator (\<open>fux-vt/src/parser.rs\<close>), and the requests of the protocol
  and their bytes (\<open>fux-wire/src/wire.rs\<close>, \<open>command.rs\<close>, \<open>callback.rs\<close>,
  \<open>act.rs\<close>, \<open>id.rs\<close>, \<open>code.rs\<close>).  The program is a server (\<open>fux-server\<close>) that
  runs a terminal emulator (\<open>fux-vt\<close>) for each pane and keeps a tree of panes
  for each tab; clients speak to it over the protocol of \<open>fux-wire\<close>, which both
  share and which holds the layout's tree.

  \<^bold>\<open>The layout\<close>.  \<open>Layout_Rect\<close> has its data apart from the tree: axes,
  sides, what each client is shown of a stack, shares, rectangles.
  \<open>Layout_Tree\<close> has the tree and the iterator that walks it with a stack of
  its own, which is proved to meet the nodes of a structural preorder.
  \<open>Layout_Edit\<close> has the operations that change a tree (split, stack, remove,
  append, swap, forget, reveal), \<open>Layout_Edit_Laws\<close> that each does what it
  promises and keeps the tree well formed (\<open>tree_ok\<close>).  \<open>Layout_Place\<close> has
  the placing of a tree on a rectangle, a loop with a stack of its own that
  takes each split's least from two lists worked out beforehand;
  \<open>Layout_Place_Laws\<close> proves it equal to a structural reading and that it
  tiles the area.  \<open>Layout_Nav\<close> has moves between panes as placed, and
  \<open>Layout_Resize\<close>, \<open>Layout_Resize_Laws\<close> and \<open>Layout_Shift_Laws\<close> borders moved.
  \<open>Layout_Flat\<close> has the tree as it is sent: its flat nodes, its choices, and
  \<open>from_nodes\<close>, which checks what a client sends before it builds a tree; a
  tree it builds is well formed whatever was sent, and a tree's own nodes
  build it again.

  \<^bold>\<open>The parser\<close>.  \<open>Vt_Words\<close> has the scans that read eight bytes as one 64-bit
  word, \<open>Vt_Utf8\<close> the decoding of UTF-8, \<open>Vt_Parser\<close> the parameters, states
  and the transition of each byte, \<open>Vt_Fast\<close> the paths that take many bytes at
  once, proved to read what the transitions read.  \<open>Vt_Run\<close> has the loop over
  bytes, what the screen and the work budget answer being a record \<open>host\<close> of
  the model, and \<open>process_all\<close>, which calls it until nothing is left.
  \<open>Vt_Check\<close> has the parser's checks of itself, which hold of every parser
  that can be reached, \<open>Vt_Mode\<close> the table and the set of terminal modes,
  and \<open>Vt_Frame\<close> the scan for the end of a synchronized frame, which
  simulates the parser with far less state.

  \<^bold>\<open>The pen\<close>.  \<open>Vt_Attrs\<close> has the attributes of a cell (\<open>fux-vt/src/cell.rs\<close>)
  and the numbers of the styles that need no table, \<open>Vt_Style\<close> the table of
  the others and its sweep (\<open>style.rs\<close>).  \<open>Vt_Sgr\<close> has the SGR sequences a
  renderer writes and what a screen does with the groups of one, and \<open>Vt_Pen\<close>
  that the parser reads from the bytes of groups those groups, so that what is
  painted is what is read.

  \<^bold>\<open>Rows of cells\<close>.  \<open>Vt_Compact\<close> has the eight bytes of a stored cell, its
  text inline or located in its row's, and \<open>Vt_Line\<close> the writing of a row:
  setting, appending, replacing, clearing a span, compacting
  (\<open>fux-vt/src/compact.rs\<close>).  \<open>Vt_Row\<close> has the row's invariant \<open>line_ok\<close> (every
  text where its cell says, no two sharing bytes, each part within its limit)
  and the abstraction \<open>shown\<close>, the list of texts a row reads as: each
  operation refines one on that list, and a text is cut only where the limits
  leave it no room.  \<open>Vt_Row_Copy\<close> has spans copied and rows stored again, and
  \<open>Vt_Cells\<close> the runs of cells a host keeps (\<open>cell.rs\<close>).  The invariant is of
  rows whose short clusters a 24-bit locator reaches, up to 986895 cells; a
  screen's has at most 65535.

  \<^bold>\<open>Queues and history\<close>.  \<open>Vt_Queue\<close> has the interface of what arrives at
  one end and leaves at the other (the locale \<open>fifo\<close>) and the queue of bytes of
  \<open>bytes.rs\<close>; \<open>Vt_Ring\<close> the chunks history keeps its records in
  (\<open>history/ring.rs\<close>), which answer as a list does; \<open>Vt_Spans\<close> how a row is
  found by its identity (\<open>history/spans.rs\<close>).

  \<^bold>\<open>Requests and their bytes\<close>.  \<open>Rust_Text\<close> has what the code uses of a
  Rust \<open>str\<close>, which is its bytes here: validity, splitting, parsing of digits.
  \<open>Vt_Keys\<close> has the names of keys and how a press is spelt and read.
  \<open>Wire_Base\<close> has the readers and writers of \<open>wire.rs\<close> and the interface every
  encoding offers the ones built from it, the locale \<open>codec\<close>: a value written
  is read back with whatever follows it left, a reader takes only what it is
  given, what is read is of its type, and what is cut short is not read.
  \<open>exact_codec\<close> adds that nothing but what is written is read.  \<open>Wire_Code\<close>
  has the codes and names of failures, \<open>Wire_Id\<close> identifiers that are never
  given twice, versions and tokens, \<open>Wire_Values\<close> the encodings of the closed
  sets and small values, \<open>Wire_Command\<close>, \<open>Wire_Callback\<close> and \<open>Wire_Request\<close>
  those of the records, enums and requests, in the order of the fields and
  the variants' tags.  For a type T the encoding is \<open>put_T\<close>, \<open>get_T\<close> and \<open>ok_T\<close>,
  the values Rust's type has; each has its own interpretation of \<open>codec\<close>.

  \<^bold>\<open>Conventions\<close>.  \<open>Prelude\<close> has what the components share: saturating and
  checked arithmetic, \<open>slice::get\<close>, and the locale \<open>worklist\<close> for a loop with a
  stack of its own, which the placing loop interprets.  A u16 or u32 that only
  saturates, and an integer that only travels, is a natural number with its
  bound written out; bytes, and the words the scans read, are machine words.
  A \<open>usize\<close> is 64 bits and an \<open>OsString\<close> is bytes, as on the Unix systems the
  program is built for.  Loops are recursions with a measure, with two
  exceptions: \<open>process_all\<close>, whose loop ends only if the host lets it, has
  fuel, and \<open>process_all_reads\<close> says how much is enough; and callback data,
  which nests, is read to the code's own limit of depth.  A panic cannot
  happen in the code modelled (it indexes with \<open>get\<close>), so an option is always
  the code's own.

  \<^bold>\<open>Not modelled\<close>.  Memory and its limits (\<open>reserve\<close>, the buffers' capacity),
  \<open>Clone\<close>, \<open>Drop\<close> and \<open>Debug\<close> of a tree, which are the identity or nothing on
  values; the counters of the parser's work budget, of which only the answers
  are kept; what the screen, the sixel decoder and the host do with the
  actions the parser gives; the text of errors, which are constructors here;
  the Windows variants of the protocol's types; and the components the
  manifest lists as not modelled.
\<close>

end
